(* ===== verification/Prelude.thy ===== *)
theory Prelude
  imports Main "HOL-Library.Word" "HOL-Library.Char_ord"
begin

text \<open>
  The vocabulary every component shares: the machine integers of the Rust code as words of
  their width, text as byte strings, and the small lemmas on words, lists and intervals that
  several component proofs use.

  A Rust \<open>&str\<close> or a byte slice that holds text is a \<^typ>\<open>string\<close>: a Rust string is
  its UTF-8 bytes, and a HOL \<^typ>\<open>char\<close> is one byte. Binary buffers are lists of
  8-bit words. Positions and lengths (\<open>usize\<close>) are natural numbers where the code cannot
  overflow them.
\<close>

unbundle bit_operations_syntax

type_synonym u8 = "8 word"
type_synonym u16 = "16 word"
type_synonym u32 = "32 word"
type_synonym u64 = "64 word"
type_synonym u128 = "128 word"
type_synonym bytes = "8 word list"

abbreviation ord :: "char \<Rightarrow> nat" where
  "ord c \<equiv> of_char c"

abbreviation chr :: "nat \<Rightarrow> char" where
  "chr n \<equiv> char_of n"

named_theorems word_to_nat \<open>reading a word operation of the code as natural arithmetic\<close>
named_theorems kept \<open>operations that keep a component's invariant\<close>
named_theorems bound_intro \<open>results that stay inside a documented bound\<close>

section \<open>Bytes read as characters\<close>

lemma ord_less_256 [bound_intro]: "ord c < 256"
  by (rule nat_of_char_less_256)

lemma ord_chr [simp]: "n < 256 \<Longrightarrow> ord (chr n) = n"
  by simp

lemma ord_eq_iff: "c = d \<longleftrightarrow> ord c = ord d"
  by simp

lemma all_chars_by_code:
  assumes "\<And>n. n < 256 \<Longrightarrow> P (chr n)"
  shows "P c"
  using assms [of "ord c"] by simp

section \<open>Words\<close>

lemma unat_drop_bit [word_to_nat]: "unat (drop_bit n (w :: 'a::len word)) = unat w div 2 ^ n"
  by (simp add: unsigned_drop_bit_eq drop_bit_eq_div [where 'a = nat] take_bit_nat_eq_self)

lemma unat_less_pow:
  "unat (a :: u8) < 256" "unat (b :: u16) < 65536" "unat (c :: u32) < 4294967296"
  "unat (d :: u64) < 18446744073709551616"
  using unsigned_less [of a] unsigned_less [of b] unsigned_less [of c] unsigned_less [of d]
  by simp_all

lemma unat_widen [word_to_nat, simp]:
  "unat (ucast (a :: u8) :: u32) = unat a" "unat (ucast (a :: u8) :: u64) = unat a"
  "unat (ucast (b :: u16) :: u32) = unat b" "unat (ucast (c :: u32) :: u64) = unat c"
  using unat_less_pow(1) [of a] unat_less_pow(2) [of b] unat_less_pow(3) [of c]
  by (simp_all add: unsigned_ucast_eq take_bit_nat_eq_self)

lemma drop_bit_fixpoint:
  fixes z :: "'a::len word"
  assumes "z = drop_bit k z" and "0 < k"
  shows "z = 0"
proof (rule ccontr)
  assume "z \<noteq> 0"
  then have pos: "0 < unat z" by (simp add: unat_gt_0)
  have "unat z = unat z div 2 ^ k"
    using arg_cong [OF assms(1), of unat] by (simp add: unat_drop_bit)
  moreover have "unat z div 2 ^ k < unat z"
    using pos assms(2) one_less_power [of "2::nat" k] by (intro div_less_dividend) auto
  ultimately show False by simp
qed

lemma push_bit_fixpoint:
  fixes z :: "'a::len word"
  assumes "z = push_bit k z" and "0 < k"
  shows "z = 0"
proof (rule bit_word_eqI)
  fix n
  assume "n < LENGTH('a)"
  have "\<not> bit z n"
  proof (induction n rule: less_induct)
    case (less n)
    have "bit z n \<longleftrightarrow> bit (push_bit k z) n" using assms(1) by simp
    then show ?case using less.IH [of "n - k"] assms(2) by (auto simp: bit_push_bit_iff)
  qed
  then show "bit z n \<longleftrightarrow> bit (0 :: 'a word) n" by simp
qed

lemma xor_eq_zero_iff: "(a :: 'a::len word) XOR b = 0 \<longleftrightarrow> a = b"
proof
  assume "a XOR b = 0"
  then have "(a XOR b) XOR b = b" by simp
  then show "a = b" by (simp add: xor.assoc)
qed simp

lemma xor_exchange:
  fixes a b c d :: "'a::len word"
  shows "a XOR b = c XOR d \<longleftrightarrow> a XOR c = b XOR d"
proof -
  have "(a XOR b) XOR (c XOR d) = (a XOR c) XOR (b XOR d)"
    by (simp only: xor.assoc xor.left_commute)
  then show ?thesis by (metis xor_eq_zero_iff)
qed

lemma xor_cancel [simp]:
  fixes a b c :: "'a::len word"
  shows "a XOR b = c XOR b \<longleftrightarrow> a = c" and "b XOR a = b XOR c \<longleftrightarrow> a = c"
proof -
  show r: "a XOR b = c XOR b \<longleftrightarrow> a = c"
    by (metis xor.assoc xor_self_eq xor.right_neutral)
  then show "b XOR a = b XOR c \<longleftrightarrow> a = c" by (simp only: xor.commute [of b])
qed

text \<open>\<open>x ^ (x >> k)\<close> loses nothing: the top bits pass through and fix the ones below.\<close>

lemma xorshift_inj:
  fixes x y :: "'a::len word"
  assumes "x XOR drop_bit k x = y XOR drop_bit k y" and "0 < k"
  shows "x = y"
proof -
  have "(x XOR y) XOR drop_bit k (x XOR y) = (x XOR drop_bit k x) XOR (y XOR drop_bit k y)"
    by (simp add: xor.assoc xor.left_commute)
  also have "\<dots> = 0" by (simp only: assms(1) xor_self_eq)
  finally have "x XOR y = drop_bit k (x XOR y)"
    by (simp only: xor_eq_zero_iff)
  then have "x XOR y = 0" using assms(2) by (rule drop_bit_fixpoint)
  then show ?thesis by (simp add: xor_eq_zero_iff)
qed

lemma mult_inverse_inj:
  fixes a b :: "'a::len word"
  assumes "m * n = 1" and "a * m = b * m"
  shows "a = b"
  using arg_cong [OF assms(2), of "\<lambda>v. v * n"] assms(1) by (simp add: mult.assoc)

lemma unat_mult_widen [word_to_nat]:
  fixes a b :: "64 word"
  shows "unat ((ucast a :: 128 word) * ucast b) = unat a * unat b"
proof -
  have lt: "unat a < 2 ^ 64" "unat b < 2 ^ 64"
    using unsigned_less [of a] unsigned_less [of b] by simp_all
  then have self: "take_bit 128 (unat a) = unat a" "take_bit 128 (unat b) = unat b"
    by (simp_all add: take_bit_nat_eq_self)
  from lt have "unat a * unat b < 2 ^ 64 * 2 ^ 64"
    by (intro mult_strict_mono) auto
  then have "unat a * unat b < 2 ^ 128" by simp
  then show ?thesis
    by (simp add: unat_word_ariths unsigned_ucast_eq self)
qed

section \<open>Lists\<close>

lemma take_eq_nth_prefix: "i < length xs \<Longrightarrow> take (Suc i) xs = take i xs @ [xs ! i]"
  by (rule take_Suc_conv_app_nth)

lemma drop_nth_Cons: "i < length xs \<Longrightarrow> drop i xs = xs ! i # drop (Suc i) xs"
  by (rule Cons_nth_drop_Suc [symmetric])

text \<open>A forward search may skip the positions it has ruled out.\<close>

lemma ex_ge_skip:
  fixes start h :: nat
  assumes "\<And>i. start \<le> i \<Longrightarrow> i < h \<Longrightarrow> \<not> P i" and "start \<le> h"
  shows "(\<exists>i \<ge> start. P i) \<longleftrightarrow> P h \<or> (\<exists>i \<ge> h + 1. P i)"
proof
  assume "\<exists>i \<ge> start. P i"
  then obtain i where i: "start \<le> i" "P i" by blast
  then have "h \<le> i" using assms(1) [of i] by (cases "h \<le> i") auto
  then have "i = h \<or> h + 1 \<le> i" by auto
  then show "P h \<or> (\<exists>i \<ge> h + 1. P i)" using i(2) by blast
next
  assume "P h \<or> (\<exists>i \<ge> h + 1. P i)"
  then show "\<exists>i \<ge> start. P i"
    using assms(2) by (auto intro: exI [of _ h] simp: Suc_le_eq dest: less_imp_le order_trans)
qed

lemma xor_left_self [simp]: "a XOR (a XOR b) = (b :: 'a::len word)"
  by (simp flip: xor.assoc)

end
