(* ===== verification/Rng.thy ===== *)
theory Rng
  imports Prelude
begin

text \<open>
  The deterministic generators of \<open>crates/core-utils/src/rng.rs\<close>: the SplitMix64 finaliser
  and stream, its atomic variant, the salted identities derived from a seed and the
  xoshiro256** state of \<open>Rng\<close>. Each generator is a record and each drawing method returns the
  drawn word and the next state. The Gaussian and floating point draws are not modelled; the
  cached \<open>spare_gauss\<close> field they use is left out of the records.
\<close>

section \<open>Mixing\<close>

definition GOLDEN :: u64 where "GOLDEN = 0x9E3779B97F4A7C15"
definition SPLITMIX_M1 :: u64 where "SPLITMIX_M1 = 0xBF58476D1CE4E5B9"
definition SPLITMIX_M2 :: u64 where "SPLITMIX_M2 = 0x94D049BB133111EB"

definition mix :: "u64 \<Rightarrow> u64" where
  "mix z0 =
     (let z1 = (z0 XOR drop_bit 30 z0) * SPLITMIX_M1;
          z2 = (z1 XOR drop_bit 27 z1) * SPLITMIX_M2
      in z2 XOR drop_bit 31 z2)"

definition mulhi_bounded :: "u64 \<Rightarrow> u64 \<Rightarrow> u64" where
  "mulhi_bounded v n = ucast (drop_bit 64 ((ucast v :: u128) * ucast n))"

definition mix_ctx :: "u64 \<Rightarrow> u64 \<Rightarrow> u64" where
  "mix_ctx seed ctx_id = seed XOR (ctx_id * GOLDEN)"

definition mix64 :: "u64 \<Rightarrow> u64" where
  "mix64 x = (x XOR drop_bit 33 x) * 0xFF51AFD7ED558CCD"

definition mix_to_range :: "u64 \<Rightarrow> u64 \<Rightarrow> u64 \<Rightarrow> u64" where
  "mix_to_range seed salt bound =
     (if bound = 0 then 0
      else let m = seed * GOLDEN + salt * SPLITMIX_M1
           in ucast (drop_bit 32 ((ucast (drop_bit 32 m) :: u128) * ucast bound)))"

section \<open>The SplitMix64 stream\<close>

record splitmix =
  sm_state :: u64

definition sm_new :: "u64 \<Rightarrow> splitmix" where
  "sm_new seed = \<lparr>sm_state = seed\<rparr>"

definition stepped :: "splitmix \<Rightarrow> u64 \<Rightarrow> splitmix" where
  "stepped r n = r\<lparr>sm_state := sm_state r + n * GOLDEN\<rparr>"

definition sm_next_u64 :: "splitmix \<Rightarrow> u64 \<times> splitmix" where
  "sm_next_u64 r = (let s = sm_state r + GOLDEN in (mix s, r\<lparr>sm_state := s\<rparr>))"

definition sm_next_u32 :: "splitmix \<Rightarrow> u32 \<times> splitmix" where
  "sm_next_u32 r = (let (v, r') = sm_next_u64 r in (ucast v, r'))"

definition sm_next_range :: "splitmix \<Rightarrow> u32 \<Rightarrow> u32 \<Rightarrow> u32 \<times> splitmix" where
  "sm_next_range r lo hi =
     (if hi \<le> lo then (lo, r)
      else let (v, r') = sm_next_u64 r
           in (lo + ucast (mulhi_bounded v (ucast (hi - lo))), r'))"

definition sm_next_below :: "splitmix \<Rightarrow> u64 \<Rightarrow> u64 \<times> splitmix" where
  "sm_next_below r n =
     (if n = 0 then (0, r)
      else let (v, r') = sm_next_u64 r in (mulhi_bounded v n, r'))"

fun sm_draws :: "nat \<Rightarrow> splitmix \<Rightarrow> u64 list" where
  "sm_draws 0 r = []"
| "sm_draws (Suc n) r = (let (v, r') = sm_next_u64 r in v # sm_draws n r')"

text \<open>
  The atomic cell: one \<open>fetch_add\<close> per draw. The value depends only on what the
  read-modify-write returned, so concurrent callers see the draws of one sequential run.
\<close>

definition atomic_splitmix_step :: "u64 \<Rightarrow> u64 \<times> u64" where
  "atomic_splitmix_step cell = (let s = cell; cell' = s + GOLDEN in (mix (s + GOLDEN), cell'))"

section \<open>Salted identities\<close>

datatype identity = Identity u64

fun ident_at :: "identity \<Rightarrow> u64 \<Rightarrow> identity" where
  "ident_at (Identity x) salt = Identity (mix x XOR (salt * GOLDEN))"

fun ident_raw :: "identity \<Rightarrow> u64" where
  "ident_raw (Identity x) = mix x"

definition u64_in :: "identity \<Rightarrow> u64 \<Rightarrow> u64 \<Rightarrow> u64" where
  "u64_in i lo hi = (if hi \<le> lo then lo else lo + mulhi_bounded (ident_raw i) (hi - lo))"

definition u32_in :: "identity \<Rightarrow> u32 \<Rightarrow> u32 \<Rightarrow> u32" where
  "u32_in i lo hi = ucast (u64_in i (ucast lo) (ucast hi))"

definition ident_pick :: "identity \<Rightarrow> 'a list \<Rightarrow> 'a option" where
  "ident_pick i items =
     (let k = unat (mulhi_bounded (ident_raw i) (word_of_nat (length items)))
      in if k < length items then Some (items ! k) else None)"

definition ident :: "u64 \<Rightarrow> u64 \<Rightarrow> identity" where
  "ident seed salt = ident_at (Identity seed) salt"

text \<open>The salts of the module \<open>seeds\<close>, by name.\<close>

definition seeds :: "(string \<times> u64) list" where
  "seeds = [
   (''SALT_TASKBAR'', 0x7461736B62617201),
   (''SALT_CHROME'', 0x6368726F6D650202),
   (''SALT_BOOKMARKS'', 0x626F6F6B6D61726B),
   (''SALT_PERSONA'', 0x0C0D0E0F08090A0B),
   (''SALT_HOP'', 0x0405060700010203),
   (''SALT_BATCH_INTERVAL'', 0x6274636875730001),
   (''SALT_TIER'', 0xA54FF53A5F1D36F1),
   (''SALT_SKILL'', 0x9B05688C2B3E6C1F),
   (''SALT_SESSION_RNG'', 0x1DE1000000000005),
   (''SALT_IDLE_ENV'', 0x1D1E0F0000000021),
   (''SALT_IDLE_MOTOR_RNG'', 0x1DE11D1E00000011),
   (''SALT_TAB_SESSION_RNG'', 0x7E11000000000037),
   (''SALT_PLACEMENT'', 0x7A3FC0DE5EED8101),
   (''SALT_INBOUND'', 0x1DE15C2100000009),
   (''SALT_INTERACTION_RNG'', 0x1DE15C2100000007),
   (''SALT_CLICK_OFFSET_TAB'', 0x0F0C5EED00000021),
   (''SALT_INTERACTION_TARGET'', 0xF0C5EED00000023),
   (''SALT_FOCUS_CURSOR'', 0xF0C05EED00000007),
   (''SALT_FOCUS_WINDOW'', 0xF0C05EED00000009),
   (''SALT_CLICK_CURSOR'', 0x0C1C5EED00000002),
   (''SALT_CLICK_PLAN'', 0x0C1C000000000055),
   (''SALT_SCROLL_CURSOR'', 0x5C20000000000000),
   (''SALT_TREMOR_NOISE'', 0x7E110000C0FFEEEE),
   (''SALT_MOTION_RNG'', 0x1D2BA3C45E6F7081),
   (''SALT_TYPING_RNG'', 0x796665574E454759),
   (''SALT_FOCUS_ENTER'', 0xF0C5EED00000017),
   (''SALT_CLICK_ENTER'', 0xC1C000000000031),
   (''SALT_SCROLL_ENTER'', 0x5C20000000000041),
   (''SALT_CLICK_OFFSET_BASE'', 0xBB67AE8584CAA73B),
   (''SALT_AUDIO_ROOT'', 0xA0D10F1F00000124),
   (''SALT_AUDIO_CHANNEL'', 0x06),
   (''SALT_WEBGL_ROOT'', 0x574542474C534649),
   (''SALT_WEBGL_PARAM'', 0x574542474C534C4F),
   (''SALT_PIXEL_CHAN'', 0x165667B19E3779F9),
   (''SALT_GLYPH'', 0xD1CEC0DE5EED),
   (''SALT_MEM_BASE'', 0x4D454D4241534531),
   (''SALT_GLYPH_SCALE'', 0x666F6E745F73),
   (''SALT_FARBLE'', 0xC2B2AE3D27D4EB4F),
   (''SALT_FITTS_A'', 0x0F1A000000000001),
   (''SALT_FITTS_B'', 0x0F1A000000000002),
   (''SALT_GRAVITY'', 0x0F1A000000000003),
   (''SALT_WIND'', 0x0F1A000000000004),
   (''SALT_MAX_STEP'', 0x0F1A000000000005),
   (''SALT_WIND_JITTER'', 0x0F1A000000000006),
   (''SALT_TREMOR_AMP'', 0x0F1A000000000007),
   (''SALT_TREMOR_HZ'', 0x0F1A000000000008),
   (''SALT_OVERSHOOT_P'', 0x0F1A000000000009),
   (''SALT_CORRECTIONS'', 0x0F1A00000000000A),
   (''SALT_DWELL_MEDIAN'', 0x0F1A00000000000B),
   (''SALT_DWELL_SIGMA'', 0x0F1A00000000000C),
   (''SALT_WPM'', 0x0F1A00000000000D),
   (''SALT_TYPING_SIGMA'', 0x0F1A00000000000E),
   (''SALT_BURST_LEN'', 0x0F1A00000000000F),
   (''SALT_BURST_PAUSE'', 0x0F1A000000000010),
   (''SALT_BACKSPACE_P'', 0x0F1A000000000011),
   (''SALT_CAPS_ERROR_P'', 0x0F1A000000000012),
   (''SALT_NOTCH_PX'', 0x0F1A000000000013),
   (''SALT_NOTCH_FRICTION'', 0x0F1A000000000014),
   (''SALT_NOTCH_GAP'', 0x0F1A000000000015),
   (''SALT_OVERSCROLL_P'', 0x0F1A000000000016),
   (''SALT_READING_PAUSE_P'', 0x0F1A000000000017),
   (''SALT_DOUBLE_CLICK_P'', 0x0F1A000000000018),
   (''SALT_RIGHT_CLICK_P'', 0x0F1A000000000019),
   (''SALT_HOVER_P'', 0x0F1A00000000001A),
   (''SALT_IDLE_THETA'', 0x0F1A00000000001B),
   (''SALT_IDLE_NOISE'', 0x0F1A00000000001C),
   (''SALT_IDLE_HOP_W'', 0x0F1A00000000001D),
   (''SALT_IDLE_SCROLL_P'', 0x0F1A00000000001E),
   (''SALT_IDLE_ANCHOR_PULL'', 0x0F1A00000000001F),
   (''SALT_IDLE_ANCHOR_WANDER'', 0x0F1A000000000020),
   (''SALT_HOP_INTERVAL'', 0x0F1A000000000021),
   (''SALT_READING_SCROLL'', 0x0F1A000000000022),
   (''SALT_REACTION_SIGMA'', 0x0F1A000000000023),
   (''SALT_ICE_UFRAG'', 0x11110000CAFEBABE),
   (''SALT_ICE_PWD'', 0xDEADBEEFF00D0001),
   (''SALT_CRYPTO_RESEED'', 0x0C0D0E0F08090A0B)]"

section \<open>The xoshiro256** generator\<close>

record xoshiro =
  s0 :: u64
  s1 :: u64
  s2 :: u64
  s3 :: u64

definition rng_zero :: "xoshiro \<Rightarrow> bool" where
  "rng_zero r \<longleftrightarrow> s0 r = 0 \<and> s1 r = 0 \<and> s2 r = 0 \<and> s3 r = 0"

definition rng_new :: "u64 \<Rightarrow> xoshiro" where
  "rng_new seed =
     (let sm = stepped (sm_new seed) GOLDEN;
          (a, sm) = sm_next_u64 sm; (b, sm) = sm_next_u64 sm;
          (c, sm) = sm_next_u64 sm; (d, sm) = sm_next_u64 sm;
          r = \<lparr>s0 = a, s1 = b, s2 = c, s3 = d\<rparr>
      in if rng_zero r then \<lparr>s0 = 1, s1 = 2, s2 = 4, s3 = 8\<rparr> else r)"

definition rng_next_u64 :: "xoshiro \<Rightarrow> u64 \<times> xoshiro" where
  "rng_next_u64 r =
     (let result = word_rotl 7 (s1 r * 5) * 9;
          t = push_bit 17 (s1 r);
          r = r\<lparr>s2 := s2 r XOR s0 r\<rparr>;
          r = r\<lparr>s3 := s3 r XOR s1 r\<rparr>;
          r = r\<lparr>s1 := s1 r XOR s2 r\<rparr>;
          r = r\<lparr>s0 := s0 r XOR s3 r\<rparr>;
          r = r\<lparr>s2 := s2 r XOR t\<rparr>;
          r = r\<lparr>s3 := word_rotl 45 (s3 r)\<rparr>
      in (result, r))"

definition rng_below :: "xoshiro \<Rightarrow> u64 \<Rightarrow> u64 \<times> xoshiro" where
  "rng_below r n =
     (if n = 0 then (0, r)
      else let (v, r') = rng_next_u64 r in (mulhi_bounded v n, r'))"

fun rng_steps :: "nat \<Rightarrow> xoshiro \<Rightarrow> xoshiro" where
  "rng_steps 0 r = r"
| "rng_steps (Suc n) r = rng_steps n (snd (rng_next_u64 r))"

section \<open>Mixing is a permutation\<close>

lemma GOLDEN_unit: "GOLDEN * 0xF1DE83E19937733D = 1"
  by (simp add: GOLDEN_def)

lemma SPLITMIX_M1_unit: "SPLITMIX_M1 * 0x96DE1B173F119089 = 1"
  by (simp add: SPLITMIX_M1_def)

lemma SPLITMIX_M2_unit: "SPLITMIX_M2 * 0x319642B2D24D8EC3 = 1"
  by (simp add: SPLITMIX_M2_def)

lemmas golden_cancel = mult_inverse_inj [OF GOLDEN_unit]
lemmas mix_cancel =
  mult_inverse_inj [OF SPLITMIX_M1_unit] mult_inverse_inj [OF SPLITMIX_M2_unit]

lemma mix_eqD:
  assumes "mix x = mix y"
  shows "x = y"
proof -
  let ?a = "\<lambda>z. (z XOR drop_bit 30 z) * SPLITMIX_M1"
  let ?b = "\<lambda>z. (?a z XOR drop_bit 27 (?a z)) * SPLITMIX_M2"
  have "?b x XOR drop_bit 31 (?b x) = ?b y XOR drop_bit 31 (?b y)"
    using assms by (simp only: mix_def Let_def)
  then have "?b x = ?b y" by (rule xorshift_inj) simp
  then have "?a x XOR drop_bit 27 (?a x) = ?a y XOR drop_bit 27 (?a y)"
    by (rule mix_cancel(2))
  then have "?a x = ?a y" by (rule xorshift_inj) simp
  then have "x XOR drop_bit 30 x = y XOR drop_bit 30 y" by (rule mix_cancel(1))
  then show ?thesis by (rule xorshift_inj) simp
qed

lemma mix_eq_iff [simp]: "mix x = mix y \<longleftrightarrow> x = y"
  by (auto dest: mix_eqD)

lemma sm_draws_eq:
  "sm_draws n r = map (\<lambda>i. mix (sm_state r + word_of_nat (Suc i) * GOLDEN)) [0..<n]"
proof (induction n arbitrary: r)
  case 0
  then show ?case by simp
next
  case (Suc n)
  have "[0..<Suc n] = 0 # map Suc [0..<n]"
    by (simp add: map_Suc_upt upt_conv_Cons del: upt_Suc)
  then show ?case
    by (simp add: sm_next_u64_def Let_def Suc.IH algebra_simps del: upt_Suc)
qed

lemma word_of_nat_inj64:
  assumes "word_of_nat i = (word_of_nat j :: u64)" "i < 2 ^ 64" "j < 2 ^ 64"
  shows "i = j"
proof -
  have "unat (word_of_nat i :: u64) = unat (word_of_nat j :: u64)" using assms(1) by simp
  then show ?thesis using assms(2,3) by (simp add: unat_of_nat)
qed

section \<open>Bounds of the integer draws\<close>

lemma unat_mulhi_bounded [word_to_nat]:
  "unat (mulhi_bounded v n) = unat v * unat n div 2 ^ 64"
proof -
  have "unat v < 2 ^ 64" "unat n < 2 ^ 64"
    using unsigned_less [of v] unsigned_less [of n] by simp_all
  then have "unat v * unat n div 2 ^ 64 < 2 ^ 64"
    by (intro less_mult_imp_div_less mult_strict_mono) auto
  then show ?thesis
    by (simp add: mulhi_bounded_def unsigned_ucast_eq unat_drop_bit unat_mult_widen
        take_bit_nat_eq_self)
qed

lemma mulhi_bounded_less [bound_intro]:
  assumes "n \<noteq> 0"
  shows "mulhi_bounded v n < n"
proof -
  have "unat v < 2 ^ 64" using unsigned_less [of v] by simp
  moreover have "0 < unat n" using assms by (simp add: unat_gt_0)
  ultimately have "unat v * unat n < 2 ^ 64 * unat n" by simp
  then have "unat v * unat n div 2 ^ 64 < unat n"
    by (simp add: less_mult_imp_div_less mult.commute)
  then show ?thesis by (simp add: word_less_nat_alt unat_mulhi_bounded)
qed

lemma unat_sub64: "n \<le> m \<Longrightarrow> unat (m - n) = unat m - unat (n :: u64)"
  by (simp add: unat_sub word_le_nat_alt)

lemma sm_next_below_less [bound_intro]: "n \<noteq> 0 \<Longrightarrow> fst (sm_next_below r n) < n"
  by (simp add: sm_next_below_def sm_next_u64_def Let_def mulhi_bounded_less)

lemma rng_below_less [bound_intro]: "n \<noteq> 0 \<Longrightarrow> fst (rng_below r n) < n"
  by (simp add: rng_below_def rng_next_u64_def Let_def mulhi_bounded_less)

text \<open>
  What a client may rely on from a source of bounded draws: every draw below a non-zero
  bound stays below it. Both generators provide it.
\<close>

locale bounded_source =
  fixes below :: "'s \<Rightarrow> u64 \<Rightarrow> u64 \<times> 's"
  assumes below_less: "n \<noteq> 0 \<Longrightarrow> fst (below r n) < n"
begin

lemma below_index:
  assumes "k < 2 ^ 64 - 1"
  shows "unat (fst (below r (word_of_nat (Suc k)))) \<le> k"
proof -
  have u: "unat (word_of_nat (Suc k) :: u64) = Suc k"
    using assms by (simp add: unat_of_nat del: of_nat_Suc)
  then have "(word_of_nat (Suc k) :: u64) \<noteq> 0" by (metis nat.distinct(1) unsigned_0)
  then have "fst (below r (word_of_nat (Suc k))) < word_of_nat (Suc k)" by (rule below_less)
  then show ?thesis using u by (simp add: word_less_nat_alt)
qed

end

interpretation splitmix_source: bounded_source sm_next_below
  by unfold_locales (rule sm_next_below_less)

interpretation xoshiro_source: bounded_source rng_below
  by unfold_locales (rule rng_below_less)

lemma sm_next_range_bounds [bound_intro]:
  assumes "lo < hi"
  shows "lo \<le> fst (sm_next_range r lo hi) \<and> fst (sm_next_range r lo hi) < hi"
proof -
  let ?d = "mulhi_bounded (mix (sm_state r + GOLDEN)) (ucast (hi - lo))"
  have sub: "unat (hi - lo) = unat hi - unat lo" and pos: "unat lo < unat hi"
    using assms by (simp_all add: unat_sub word_less_nat_alt word_le_nat_alt)
  have "(ucast (hi - lo) :: u64) \<noteq> 0"
  proof
    assume "(ucast (hi - lo) :: u64) = 0"
    then have "unat (ucast (hi - lo) :: u64) = 0" by simp
    with sub pos show False by simp
  qed
  then have lt: "unat ?d < unat (hi - lo)"
    using mulhi_bounded_less [of "ucast (hi - lo)"] by (simp add: word_less_nat_alt)
  then have d: "unat (ucast ?d :: u32) = unat ?d"
    using unat_less_pow(3) [of "hi - lo"]
    by (simp add: unsigned_ucast_eq take_bit_nat_eq_self)
  have "unat (lo + ucast ?d) = unat lo + unat ?d"
    using lt sub pos d unat_less_pow(3) [of hi] by (simp add: unat_word_ariths)
  then show ?thesis
    using lt sub pos assms
    by (simp add: sm_next_range_def sm_next_u64_def Let_def word_less_nat_alt word_le_nat_alt)
qed

lemma u64_in_bounds [bound_intro]:
  assumes "lo < hi"
  shows "lo \<le> u64_in i lo hi \<and> u64_in i lo hi < hi"
proof -
  let ?d = "mulhi_bounded (ident_raw i) (hi - lo)"
  have "hi - lo \<noteq> 0" using assms by auto
  then have lt: "unat ?d < unat (hi - lo)"
    by (simp add: mulhi_bounded_less word_less_nat_alt [symmetric])
  have sub: "unat (hi - lo) = unat hi - unat lo"
    using assms by (intro unat_sub64) simp
  then have "unat (lo + ?d) = unat lo + unat ?d"
    using lt unat_less_pow(4) [of hi] by (simp add: unat_word_ariths)
  then show ?thesis
    using assms lt sub by (simp add: u64_in_def word_less_nat_alt word_le_nat_alt not_le)
qed

lemma mix_to_range_less [bound_intro]:
  assumes "bound \<noteq> 0"
  shows "mix_to_range seed salt bound < bound"
proof -
  let ?m = "drop_bit 32 (seed * GOLDEN + salt * SPLITMIX_M1)"
  have m: "unat ?m < 2 ^ 32"
    using unat_less_pow(4) [of "seed * GOLDEN + salt * SPLITMIX_M1"]
    by (simp add: unat_drop_bit less_mult_imp_div_less)
  moreover have pos: "0 < unat bound" using assms by (simp add: unat_gt_0)
  ultimately have "unat ?m * unat bound < 2 ^ 32 * unat bound" by simp
  then have lt: "unat ?m * unat bound div 2 ^ 32 < unat bound"
    by (simp add: less_mult_imp_div_less mult.commute)
  then have "unat ?m * unat bound div 2 ^ 32 < 2 ^ 64"
    using unat_less_pow(4) [of bound] by simp
  moreover have "unat (mix_to_range seed salt bound)
      = take_bit 64 (unat ?m * unat bound div 2 ^ 32)"
    using assms by (simp only: mix_to_range_def Let_def unsigned_ucast_eq unat_drop_bit
        unat_mult_widen if_False) simp
  ultimately have "unat (mix_to_range seed salt bound) = unat ?m * unat bound div 2 ^ 32"
    by (simp only: take_bit_nat_eq_self)
  with lt show ?thesis by (simp only: word_less_nat_alt)
qed

section \<open>The xoshiro256** state\<close>

lemma rng_new_nonzero: "\<not> rng_zero (rng_new seed)"
  by (simp add: rng_new_def rng_zero_def Let_def split: prod.split)

lemma rng_next_state:
  "snd (rng_next_u64 r) =
     r\<lparr>s0 := s0 r XOR (s3 r XOR s1 r), s1 := s1 r XOR (s2 r XOR s0 r),
       s2 := (s2 r XOR s0 r) XOR push_bit 17 (s1 r), s3 := word_rotl 45 (s3 r XOR s1 r)\<rparr>"
  by (simp add: rng_next_u64_def Let_def)

lemma word_rotl_eq_iff [simp]: "word_rotl n x = word_rotl n y \<longleftrightarrow> x = (y :: 'a::len word)"
  by (metis word_rot_lr)

lemma xoshiro_pair_inj:
  fixes x y u v :: u64
  assumes "x XOR y = u XOR v" and "y XOR push_bit 17 x = v XOR push_bit 17 u"
  shows "x = u"
proof -
  have "x XOR u = y XOR v" using assms(1) by (simp only: xor_exchange)
  also have "\<dots> = push_bit 17 x XOR push_bit 17 u" using assms(2) by (simp only: xor_exchange)
  also have "\<dots> = push_bit 17 (x XOR u)" by (simp only: push_bit_xor)
  finally have "x XOR u = 0" by (rule push_bit_fixpoint) simp
  then show ?thesis by (simp only: xor_eq_zero_iff)
qed

lemma rng_next_inj:
  assumes "snd (rng_next_u64 r) = snd (rng_next_u64 q)"
  shows "r = (q :: xoshiro)"
proof -
  let ?P = "\<lambda>f. f (snd (rng_next_u64 r)) = f (snd (rng_next_u64 q))"
  have P: "?P s0" "?P s1" "?P s2" "?P s3" using assms by simp_all
  from P(4) have c: "s3 r XOR s1 r = s3 q XOR s1 q" by (simp add: rng_next_state)
  with P(1) have e0: "s0 r = s0 q" by (simp add: rng_next_state)
  with P(2) have e12: "s1 r XOR s2 r = s1 q XOR s2 q"
    by (simp add: rng_next_state xor.assoc [symmetric])
  from P(3) have "(s2 r XOR push_bit 17 (s1 r)) XOR s0 r = (s2 q XOR push_bit 17 (s1 q)) XOR s0 q"
    by (simp add: rng_next_state xor.assoc xor.commute)
  with e0 have "s2 r XOR push_bit 17 (s1 r) = s2 q XOR push_bit 17 (s1 q)" by simp
  with e12 have e1: "s1 r = s1 q" by (rule xoshiro_pair_inj)
  with e12 have "s2 r = s2 q" by simp
  moreover from c e1 have "s3 r = s3 q" by simp
  ultimately show ?thesis using e0 e1 by simp
qed

lemma rng_next_nonzero [kept]:
  assumes "\<not> rng_zero r"
  shows "\<not> rng_zero (snd (rng_next_u64 r))"
proof
  let ?z = "\<lparr>s0 = 0, s1 = 0, s2 = 0, s3 = 0\<rparr> :: xoshiro"
  assume "rng_zero (snd (rng_next_u64 r))"
  moreover have "snd (rng_next_u64 ?z) = ?z" by (simp add: rng_next_state word_rotl_eq_word_rotr)
  ultimately have "snd (rng_next_u64 r) = snd (rng_next_u64 ?z)"
    by (simp add: rng_zero_def)
  then have "r = ?z" by (rule rng_next_inj)
  with assms show False by (simp add: rng_zero_def)
qed

lemma rng_steps_nonzero [kept]: "\<not> rng_zero r \<Longrightarrow> \<not> rng_zero (rng_steps n r)"
  by (induction n arbitrary: r) (simp_all add: rng_next_nonzero)

lemma distinct_map_unatD: "distinct (map (unat \<circ> f) xs) \<Longrightarrow> distinct (map f xs)"
  by (metis distinct_map list.map_comp)

lemma seeds_unat_distinct: "distinct (map (unat \<circ> snd) (butlast seeds))"
  by (simp add: seeds_def)

section \<open>Properties\<close>

text \<open>
  The SplitMix64 stream does not repeat: whatever the seed, any \<open>2 ^ 64\<close> consecutive
  draws of \<open>next_u64\<close> are pairwise different.
\<close>

lemma sm_stream_distinct:
  assumes "n \<le> 2 ^ 64"
  shows "distinct (sm_draws n r)"
proof -
  have "i = j" if "i < n" "j < n"
    and eq: "mix (sm_state r + word_of_nat (Suc i) * GOLDEN)
      = mix (sm_state r + word_of_nat (Suc j) * GOLDEN)" for i j
  proof -
    from eq have "(word_of_nat (Suc i) :: u64) * GOLDEN = word_of_nat (Suc j) * GOLDEN"
      by (simp del: of_nat_Suc)
    then have "(word_of_nat (Suc i) :: u64) = word_of_nat (Suc j)" by (rule golden_cancel)
    then have "(word_of_nat i :: u64) = word_of_nat j" by simp
    then show ?thesis using that assms by (intro word_of_nat_inj64) auto
  qed
  then show ?thesis
    by (auto simp: sm_draws_eq distinct_map inj_on_def simp del: of_nat_Suc)
qed

lemma sm_stream_distinct_example: "(3::nat) \<le> 2 ^ 64 \<and> distinct (sm_draws 3 (sm_new 7))"
  using sm_stream_distinct [of 3 "sm_new 7"] by simp

text \<open>
  The all-zero state, which would make xoshiro256** return zero for ever, is never
  reached: not by \<open>Rng::new\<close> for any seed and not by any number of steps from it.
\<close>

lemma rng_never_zero: "\<not> rng_zero (rng_steps n (rng_new seed))"
  by (rule rng_steps_nonzero) (rule rng_new_nonzero)

text \<open>
  Every bounded draw stays in its interval and none of the additions wraps:
  \<open>next_range\<close> and \<open>u64_in\<close> in \<open>lo..hi\<close>, \<open>next_below\<close>, \<open>below\<close> and
  \<open>mix_to_range\<close> under their bound.
\<close>

lemma bounded_draws:
  assumes "lo < hi" and "lo' < hi'" and "n \<noteq> 0"
  shows "lo \<le> fst (sm_next_range r lo hi) \<and> fst (sm_next_range r lo hi) < hi
    \<and> lo' \<le> u64_in i lo' hi' \<and> u64_in i lo' hi' < hi'
    \<and> fst (sm_next_below r n) < n \<and> fst (rng_below q n) < n
    \<and> mix_to_range seed salt n < n"
  using sm_next_range_bounds [OF assms(1)] u64_in_bounds [OF assms(2)]
    splitmix_source.below_less [OF assms(3)] xoshiro_source.below_less [OF assms(3)]
    mix_to_range_less [OF assms(3)] by blast

lemma bounded_draws_example:
  "(10 :: u32) \<le> fst (sm_next_range (sm_new 1) 10 20) \<and> fst (sm_next_below (sm_new 1) 6) < 6"
  using bounded_draws [of "10 :: u32" 20 "3 :: u64" 4 6 "sm_new 1"] by simp

text \<open>
  Identities derived from one seed with different salts are different, and the salts of
  the module \<open>seeds\<close> are pairwise different but for one pair that coincides.
\<close>

lemma salts_separate:
  "(ident seed a = ident seed b \<longleftrightarrow> a = b)
   \<and> (''SALT_CRYPTO_RESEED'', 0x0C0D0E0F08090A0B) \<in> set seeds
   \<and> (''SALT_PERSONA'', 0x0C0D0E0F08090A0B) \<in> set seeds
   \<and> distinct (map snd (butlast seeds))"
proof (intro conjI)
  show "ident seed a = ident seed b \<longleftrightarrow> a = b"
    using golden_cancel [of a b] by (auto simp only: ident_def ident_at.simps identity.inject xor_cancel)
  show "(''SALT_CRYPTO_RESEED'', 0x0C0D0E0F08090A0B) \<in> set seeds"
    by (simp add: seeds_def)
  show "(''SALT_PERSONA'', 0x0C0D0E0F08090A0B) \<in> set seeds"
    by (simp add: seeds_def)
  show "distinct (map snd (butlast seeds))"
    by (rule distinct_map_unatD) (rule seeds_unat_distinct)
qed

end
