(* ===== verification/Math_Util.thy ===== *)
theory Math_Util
  imports Rng "HOL-Library.Multiset"
begin

text \<open>
  The arithmetic helpers of \<open>crates/core-utils/src/math.rs\<close>: decimal printing with a
  reciprocal multiplication in place of the division by ten, the fast hash, the reciprocal
  divider used by the Argon2 lane index, id counters, UTF-8 boundary search and the
  permutation table of the noise generator. The calendar of the same file is in theory
  \<open>Calendar\<close>.
\<close>

section \<open>Decimal digits\<close>

definition div10_magic :: "u64 \<Rightarrow> u64" where
  "div10_magic n = ucast (drop_bit 67 ((ucast n :: u128) * 0xCCCCCCCCCCCCCCCD))"

lemma div10_magic_nat: "(n * 0xCCCCCCCCCCCCCCCD) div 2 ^ 67 = n div 10" if "n < 2 ^ 64" for n :: nat
proof (rule div_nat_eqI)
  have "10 * (2 ^ 67 * (n div 10)) \<le> 2 ^ 67 * n" by simp
  then show "2 ^ 67 * (n div 10) \<le> n * 0xCCCCCCCCCCCCCCCD" by simp
  have "n < 10 * Suc (n div 10)" by simp
  then have "n + 1 \<le> 10 * Suc (n div 10)" by simp
  then have "2 ^ 67 * (n + 1) \<le> 10 * (2 ^ 67 * Suc (n div 10))" by simp
  with that show "n * 0xCCCCCCCCCCCCCCCD < 2 ^ 67 * Suc (n div 10)" by simp
qed

lemma unat_div10_magic [word_to_nat]: "unat (div10_magic n) = unat n div 10"
proof -
  have n: "unat n < 2 ^ 64" using unat_less_pow(4) [of n] by simp
  have c: "(0xCCCCCCCCCCCCCCCD :: u128) = ucast (0xCCCCCCCCCCCCCCCD :: u64)" by simp
  have "unat ((ucast n :: u128) * 0xCCCCCCCCCCCCCCCD) = unat n * 0xCCCCCCCCCCCCCCCD"
    by (simp only: c unat_mult_widen) simp
  then have "unat (div10_magic n) = take_bit 64 (unat n div 10)"
    using div10_magic_nat [OF n]
    by (simp add: div10_magic_def unsigned_ucast_eq unat_drop_bit)
  also have "\<dots> = unat n div 10" using n by (intro take_bit_nat_eq_self) simp
  finally show ?thesis .
qed

definition digit_char :: "u64 \<Rightarrow> u64 \<Rightarrow> char" where
  "digit_char n q = chr (48 + unat (n - q * 10))"

text \<open>
  The 20-byte buffer is filled from its end; \<open>i\<close> is the write position. A step below position
  0 would be a subtraction overflow, which is \<^const>\<open>None\<close>.
\<close>

function digits_loop :: "u64 \<Rightarrow> nat \<Rightarrow> string \<Rightarrow> (nat \<times> string) option" where
  "digits_loop uv i buf =
     (if i = 0 then None
      else let i = i - 1; q = div10_magic uv; buf = buf[i := digit_char uv q]
           in if q = 0 then Some (i, buf) else digits_loop q i buf)"
  by pat_completeness auto
termination
  by (relation "measure (\<lambda>(uv, i, buf). i)") auto

declare digits_loop.simps [simp del]

definition u64_digits_into :: "u64 \<Rightarrow> string \<Rightarrow> (nat \<times> string) option" where
  "u64_digits_into uv buf = digits_loop uv (length buf) buf"

fun fixed_digits_loop :: "nat \<Rightarrow> u64 \<Rightarrow> string \<Rightarrow> string" where
  "fixed_digits_loop 0 n buf = buf"
| "fixed_digits_loop (Suc i) n buf =
     (let q = div10_magic n in fixed_digits_loop i q (buf[i := digit_char n q]))"

definition u64_digits_fixed_into :: "u64 \<Rightarrow> string \<Rightarrow> nat \<Rightarrow> string" where
  "u64_digits_fixed_into n buf width = fixed_digits_loop width n buf"

definition unsigned_abs :: "int \<Rightarrow> u64" where
  "unsigned_abs v = word_of_int \<bar>v\<bar>"

definition zeros20 :: string where
  "zeros20 = replicate 20 (chr 0)"

definition push_int_into :: "string \<Rightarrow> int \<Rightarrow> string option" where
  "push_int_into out v =
     (case u64_digits_into (unsigned_abs v) zeros20 of
        None \<Rightarrow> None
      | Some (i, buf) \<Rightarrow> Some (out @ (if v < 0 then ''-'' else '''') @ drop i buf))"

definition int_to_compact :: "int \<Rightarrow> string option" where
  "int_to_compact v = push_int_into '''' v"

definition push_int_padded_into :: "string \<Rightarrow> int \<Rightarrow> nat \<Rightarrow> string option" where
  "push_int_padded_into out v width =
     (let mag = (if 10 ^ width < (2 :: nat) ^ 64 then 10 ^ width else 2 ^ 64 - 1);
          a = unsigned_abs v
      in case u64_digits_into a zeros20 of
           None \<Rightarrow> None
         | Some (start, buf) \<Rightarrow>
             let digits = length buf - start
             in Some (out @
                  (if unat a < mag
                   then (if v < 0 then ''-'' else '''') @
                        replicate (width - (digits + (if v < 0 then 1 else 0))) (CHR ''0'')
                   else (if v < 0 then ''-'' else ''+'')) @ drop start buf))"

section \<open>UTF-8 boundaries\<close>

definition is_continuation :: "char \<Rightarrow> bool" where
  "is_continuation c \<longleftrightarrow> 128 \<le> ord c \<and> ord c < 192"

fun boundary_back :: "string \<Rightarrow> nat \<Rightarrow> nat" where
  "boundary_back s 0 = 0"
| "boundary_back s (Suc i) =
     (if is_continuation (s ! Suc i) then boundary_back s i else Suc i)"

definition floor_char_boundary_bytes :: "string \<Rightarrow> nat \<Rightarrow> nat" where
  "floor_char_boundary_bytes s limit =
     (if length s \<le> limit then length s else boundary_back s limit)"

definition floor_char_boundary :: "string \<Rightarrow> nat \<Rightarrow> nat" where
  "floor_char_boundary s limit = floor_char_boundary_bytes s limit"

definition truncate_str :: "string \<Rightarrow> nat \<Rightarrow> string" where
  "truncate_str s cap = take (floor_char_boundary s cap) s"

section \<open>Identifiers and hashing\<close>

definition bump_u32_id :: "u32 \<Rightarrow> u32" where "bump_u32_id n = max (n + 1) 1"
definition bump_u64_id :: "u64 \<Rightarrow> u64" where "bump_u64_id n = max (n + 1) 1"

definition FX_K :: u64 where "FX_K = 0x517CC1B727220A95"

definition fx_add :: "u64 \<Rightarrow> u64 \<Rightarrow> u64" where
  "fx_add h w = (word_rotl 5 h XOR w) * FX_K"

definition le_word :: "bytes \<Rightarrow> u64" where
  "le_word bs = horner_sum ucast 256 bs"

fun fx_write :: "u64 \<Rightarrow> bytes \<Rightarrow> u64" where
  "fx_write h [] = h"
| "fx_write h (b # bs) = fx_write (fx_add h (le_word (take 8 (b # bs)))) (drop 7 bs)"

definition fx_finish :: "u64 \<Rightarrow> u64" where
  "fx_finish h = word_rotl 5 h"

section \<open>Division by a fixed divisor\<close>

record fast_div =
  fd_d :: u64
  fd_m :: u128

definition fast_div_new :: "u64 \<Rightarrow> fast_div option" where
  "fast_div_new d =
     (if d = 0 \<or> \<not> d < 2 ^ 31 then None
      else Some \<lparr>fd_d = d,
                 fd_m = 2 ^ 64 div ucast d + (if (2 ^ 64 :: u128) mod ucast d \<noteq> 0 then 1 else 0)\<rparr>)"

definition fast_div_div :: "fast_div \<Rightarrow> u64 \<Rightarrow> u64" where
  "fast_div_div f n = ucast (drop_bit 64 ((ucast n :: u128) * fd_m f))"

definition fast_div_rem :: "fast_div \<Rightarrow> u64 \<Rightarrow> u64" where
  "fast_div_rem f n = n - fast_div_div f n * fd_d f"

section \<open>The permutation table\<close>

definition swap_at :: "'a list \<Rightarrow> nat \<Rightarrow> nat \<Rightarrow> 'a list" where
  "swap_at xs i j = xs[i := xs ! j, j := xs ! i]"

fun shuffle_down :: "('s \<Rightarrow> u64 \<Rightarrow> u64 \<times> 's) \<Rightarrow> nat \<Rightarrow> 's \<Rightarrow> 'a list \<Rightarrow> 'a list" where
  "shuffle_down below 0 r p = p"
| "shuffle_down below (Suc i) r p =
     (let (j, r') = below r (word_of_nat (Suc (Suc i)))
      in shuffle_down below i r' (swap_at p (Suc i) (unat j)))"

definition perlin_from_seed :: "u64 \<Rightarrow> bytes" where
  "perlin_from_seed seed =
     (let p = shuffle_down sm_next_below 255 (sm_new seed) (map word_of_nat [0..<256])
      in p @ p)"

section \<open>Printing integers\<close>

text \<open>
  The reference: the canonical decimal numeral of a natural number, and the value a numeral
  denotes.
\<close>

fun dec :: "nat \<Rightarrow> string" where
  "dec n = (if n < 10 then [chr (48 + n)] else dec (n div 10) @ [chr (48 + n mod 10)])"

declare dec.simps [simp del]

definition dec_val :: "string \<Rightarrow> nat" where
  "dec_val s = foldl (\<lambda>a c. 10 * a + (ord c - 48)) 0 s"

definition int_text :: "int \<Rightarrow> string" where
  "int_text v = (if v < 0 then ''-'' else '''') @ dec (nat \<bar>v\<bar>)"

definition int_val :: "string \<Rightarrow> int" where
  "int_val s =
     (if s \<noteq> [] \<and> hd s = CHR ''-'' then - int (dec_val (tl s)) else int (dec_val s))"

lemma dec_val_append: "dec_val (s @ [c]) = 10 * dec_val s + (ord c - 48)"
  by (simp add: dec_val_def)

lemma dec_val_dec [simp]: "dec_val (dec n) = n"
proof (induction n rule: dec.induct)
  case (1 n)
  show ?case
  proof (cases "n < 10")
    case True
    then show ?thesis by (subst dec.simps) (simp add: dec_val_def)
  next
    case False
    then show ?thesis using 1 by (subst dec.simps) (simp add: dec_val_append)
  qed
qed

lemma dec_not_Nil [simp]: "dec n \<noteq> []"
  by (subst dec.simps) simp

lemma dec_digits: "c \<in> set (dec n) \<Longrightarrow> 48 \<le> ord c \<and> ord c < 58"
proof (induction n rule: dec.induct)
  case (1 n)
  have r: "ord (chr (48 + n mod 10)) = 48 + n mod 10" by (rule ord_chr) simp
  show ?case
  proof (cases "n < 10")
    case True
    then have "c = chr (48 + n mod 10)" using 1(2) by (subst (asm) dec.simps) simp
    then show ?thesis by (simp only: r) simp
  next
    case False
    have "c \<in> set (dec (n div 10)) \<or> c = chr (48 + n mod 10)"
      using 1(2) False by (subst (asm) dec.simps) auto
    then show ?thesis
    proof
      assume "c \<in> set (dec (n div 10))"
      then show ?thesis using 1(1) False by blast
    next
      assume c: "c = chr (48 + n mod 10)"
      show ?thesis unfolding c r by simp
    qed
  qed
qed

lemma dec_length: "0 < k \<Longrightarrow> length (dec n) \<le> k \<longleftrightarrow> n < 10 ^ k"
proof (induction n arbitrary: k rule: dec.induct)
  case (1 n)
  show ?case
  proof (cases "n < 10")
    case True
    moreover have "10 \<le> (10 :: nat) ^ k" using 1(2) by (cases k) auto
    ultimately show ?thesis using 1(2) by (subst dec.simps) (auto simp: Suc_le_eq)
  next
    case False
    show ?thesis
    proof (cases "k = 1")
      case True
      have "dec (n div 10) \<noteq> []" by simp
      then have "\<not> length (dec n) \<le> 1" using False by (subst dec.simps) simp
      then show ?thesis using True False by simp
    next
      case k: False
      then obtain j where j: "k = Suc j" "0 < j" using 1(2) by (cases k) auto
      have "length (dec n) \<le> k \<longleftrightarrow> length (dec (n div 10)) \<le> j"
        using False j by (subst dec.simps) simp
      also have "\<dots> \<longleftrightarrow> n div 10 < 10 ^ j" using 1(1) False j by blast
      also have "\<dots> \<longleftrightarrow> n < 10 ^ k" using j by (simp add: div_less_iff_less_mult mult.commute)
      finally show ?thesis .
    qed
  qed
qed

lemma dec_no_leading_zero: "hd (dec n) = CHR ''0'' \<longleftrightarrow> n = 0"
proof (induction n rule: dec.induct)
  case (1 n)
  show ?case
  proof (cases "n < 10")
    case True
    then have h: "hd (dec n) = chr (48 + n)" by (subst dec.simps) simp
    have "ord (chr (48 + n)) = 48 + n" using True by (intro ord_chr) simp
    moreover have "ord (CHR ''0'') = 48" by simp
    ultimately show ?thesis unfolding h ord_eq_iff by simp
  next
    case False
    then have "hd (dec n) = hd (dec (n div 10))" by (subst dec.simps) simp
    then show ?thesis using 1 False by auto
  qed
qed

lemma int_val_text [simp]: "int_val (int_text v) = v"
proof (cases "v < 0")
  case True
  then show ?thesis by (simp add: int_val_def int_text_def)
next
  case False
  have "hd (dec (nat v)) \<in> set (dec (nat v))" by simp
  then have "48 \<le> ord (hd (dec (nat v)))" using dec_digits by blast
  then have "hd (dec (nat v)) \<noteq> CHR ''-''" by auto
  with False show ?thesis by (simp add: int_text_def int_val_def)
qed

lemma unat_last_digit: "unat (n - div10_magic n * 10) = unat n mod 10"
proof -
  have "unat (div10_magic n * 10) = unat n div 10 * 10"
    using unat_less_pow(4) [of n] by (simp add: unat_word_ariths unat_div10_magic)
  then show ?thesis
    by (subst unat_sub64) (simp_all add: word_le_nat_alt minus_div_mult_eq_mod)
qed

lemma digit_char_eq: "digit_char n (div10_magic n) = chr (48 + unat n mod 10)"
  by (simp add: digit_char_def unat_last_digit)

lemma digits_loop_dec:
  "0 < i \<Longrightarrow> i \<le> length buf \<Longrightarrow> unat uv < 10 ^ i \<Longrightarrow>
   \<exists>j b. digits_loop uv i buf = Some (j, b) \<and> j < i \<and> length b = length buf \<and>
         drop j b = dec (unat uv) @ drop i buf"
proof (induction uv i buf rule: digits_loop.induct)
  case (1 uv i buf)
  let ?q = "div10_magic uv" and ?b = "buf[i - 1 := digit_char uv (div10_magic uv)]"
  have d: "drop (i - 1) ?b = chr (48 + unat uv mod 10) # drop i buf"
    using 1(2,3) by (simp add: drop_nth_Cons digit_char_eq)
  have q: "?q = 0 \<longleftrightarrow> unat uv < 10"
    by (simp add: unat_eq_0 [symmetric] unat_div10_magic div_eq_0_iff)
  show ?case
  proof (cases "?q = 0")
    case True
    then have "dec (unat uv) = [chr (48 + unat uv mod 10)]"
      using q by (subst dec.simps) simp
    then show ?thesis using 1(2) d True by (subst digits_loop.simps) (simp add: Let_def)
  next
    case False
    have i1: "0 < i - 1" using False q 1(2,4) by (cases "i = 1") auto
    have lt: "unat ?q < 10 ^ (i - 1)"
      using 1(4) i1 by (cases i) (simp_all add: unat_div10_magic div_less_iff_less_mult mult.commute)
    have "\<exists>j b. digits_loop ?q (i - 1) ?b = Some (j, b) \<and> j < i - 1 \<and> length b = length ?b \<and>
         drop j b = dec (unat ?q) @ drop (i - 1) ?b"
      using 1(1) [OF _ refl refl refl False i1 _ lt] 1(2,3) by simp
    moreover have "dec (unat uv) = dec (unat ?q) @ [chr (48 + unat uv mod 10)]"
      using False q by (subst dec.simps) (simp add: unat_div10_magic)
    ultimately show ?thesis
      using 1(2) d False by (subst digits_loop.simps) (auto simp: Let_def)
  qed
qed

lemma u64_digits_zeros20:
  "\<exists>j b. u64_digits_into v zeros20 = Some (j, b) \<and> length b = 20 \<and> drop j b = dec (unat v)"
proof -
  have "unat v < 10 ^ 20" using unat_less_pow(4) [of v] by simp
  then show ?thesis
    using digits_loop_dec [of 20 zeros20 v] by (auto simp: zeros20_def u64_digits_into_def)
qed

lemma unat_unsigned_abs:
  assumes "- (2 ^ 63) \<le> v" and "v < 2 ^ 63"
  shows "unat (unsigned_abs v) = nat \<bar>v\<bar>"
proof -
  have "\<bar>v\<bar> < 2 ^ 64" using assms by auto
  then show ?thesis by (simp add: unsigned_abs_def unsigned_of_int take_bit_int_eq_self)
qed

lemma push_int_into_text:
  assumes "- (2 ^ 63) \<le> v" and "v < 2 ^ 63"
  shows "push_int_into out v = Some (out @ int_text v)"
  using u64_digits_zeros20 [of "unsigned_abs v"] unat_unsigned_abs [OF assms]
  by (auto simp: push_int_into_def int_text_def)

text \<open>
  C40: \<open>push_int_into\<close> prints every \<open>i64\<close>, the smallest included, as its canonical decimal
  text: the buffer never overflows, reading the text back gives the integer, it is at most
  20 bytes long, and no numeral but \<open>0\<close> starts with a zero.
\<close>

theorem push_int_roundtrip:
  assumes "- (2 ^ 63) \<le> v" and "v < 2 ^ 63"
  shows "\<exists>t. push_int_into out v = Some (out @ t) \<and> int_val t = v \<and> length t \<le> 20 \<and>
             (0 < v \<longrightarrow> hd t \<noteq> CHR ''0'')"
proof (intro exI conjI)
  show "push_int_into out v = Some (out @ int_text v)" by (rule push_int_into_text [OF assms])
  have "nat \<bar>v\<bar> < 10 ^ 19" using assms by auto
  then show "length (int_text v) \<le> 20"
    using dec_length [of 19 "nat \<bar>v\<bar>"] by (auto simp: int_text_def)
  show "0 < v \<longrightarrow> hd (int_text v) \<noteq> CHR ''0''"
    using dec_no_leading_zero [of "nat v"] by (auto simp: int_text_def)
qed simp

theorem push_int_roundtrip_witness:
  "\<exists>t. push_int_into ''x='' (- (2 ^ 63)) = Some (''x='' @ t) \<and> int_val t = - (2 ^ 63) \<and>
       length t \<le> 20 \<and> \<not> (0 :: int) < - (2 ^ 63)"
  using push_int_roundtrip [of "- (2 ^ 63)" "''x=''"] by auto

section \<open>Dividing by a reciprocal\<close>

lemma unat_fd_m:
  assumes "fast_div_new d = Some f"
  shows "unat (fd_m f) = 2 ^ 64 div unat d + (if 2 ^ 64 mod unat d \<noteq> 0 then 1 else 0)"
    and "fd_d f = d" and "0 < unat d"
proof -
  have d: "d \<noteq> 0" "f = \<lparr>fd_d = d,
      fd_m = 2 ^ 64 div ucast d + (if (2 ^ 64 :: u128) mod ucast d \<noteq> 0 then 1 else 0)\<rparr>"
    using assms by (auto simp: fast_div_new_def split: if_splits)
  then show "fd_d f = d" "0 < unat d" by (simp_all add: unat_gt_0)
  have w: "unat (ucast d :: u128) = unat d"
    using unat_less_pow(4) [of d] by (simp add: unsigned_ucast_eq take_bit_nat_eq_self)
  have m: "(2 ^ 64 :: u128) mod ucast d \<noteq> 0 \<longleftrightarrow> 2 ^ 64 mod unat d \<noteq> 0"
    by (simp add: unat_eq_0 [symmetric] unat_mod_distrib w)
  have "2 ^ 64 div unat d \<le> 2 ^ 64" by (rule div_le_dividend)
  then have small: "Suc (2 ^ 64 div unat d) < 2 ^ 128"
    by (rule le_less_trans [OF Suc_le_mono [THEN iffD2]]) simp
 show "unat (fd_m f) = 2 ^ 64 div unat d + (if 2 ^ 64 mod unat d \<noteq> 0 then 1 else 0)"
    unfolding d(2) fast_div.simps m
    using small by (auto simp: unat_word_ariths unat_div_distrib w)
qed

lemma reciprocal_quotient:
  fixes n d :: nat
  assumes "0 < d" and "n * d \<le> k" and "m = k div d + (if k mod d \<noteq> 0 then 1 else 0)" and "0 < k"
  shows "n * m div k = n div d"
proof -
  obtain e where e: "d * m = k + e" "e < d"
  proof (cases "k mod d = 0")
    case True
    then show ?thesis using that [of 0] assms by (auto simp: mod_eq_0_iff_dvd)
  next
    case False
    have "d * m = k + (d - k mod d)"
    proof -
      have "d * m = d * (k div d) + d" using assms(3) False by (simp add: distrib_left)
      then show ?thesis
        using mult_div_mod_eq [of d k] mod_less_divisor [OF assms(1), of k] by linarith
    qed
    moreover have "d - k mod d < d" using False assms(1) by simp
    ultimately show ?thesis by (rule that)
  qed
  have ne: "n * e < k" using assms(1,2,4) e(2)
    by (cases "n = 0") (auto intro: less_le_trans [of _ "n * d"])
  have nm: "d * (n * m) = n * k + n * e" 
    by (metis e(1) add_mult_distrib2 mult.left_commute mult.commute)
  show ?thesis
  proof (rule div_nat_eqI)
    have "d * (n div d) * k \<le> n * k" by simp
    then have "d * (n div d) * k \<le> n * k + n * e" by (rule trans_le_add1)
    then have "d * (k * (n div d)) \<le> d * (n * m)" unfolding nm by (simp only: mult_ac)
    then show "k * (n div d) \<le> n * m" using assms(1) by simp
    have "Suc n \<le> d * Suc (n div d)"
      using assms(1) by (simp add: Suc_leI dividend_less_times_div)
    then have "Suc n * k \<le> d * Suc (n div d) * k" by (rule mult_le_mono1)
    then have "d * (n * m) < d * (k * Suc (n div d))"
      unfolding nm using ne by (simp add: algebra_simps)
    then show "n * m < k * Suc (n div d)" using assms(1) by simp
  qed
qed

text \<open>
  Within the range the Argon2 index stays in (\<open>n * d\<close> at most \<open>2^64\<close>) the reciprocal
  divider is exact: \<open>div\<close> is the quotient and \<open>rem\<close> the remainder.
\<close>

lemma fast_div_exact:
  assumes "fast_div_new d = Some f" and "unat n * unat d \<le> 2 ^ 64"
  shows "fast_div_div f n = n div d \<and> fast_div_rem f n = n mod d"
proof -
  note f = unat_fd_m [OF assms(1)]
  have m: "unat (fd_m f) \<le> 2 ^ 64"
  proof (cases "unat d = 1")
    case False
    then have "2 ^ 64 div unat d < 2 ^ 64" using f(3) by (intro div_less_dividend) auto
    then show ?thesis unfolding f(1) by simp
  qed (simp add: f(1))
  have w: "unat (ucast n :: u128) = unat n"
    using unat_less_pow(4) [of n] by (simp add: unsigned_ucast_eq take_bit_nat_eq_self)
  have "unat n * unat (fd_m f) \<le> unat n * 2 ^ 64" using m by (rule mult_le_mono2)
  also have "\<dots> < 2 ^ 64 * 2 ^ 64" using unat_less_pow(4) [of n] by simp
  finally have "unat n * unat (fd_m f) < 2 ^ 64 * 2 ^ 64" .
  then have p: "unat ((ucast n :: u128) * fd_m f) = unat n * unat (fd_m f)"
    by (simp add: unat_word_ariths w)
  have q: "unat n * unat (fd_m f) div 2 ^ 64 = unat n div unat d"
    using f(3) assms(2) f(1) by (rule reciprocal_quotient) simp
  have "unat n div unat d < 18446744073709551616"
    using unat_less_pow(4) [of n] div_le_dividend [of "unat n" "unat d"] by (rule le_less_trans [rotated])
  then have "unat (fast_div_div f n) = unat (n div d)"
    unfolding fast_div_div_def
    by (simp add: unsigned_ucast_eq unat_drop_bit p q [simplified] take_bit_nat_eq_self unat_div_distrib)
  then have d: "fast_div_div f n = n div d" by (simp only: word_unat_eq_iff)
  then show ?thesis by (simp add: fast_div_rem_def f(2) minus_div_mult_eq_mod)
qed

lemma fast_div_exact_example:
  "\<exists>f. fast_div_new 3 = Some f \<and> fast_div_div f 1000 = 333 \<and> fast_div_rem f 1000 = 1"
  using fast_div_exact [of 3 _ 1000] by (auto simp: fast_div_new_def)

section \<open>Boundaries and shuffles\<close>

text \<open>Rust's \<open>is_char_boundary\<close>: slicing anywhere else panics.\<close>

definition is_char_boundary :: "string \<Rightarrow> nat \<Rightarrow> bool" where
  "is_char_boundary s i \<longleftrightarrow>
     i = 0 \<or> i = length s \<or> (i < length s \<and> \<not> is_continuation (s ! i))"

lemma boundary_back_spec:
  "i < length s \<Longrightarrow>
   boundary_back s i \<le> i \<and> is_char_boundary s (boundary_back s i) \<and>
   (\<forall>j. boundary_back s i < j \<longrightarrow> j \<le> i \<longrightarrow> is_continuation (s ! j))"
proof (induction i)
  case (Suc i)
  then show ?case by (auto simp: is_char_boundary_def le_Suc_eq)
qed (simp add: is_char_boundary_def)

text \<open>
  \<open>floor_char_boundary\<close> returns the last character boundary that is at most the limit, so
  the slice of \<open>truncate_str\<close> cannot panic, keeps at most \<open>cap\<close> bytes and cuts no
  character.
\<close>

lemma truncate_str_boundary:
  "is_char_boundary s (floor_char_boundary s cap) \<and>
   length (truncate_str s cap) = floor_char_boundary s cap \<and> floor_char_boundary s cap \<le> cap \<and>
   \<not> (\<exists>j. floor_char_boundary s cap < j \<and> j \<le> cap \<and> is_char_boundary s j)"
proof (cases "length s \<le> cap")
  case True
  then show ?thesis
    by (auto simp: truncate_str_def floor_char_boundary_def floor_char_boundary_bytes_def
        is_char_boundary_def)
next
  case False
  then show ?thesis using boundary_back_spec [of cap s]
    by (auto simp: truncate_str_def floor_char_boundary_def floor_char_boundary_bytes_def
        is_char_boundary_def)
qed

lemma mset_swap_at [simp]: "i < length p \<Longrightarrow> j < length p \<Longrightarrow> mset (swap_at p i j) = mset p"
  by (simp add: swap_at_def mset_swap)

lemma length_swap_at [simp]: "length (swap_at p i j) = length p"
  by (simp add: swap_at_def)

text \<open>A shuffle permutes, whatever bounded source it draws from.\<close>

context bounded_source begin

lemma shuffle_down_mset:
  "i < length p \<Longrightarrow> i < 2 ^ 64 - 1 \<Longrightarrow> mset (shuffle_down below i r p) = mset p"
proof (induction i arbitrary: r p)
  case (Suc i)
  obtain j r' where j: "below r (word_of_nat (Suc (Suc i))) = (j, r')" by fastforce
  then have "unat j \<le> Suc i" using below_index [OF Suc.prems(2), of r] by (simp del: of_nat_Suc)
  then show ?case using Suc j by (simp del: of_nat_Suc)
qed simp

end

text \<open>
  For every seed the noise table is a permutation of all 256 byte values followed by a
  copy of itself, so an index of two additions stays in the table.
\<close>

lemma perlin_table_permutation:
  "length (perlin_from_seed seed) = 512 \<and>
   mset (take 256 (perlin_from_seed seed)) = mset (map word_of_nat [0..<256]) \<and>
   drop 256 (perlin_from_seed seed) = take 256 (perlin_from_seed seed)"
proof -
  let ?p = "shuffle_down sm_next_below 255 (sm_new seed) (map word_of_nat [0..<256]) :: bytes"
  have m: "mset ?p = mset (map word_of_nat [0..<256])"
    by (rule splitmix_source.shuffle_down_mset) simp_all
  then have "length ?p = 256" by (metis length_map length_upt mset_eq_length diff_zero)
  then show ?thesis using m by (simp add: perlin_from_seed_def Let_def)
qed

end
