(* ===== verification/Calendar.thy ===== *)
theory Calendar
  imports Prelude "HOL-Library.Signed_Division"
begin

text \<open>
  The proleptic Gregorian calendar of \<open>crates/core-utils/src/math.rs\<close>: days since
  1970-01-01 to a civil date and back, weekdays, month lengths and epoch milliseconds. Rust's
  \<open>/\<close> and \<open>%\<close> on signed integers truncate and are written \<open>sdiv\<close> and \<open>smod\<close>;
  where the operands are non-negative by construction the code's division is \<open>div\<close>. Signed
  integers that stay far from their limits are \<^typ>\<open>int\<close>, and the narrowing casts to
  \<open>i32\<close> and \<open>u8\<close> are written out.
\<close>

section \<open>The calendar\<close>

definition days_from_civil :: "int \<Rightarrow> int \<Rightarrow> int \<Rightarrow> int" where
  "days_from_civil y m d =
     (let y2 = y - (if m \<le> 2 then 1 else 0);
          era = (if 0 \<le> y2 then y2 else y2 - 399) sdiv 400;
          yoe = y2 - era * 400;
          mp = (m + 9) mod 12;
          doy = (153 * mp + 2) div 5 + d - 1;
          doe = yoe * 365 + yoe div 4 - yoe div 100 + doy
      in era * 146097 + doe - 719468)"

definition as_i32 :: "int \<Rightarrow> int" where
  "as_i32 v = signed_take_bit 31 v"

definition era_of_days :: "int \<Rightarrow> int" where
  "era_of_days z = (if 0 \<le> z then z else z - 146096) sdiv 146097"

definition yoe_of_doe :: "int \<Rightarrow> int" where
  "yoe_of_doe doe = (doe - doe div 1460 + doe div 36524 - doe div 146096) div 365"

definition year_from_days :: "int \<Rightarrow> int" where
  "year_from_days z0 =
     (let z = z0 + 719468;
          era = era_of_days z;
          doe = z - era * 146097;
          yoe = yoe_of_doe doe;
          y = yoe + era * 400;
          doy = doe - (365 * yoe + yoe div 4 - yoe div 100);
          mp = (5 * doy + 2) div 153;
          m = (if mp < 10 then mp + 3 else mp - 9);
          y = (if m \<le> 2 then y + 1 else y)
      in as_i32 y)"

definition civil_from_days :: "int \<Rightarrow> int \<times> int \<times> int" where
  "civil_from_days z0 =
     (let z = z0 + 719468;
          era = era_of_days z;
          doe = z - era * 146097;
          yoe = yoe_of_doe doe;
          y = yoe + era * 400;
          doy = doe - (365 * yoe + yoe div 4 - yoe div 100);
          mp = (5 * doy + 2) div 153;
          d = (doy - (153 * mp + 2) div 5 + 1) mod 256;
          m = (if mp < 10 then mp + 3 else mp - 9) mod 256;
          y = (if m \<le> 2 then y + 1 else y)
      in (as_i32 y, m, d))"

definition dow_from_days :: "int \<Rightarrow> int" where
  "dow_from_days days = (days + 4) mod 7"

definition days_in_month :: "int \<Rightarrow> int \<Rightarrow> int" where
  "days_in_month y m =
     (if m \<in> {1, 3, 5, 7, 8, 10, 12} then 31
      else if m \<in> {4, 6, 9, 11} then 30
      else if m = 2
        then (if (y smod 4 = 0 \<and> y smod 100 \<noteq> 0) \<or> y smod 400 = 0 then 29 else 28)
      else 30)"

definition MS_SEC :: int where "MS_SEC = 1000"
definition MS_MIN :: int where "MS_MIN = 60000"
definition MS_HOUR :: int where "MS_HOUR = 3600000"
definition MS_DAY :: int where "MS_DAY = 86400000"

definition epoch_ms_from_civil :: "int \<Rightarrow> int \<Rightarrow> int \<Rightarrow> int \<Rightarrow> int \<Rightarrow> int \<Rightarrow> int \<Rightarrow> int" where
  "epoch_ms_from_civil y mo d h mi s ms =
     days_from_civil y mo d * MS_DAY + h * MS_HOUR + mi * MS_MIN + s * MS_SEC + ms"

section \<open>Eras, years and months\<close>

lemma sdiv_floor: 
  assumes "0 < (b::int)" and "c = b - 1"
  shows "(if 0 \<le> z then z else z - c) sdiv b = z div b"
proof (cases "0 \<le> z")
  case True then show ?thesis using assms by (auto simp: signed_divide_int_def sgn_if)
next
  case False
  have "(z - c) sdiv b = - ((b - 1 - z) div b)"
    using assms False by (simp add: signed_divide_int_def sgn_if)
  also have "(b - 1 - z) div b = - (z div b)"
  proof (rule int_div_pos_eq)
    show "b - 1 - z = b * (- (z div b)) + (b - 1 - z mod b)"
      by (simp add: minus_mult_div_eq_mod [symmetric] algebra_simps)
    show "0 \<le> b - 1 - z mod b" using assms pos_mod_bound [of b z] by simp
    show "b - 1 - z mod b < b" using assms pos_mod_sign [of b z] by linarith
  qed
  finally show ?thesis using False by simp
qed

lemma era_floor: "era_of_days z = z div 146097"
  unfolding era_of_days_def by (rule sdiv_floor) simp_all

lemma smod_zero: "0 < b \<Longrightarrow> (y::int) smod b = 0 \<longleftrightarrow> b dvd y"
proof -
  assume b: "0 < b"
  have "y smod b = sgn y * (\<bar>y\<bar> mod b)"
    using b by (auto simp: signed_modulo_int_def signed_divide_int_def sgn_if minus_mult_div_eq_mod [symmetric] algebra_simps)
  then show ?thesis by (auto simp: sgn_if dvd_eq_mod_eq_0 [symmetric])
qed

definition leap :: "int \<Rightarrow> bool" where "leap y \<longleftrightarrow> (4 dvd y \<and> \<not> 100 dvd y) \<or> 400 dvd y"

text \<open>
  A 400-year era splits into centuries \<open>c\<close>, four-year cycles \<open>q\<close>, years \<open>r\<close> that begin
  on 1 March, and days \<open>t\<close>; the last year of a cycle has 366 days unless the cycle closes a
  century that is not the last.
\<close>

definition march_year :: "int \<Rightarrow> int \<Rightarrow> int \<Rightarrow> int \<Rightarrow> bool" where
  "march_year c q r t \<longleftrightarrow> 0 \<le> c \<and> c \<le> 3 \<and> 0 \<le> q \<and> q \<le> 24 \<and> 0 \<le> r \<and> r \<le> 3 \<and> 0 \<le> t \<and>
     t \<le> (if r = 3 \<and> (q \<noteq> 24 \<or> c = 3) then 365 else 364)"

lemma yoe_of_march:
  assumes "march_year c q r t" and "doe = 36524 * c + 1461 * q + 365 * r + t"
  shows "yoe_of_doe doe = 100 * c + 4 * q + r" "0 \<le> doe" "doe \<le> 146096"
proof -
  have b: "0 \<le> c" "c \<le> 3" "0 \<le> q" "q \<le> 24" "0 \<le> r" "r \<le> 3" "0 \<le> t" "t \<le> 365"
    "t = 365 \<Longrightarrow> r = 3 \<and> (q \<noteq> 24 \<or> c = 3)"
    using assms(1) by (auto simp: march_year_def split: if_splits)
  define k where "k = (if 24 * c + q + 365 * r + t < 1460 then 0 else 1 :: int)"
  define l where "l = (if 1461 * q + 365 * r + t < 36524 then 0 else 1 :: int)"
  have k: "doe div 1460 = 25 * c + q + k"
    by (rule int_div_pos_eq [where r = "24 * c + q + 365 * r + t - 1460 * k"])
       (use b in \<open>auto simp: k_def assms(2)\<close>)
  have l: "doe div 36524 = c + l"
    by (rule int_div_pos_eq [where r = "1461 * q + 365 * r + t - 36524 * l"])
       (use b in \<open>auto simp: l_def assms(2)\<close>)
  have m: "doe div 146096 = l"
    by (rule int_div_pos_eq [where r = "36524 * c + 1461 * q + 365 * r + t - 146096 * l"])
       (use b in \<open>auto simp: l_def assms(2)\<close>)
  have "t - k < 365" using b by (cases "t = 365") (auto simp: k_def)
  then show "yoe_of_doe doe = 100 * c + 4 * q + r"
    unfolding yoe_of_doe_def k l m
    by (intro int_div_pos_eq [where r = "t - k"]) (use b in \<open>auto simp: k_def assms(2)\<close>)
  show "0 \<le> doe" "doe \<le> 146096" using b assms(2) by linarith+
qed

lemma march_decomp:
  assumes "0 \<le> doe" and "doe \<le> 146096"
  obtains c q r t where "march_year c q r t" and "doe = 36524 * c + 1461 * q + 365 * r + t"
proof -
  define c where "c = (if doe = 146096 then 3 else doe div 36524)"
  define u where "u = doe - 36524 * c"
  have c: "0 \<le> c" "c \<le> 3" "0 \<le> u" "u \<le> 36524" "u = 36524 \<Longrightarrow> c = 3"
    using assms by (auto simp: c_def u_def minus_mult_div_eq_mod)
  define q where "q = u div 1461"
  define v where "v = u mod 1461"
  have q: "u = 1461 * q + v" "0 \<le> q" "q \<le> 24" "0 \<le> v" "v < 1461"
    using c(3,4) by (auto simp: q_def v_def)
  define r where "r = (if v = 1460 then 3 else v div 365)"
  define t where "t = v - 365 * r"
  have "v mod 365 < 365" by simp
  then have r: "0 \<le> r" "r \<le> 3" "v = 365 * r + t" "0 \<le> t" "t \<le> 365" "t = 365 \<Longrightarrow> r = 3 \<and> v = 1460"
    using q(4,5) by (auto simp: r_def t_def minus_mult_div_eq_mod simp del: pos_mod_bound split: if_splits)
  have "t = 365 \<Longrightarrow> q = 24 \<Longrightarrow> c = 3" using r(6) q(1) c(5) by simp
  moreover have "t = 365 \<or> t \<le> 364" using r by linarith
  ultimately have "march_year c q r t" using c(1,2) q(2,3) r(1,2,4,5,6) by (auto simp: march_year_def)
  moreover have "doe = 36524 * c + 1461 * q + 365 * r + t" using q r by (simp add: u_def)
  ultimately show ?thesis by (rule that)
qed

definition valid_date :: "int \<Rightarrow> int \<Rightarrow> int \<Rightarrow> bool" where
  "valid_date y m d \<longleftrightarrow> 1 \<le> m \<and> m \<le> 12 \<and> 1 \<le> d \<and> d \<le> days_in_month y m"

definition month_start :: "int \<Rightarrow> int" where
  "month_start mp = (153 * mp + 2) div 5"

definition month_of_mp :: "int \<Rightarrow> int" where
  "month_of_mp mp = (if mp < 10 then mp + 3 else mp - 9)"

lemma div_bracket:
  fixes a b :: int
  assumes "0 < b"
  shows "b * (a div b) \<le> a" and "a < b * (a div b) + b"
  using pos_mod_sign [OF assms, of a] pos_mod_bound [OF assms, of a] mult_div_mod_eq [of b a] by linarith+

lemma month_start_bracket:
  "5 * month_start mp \<le> 153 * mp + 2" "153 * mp + 2 < 5 * month_start mp + 5"
  unfolding month_start_def by (rule div_bracket, simp)+

lemma month_end_bracket:
  "5 * month_start (mp + 1) \<le> 153 * mp + 155" "153 * mp + 155 < 5 * month_start (mp + 1) + 5"
  using month_start_bracket [of "mp + 1"] by (simp_all add: distrib_left)

lemma month_of_doy:
  assumes "0 \<le> t" and "t \<le> 365" and "mp = (5 * t + 2) div 153"
  shows "0 \<le> mp" "mp \<le> 11" "month_start mp \<le> t" "t < month_start (mp + 1)"
proof -
  note b = div_bracket [of 153 "5 * t + 2", OF zero_less_numeral] month_start_bracket [of mp]
    month_end_bracket [of mp]
  show "0 \<le> mp" "mp \<le> 11" "month_start mp \<le> t" "t < month_start (mp + 1)"
    using assms b by linarith+
qed

lemma doy_of_month:
  assumes "month_start mp \<le> t" and "t < month_start (mp + 1)"
  shows "(5 * t + 2) div 153 = mp"
  using assms month_start_bracket [of mp] month_end_bracket [of mp]
  by (intro int_div_pos_eq [where r = "5 * t + 2 - 153 * mp"]) linarith+

lemma mp_cases:
  fixes mp :: int
  assumes "0 \<le> mp" and "mp \<le> 11"
  shows "mp \<in> {0, 1, 2, 3, 4, 5, 6, 7, 8, 9, 10, 11}"
  using assms by simp presburger

lemma month_lengths:
  "month_start 0 = 0" "month_start 1 = 31" "month_start 2 = 61" "month_start 3 = 92"
  "month_start 4 = 122" "month_start 5 = 153" "month_start 6 = 184" "month_start 7 = 214"
  "month_start 8 = 245" "month_start 9 = 275" "month_start 10 = 306" "month_start 11 = 337"
  "month_start 12 = 367"
  by (simp_all add: month_start_def)

lemma as_i32_id [simp]: "- (2 ^ 31) \<le> v \<Longrightarrow> v < 2 ^ 31 \<Longrightarrow> as_i32 v = v"
  unfolding as_i32_def by (rule signed_take_bit_int_eq_self) simp_all

lemma era_of_march:
  "0 \<le> doe \<Longrightarrow> doe \<le> 146096 \<Longrightarrow> era_of_days (e * 146097 + doe) = e"
  unfolding era_floor by (rule int_div_pos_eq [where r = doe]) simp_all

lemma century_divs:
  assumes "march_year c q r t"
  shows "(100 * c + 4 * q + r) div 4 = 25 * c + q" and "(100 * c + 4 * q + r) div 100 = c"
proof -
  show "(100 * c + 4 * q + r) div 4 = 25 * c + q"
    by (rule int_div_pos_eq [where r = r]) (use assms in \<open>auto simp: march_year_def\<close>)
  show "(100 * c + 4 * q + r) div 100 = c"
    by (rule int_div_pos_eq [where r = "4 * q + r"]) (use assms in \<open>auto simp: march_year_def\<close>)
qed

lemma civil_of_march:
  assumes "march_year c q r t" and "mp = (5 * t + 2) div 153"
    and "z = e * 146097 + (36524 * c + 1461 * q + 365 * r + t) - 719468"
  shows "civil_from_days z =
    (as_i32 (400 * e + 100 * c + 4 * q + r + (if month_of_mp mp \<le> 2 then 1 else 0)),
     month_of_mp mp, t - month_start mp + 1)"
    and "year_from_days z = fst (civil_from_days z)"
proof -
  let ?doe = "36524 * c + 1461 * q + 365 * r + t"
  note y = yoe_of_march [OF assms(1) refl]
  have e: "era_of_days (e * 146097 + ?doe) = e" using y(2,3) by (rule era_of_march)
  have z: "z + 719468 = e * 146097 + ?doe" by (simp add: assms(3))
  have t: "0 \<le> t" "t \<le> 365" using assms(1) by (auto simp: march_year_def split: if_splits)
  have doy: "?doe - (365 * (100 * c + 4 * q + r) + (25 * c + q) - c) = t" by simp
  have mp: "0 \<le> mp" "mp \<le> 11" using month_of_doy [OF t assms(2)] by simp_all
  have m: "month_of_mp mp mod 256 = month_of_mp mp" using mp by (simp add: month_of_mp_def)
  have d: "(t - month_start mp + 1) mod 256 = t - month_start mp + 1"
    using month_of_doy [OF t assms(2)] mp_cases [OF mp] month_lengths by auto
  show c: "civil_from_days z =
    (as_i32 (400 * e + 100 * c + 4 * q + r + (if month_of_mp mp \<le> 2 then 1 else 0)),
     month_of_mp mp, t - month_start mp + 1)"
    unfolding civil_from_days_def Let_def z e add_diff_cancel_left' y(1) century_divs [OF assms(1)] doy
      assms(2) [symmetric] month_of_mp_def [symmetric] month_start_def [symmetric] m d
    by (simp add: algebra_simps)
  show "year_from_days z = fst (civil_from_days z)"
    unfolding c unfolding year_from_days_def Let_def z e add_diff_cancel_left' y(1) century_divs [OF assms(1)] doy
      assms(2) [symmetric] month_of_mp_def [symmetric]
    by (simp add: algebra_simps)
qed

lemma leap_of_march:
  assumes "march_year c q r 0"
  shows "leap (400 * e + 100 * c + 4 * q + r + 1) \<longleftrightarrow> r = 3 \<and> (q \<noteq> 24 \<or> c = 3)"
proof -
  have b: "0 \<le> c" "c \<le> 3" "0 \<le> q" "q \<le> 24" "0 \<le> r" "r \<le> 3"
    using assms by (auto simp: march_year_def)
  have small: "n dvd n * k + x \<longleftrightarrow> x = n" if "1 \<le> x" "x \<le> n" for n k x :: int
    using that zdvd_imp_le [of n x] dvd_add_right_iff [of n "n * k" x] by auto
  have e4: "400 * e + 100 * c + 4 * q + r + 1 = 4 * (100 * e + 25 * c + q) + (r + 1)" by simp
  have 4: "4 dvd 400 * e + 100 * c + 4 * q + r + 1 \<longleftrightarrow> r + 1 = 4"
    unfolding e4 by (rule small) (use b in auto)
  have e100: "400 * e + 100 * c + 4 * q + r + 1 = 100 * (4 * e + c) + (4 * q + r + 1)" by simp
  have 100: "100 dvd 400 * e + 100 * c + 4 * q + r + 1 \<longleftrightarrow> 4 * q + r + 1 = 100"
    unfolding e100 by (rule small) (use b in auto)
  have e400: "400 * e + 100 * c + 4 * q + r + 1 = 400 * e + (100 * c + 4 * q + r + 1)" by simp
  have 400: "400 dvd 400 * e + 100 * c + 4 * q + r + 1 \<longleftrightarrow> 100 * c + 4 * q + r + 1 = 400"
    unfolding e400 by (rule small) (use b in auto)
  have "r + 1 = 4 \<longleftrightarrow> r = 3" "4 * q + r + 1 = 100 \<longleftrightarrow> r = 3 \<and> q = 24"
    "100 * c + 4 * q + r + 1 = 400 \<longleftrightarrow> r = 3 \<and> q = 24 \<and> c = 3"
    using b by linarith+
  then show ?thesis unfolding leap_def 4 100 400 by auto
qed

lemma days_in_february: "days_in_month y 2 = (if leap y then 29 else 28)"
  by (simp add: days_in_month_def leap_def smod_zero)

lemma month_of_mp_mod: "1 \<le> m \<Longrightarrow> m \<le> 12 \<Longrightarrow> month_of_mp ((m + 9) mod 12) = m"
  using mp_cases [of "m - 1"] by (auto simp: month_of_mp_def)

lemma mp_of_month: "0 \<le> mp \<Longrightarrow> mp \<le> 11 \<Longrightarrow> (month_of_mp mp + 9) mod 12 = mp"
  using mp_cases [of mp] by (auto simp: month_of_mp_def)

lemma month_of_mp_range: "0 \<le> mp \<Longrightarrow> mp \<le> 11 \<Longrightarrow> 1 \<le> month_of_mp mp \<and> month_of_mp mp \<le> 12"
  by (simp add: month_of_mp_def)

lemma days_of_march:
  assumes "march_year c q r 0" and "y - (if m \<le> 2 then 1 else 0) = 400 * e + 100 * c + 4 * q + r"
  shows "days_from_civil y m d =
    e * 146097 + (36524 * c + 1461 * q + 365 * r + (month_start ((m + 9) mod 12) + d - 1)) - 719468"
proof -
  have "(if 0 \<le> z then z else z - 399) sdiv 400 = z div 400" for z :: int
    by (rule sdiv_floor) simp_all
  moreover have "(400 * e + 100 * c + 4 * q + r) div 400 = e"
    by (rule int_div_pos_eq [where r = "100 * c + 4 * q + r"])
       (use assms(1) in \<open>auto simp: march_year_def\<close>)
  ultimately have e: "(if 0 \<le> 400 * e + 100 * c + 4 * q + r then 400 * e + 100 * c + 4 * q + r
      else 400 * e + 100 * c + 4 * q + r - 399) sdiv 400 = e" by metis
  have y: "400 * e + 100 * c + 4 * q + r - e * 400 = 100 * c + 4 * q + r" by simp
  show ?thesis
    unfolding days_from_civil_def Let_def assms(2) e y century_divs [OF assms(1)]
      month_start_def [symmetric] by simp
qed

lemma year_decomp:
  fixes y :: int
  obtains e c q r where "march_year c q r 0" and "y = 400 * e + 100 * c + 4 * q + r"
proof -
  define v where "v = y mod 400"
  have v: "0 \<le> v" "v < 400" by (simp_all add: v_def)
  have "march_year (v div 100) (v mod 100 div 4) (v mod 100 mod 4) 0"
  proof -
    have "v div 100 \<le> 3" "v mod 100 div 4 \<le> 24" "v mod 100 mod 4 \<le> 3"
      using v zdiv_mono1 [of v 399 100] zdiv_mono1 [of "v mod 100" 99 4] by simp_all
    then show ?thesis using v by (simp add: march_year_def pos_imp_zdiv_nonneg_iff)
  qed
  moreover have "y = 400 * (y div 400) + 100 * (v div 100) + 4 * (v mod 100 div 4) + v mod 100 mod 4"
    by (simp add: v_def)
  ultimately show ?thesis by (rule that)
qed

lemma month_length:
  assumes "0 \<le> mp" and "mp \<le> 10"
  shows "days_in_month y (month_of_mp mp) = month_start (mp + 1) - month_start mp"
    and "month_start (mp + 1) \<le> 337" and "0 \<le> month_start mp"
proof -
  have "mp = 0 \<or> mp = 1 \<or> mp = 2 \<or> mp = 3 \<or> mp = 4 \<or> mp = 5 \<or> mp = 6 \<or> mp = 7 \<or> mp = 8 \<or> mp = 9 \<or> mp = 10"
    using assms by presburger
  then show "days_in_month y (month_of_mp mp) = month_start (mp + 1) - month_start mp"
    by (elim disjE) (simp_all add: month_of_mp_def days_in_month_def month_lengths)
qed (use assms in \<open>simp_all add: month_start_def\<close>)

lemma day_in_month:
  assumes "march_year c q r 0" and "0 \<le> mp" and "mp \<le> 11"
    and "y - (if month_of_mp mp \<le> 2 then 1 else 0) = 400 * e + 100 * c + 4 * q + r"
  shows "1 \<le> d \<and> d \<le> days_in_month y (month_of_mp mp) \<longleftrightarrow>
    march_year c q r (month_start mp + d - 1) \<and> month_start mp \<le> month_start mp + d - 1 \<and>
    month_start mp + d - 1 < month_start (mp + 1)"
proof (cases "mp = 11")
  case True
  then have "y = 400 * e + 100 * c + 4 * q + r + 1" using assms(4) by (simp add: month_of_mp_def)
  then have "leap y \<longleftrightarrow> r = 3 \<and> (q \<noteq> 24 \<or> c = 3)" using leap_of_march [OF assms(1), of e] by simp
  then show ?thesis using True assms(1)
    by (auto simp: month_of_mp_def days_in_february month_lengths march_year_def)
next
  case False
  then have "mp \<le> 10" using assms(3) by simp
  note l = month_length [OF assms(2) this]
  show ?thesis (is "?l \<longleftrightarrow> ?r")
  proof
    assume ?l
    then have "0 \<le> month_start mp + d - 1 \<and> month_start mp + d - 1 \<le> 364" using l(2,3) l(1) [of y] by linarith
    then have "march_year c q r (month_start mp + d - 1)"
      using assms(1) by (simp add: march_year_def)
    then show ?r using \<open>?l\<close> l(1) [of y] by simp
  next
    assume ?r
    then show ?l using l(1) [of y] by linarith
  qed
qed

text \<open>
  C19: \<open>civil_from_days\<close> inverts \<open>days_from_civil\<close> on every valid date whose year fits an
  \<open>i32\<close>, leap days and centuries included.
\<close>

theorem date_days_date:
  assumes "valid_date y m d" and "- (2 ^ 31) \<le> y" and "y < 2 ^ 31"
  shows "civil_from_days (days_from_civil y m d) = (y, m, d)"
proof -
  define mp where "mp = (m + 9) mod 12"
  have m: "1 \<le> m" "m \<le> 12" "1 \<le> d \<and> d \<le> days_in_month y m"
    using assms(1) by (auto simp: valid_date_def)
  have mp: "0 \<le> mp" "mp \<le> 11" "month_of_mp mp = m"
    using month_of_mp_mod [OF m(1,2)] by (simp_all add: mp_def)
  obtain e c q r where y: "march_year c q r 0"
      "y - (if m \<le> 2 then 1 else 0) = 400 * e + 100 * c + 4 * q + r"
    by (rule year_decomp)
  let ?t = "month_start mp + d - 1"
  have t: "march_year c q r ?t" "month_start mp \<le> ?t" "?t < month_start (mp + 1)"
    using day_in_month [OF y(1) mp(1,2), of y e d] y(2) m(3) mp(3) by simp_all
  note days = days_of_march [OF y, of d, folded mp_def]
  have "mp = (5 * ?t + 2) div 153" using doy_of_month [OF t(2,3)] by simp
  from civil_of_march(1) [OF t(1) this days] show ?thesis
    using y(2) assms(2,3) by (simp add: mp(3) split: if_splits)
qed

theorem date_days_date_witness:
  "valid_date 2000 2 29 \<and> civil_from_days (days_from_civil 2000 2 29) = (2000, 2, 29)"
proof -
  have v: "valid_date 2000 2 29"
    unfolding valid_date_def days_in_february by (simp add: leap_def)
  show ?thesis
    using v date_days_date [OF v] by simp
qed

text \<open>
  Every day number within 700 billion days of the epoch becomes a valid date,
  \<open>days_from_civil\<close> gives the day number back, and \<open>year_from_days\<close> agrees with the year of
  \<open>civil_from_days\<close>.
\<close>

lemma days_date_days:
  assumes "\<bar>z\<bar> \<le> 700000000000" and "civil_from_days z = (y, m, d)"
  shows "valid_date y m d \<and> days_from_civil y m d = z \<and> year_from_days z = y"
proof -
  define e where "e = (z + 719468) div 146097"
  define doe where "doe = (z + 719468) mod 146097"
  have "0 \<le> doe" "doe \<le> 146096" by (simp_all add: doe_def)
  then obtain c q r t where t: "march_year c q r t" "doe = 36524 * c + 1461 * q + 365 * r + t"
    by (rule march_decomp)
  define mp where "mp = (5 * t + 2) div 153"
  have z: "z = e * 146097 + (36524 * c + 1461 * q + 365 * r + t) - 719468"
    unfolding t(2) [symmetric] by (simp add: e_def doe_def)
  have tb: "0 \<le> t" "t \<le> 365" using t(1) by (auto simp: march_year_def split: if_splits)
  note mp = month_of_doy [OF tb mp_def]
  define yy where "yy = 400 * e + 100 * c + 4 * q + r + (if month_of_mp mp \<le> 2 then 1 else 0)"
  have r: "0 \<le> c" "c \<le> 3" "0 \<le> q" "q \<le> 24" "0 \<le> r" "r \<le> 3" "march_year c q r 0"
    using t(1) by (auto simp: march_year_def)
  have "\<bar>e\<bar> \<le> 5000000" using assms(1) z r tb by linarith
  then have "\<bar>yy\<bar> < 2 ^ 31" using r unfolding yy_def by auto
  then have "as_i32 yy = yy" by simp
  note civ = civil_of_march [OF t(1) mp_def z, folded yy_def, unfolded this]
  have ymd: "y = yy" "m = month_of_mp mp" "d = t - month_start mp + 1"
    using civ(1) assms(2) by simp_all
  have y0: "y - (if month_of_mp mp \<le> 2 then 1 else 0) = 400 * e + 100 * c + 4 * q + r"
    by (simp add: ymd yy_def)
  have td: "month_start mp + d - 1 = t" by (simp add: ymd)
  have "1 \<le> d \<and> d \<le> days_in_month y (month_of_mp mp)"
    unfolding day_in_month [OF r(7) mp(1,2) y0] td using t(1) mp(3,4) by simp
  then have "valid_date y m d"
    using month_of_mp_range [OF mp(1,2)] by (simp add: valid_date_def ymd)
  moreover have "days_from_civil y m d = z"
    using days_of_march [OF r(7) y0 [folded ymd(2)], of d] mp_of_month [OF mp(1,2)] td
    by (simp add: z ymd(2))
  moreover have "year_from_days z = y" using civ(2) assms(2) by simp
  ultimately show ?thesis by simp
qed
lemma days_date_days_example:
  "valid_date 1970 1 1 \<and> days_from_civil 1970 1 1 = 0 \<and> year_from_days 0 = 1970"
proof -
  have "civil_from_days 0 = (1970, 1, 1)"
    unfolding civil_from_days_def era_floor by code_simp
  from days_date_days [OF _ this] show ?thesis by simp
qed

end
