(* ===== verification/Text.thy ===== *)
theory Text
  imports Prelude "HOL-Library.Sublist"
begin

text \<open>
  The string operations of Rust's standard library that the source uses, on byte strings:
  ASCII classes and case, searching, splitting and trimming, UTF-8 validity and the lossy
  conversion. Searches of the \<open>memchr\<close> crate are not defined here: functions that call them
  take the search as an argument, and \<open>finds_first\<close> states the documented behaviour (the
  leftmost match) that their properties assume.
\<close>

section \<open>ASCII\<close>

definition is_digit :: "char \<Rightarrow> bool" where
  "is_digit c \<longleftrightarrow> 48 \<le> ord c \<and> ord c \<le> 57"

definition is_upper :: "char \<Rightarrow> bool" where
  "is_upper c \<longleftrightarrow> 65 \<le> ord c \<and> ord c \<le> 90"

definition is_lower :: "char \<Rightarrow> bool" where
  "is_lower c \<longleftrightarrow> 97 \<le> ord c \<and> ord c \<le> 122"

definition is_alpha :: "char \<Rightarrow> bool" where
  "is_alpha c \<longleftrightarrow> is_upper c \<or> is_lower c"

definition is_alnum :: "char \<Rightarrow> bool" where
  "is_alnum c \<longleftrightarrow> is_alpha c \<or> is_digit c"

definition is_hexdigit :: "char \<Rightarrow> bool" where
  "is_hexdigit c \<longleftrightarrow> is_digit c \<or> (65 \<le> ord c \<and> ord c \<le> 70) \<or> (97 \<le> ord c \<and> ord c \<le> 102)"

definition is_ascii_space :: "char \<Rightarrow> bool" where
  "is_ascii_space c \<longleftrightarrow> ord c \<in> {9, 10, 12, 13, 32}"

definition to_lower :: "char \<Rightarrow> char" where
  "to_lower c = (if is_upper c then chr (ord c + 32) else c)"

definition to_upper :: "char \<Rightarrow> char" where
  "to_upper c = (if is_lower c then chr (ord c - 32) else c)"

definition eq_ignore_case :: "string \<Rightarrow> string \<Rightarrow> bool" where
  "eq_ignore_case s t \<longleftrightarrow> map to_lower s = map to_lower t"

lemma ord_to_lower: "ord (to_lower c) = (if is_upper c then ord c + 32 else ord c)"
  by (auto simp: to_lower_def is_upper_def)

lemma to_lower_idem [simp]: "to_lower (to_lower c) = to_lower c"
  by (simp add: ord_eq_iff [of "to_lower (to_lower c)"] ord_to_lower is_upper_def)

lemma is_upper_to_lower [simp]: "\<not> is_upper (to_lower c)"
  by (simp add: is_upper_def ord_to_lower)

lemma eq_ignore_case_refl [simp]: "eq_ignore_case s s"
  by (simp add: eq_ignore_case_def)

lemma eq_ignore_case_length: "eq_ignore_case s t \<Longrightarrow> length s = length t"
  unfolding eq_ignore_case_def by (metis length_map)

section \<open>Searching\<close>

definition occurs_at :: "string \<Rightarrow> string \<Rightarrow> nat \<Rightarrow> bool" where
  "occurs_at h n i \<longleftrightarrow> i + length n \<le> length h \<and> take (length n) (drop i h) = n"

fun str_find :: "string \<Rightarrow> string \<Rightarrow> nat option" where
  "str_find [] n = (if n = [] then Some 0 else None)"
| "str_find (c # h) n =
     (if prefix n (c # h) then Some 0 else map_option Suc (str_find h n))"

type_synonym finder = "string \<Rightarrow> string \<Rightarrow> nat option"

definition finds_first :: "finder \<Rightarrow> bool" where
  "finds_first f \<longleftrightarrow>
     (\<forall>h n. case f h n of
              None \<Rightarrow> (\<forall>i. \<not> occurs_at h n i)
            | Some i \<Rightarrow> occurs_at h n i \<and> (\<forall>j < i. \<not> occurs_at h n j))"

lemma occurs_at_0: "occurs_at h n 0 \<longleftrightarrow> prefix n h"
  unfolding occurs_at_def prefix_def
  by (metis add.left_neutral append_eq_conv_conj drop0 length_append le_add1 append_take_drop_id)

lemma occurs_at_Suc [simp]: "occurs_at (c # h) n (Suc i) \<longleftrightarrow> occurs_at h n i"
  by (simp add: occurs_at_def)

lemma str_find_spec:
  "case str_find h n of
     None \<Rightarrow> (\<forall>i. \<not> occurs_at h n i)
   | Some i \<Rightarrow> occurs_at h n i \<and> (\<forall>j < i. \<not> occurs_at h n j)"
proof (induction h)
  case Nil
  show ?case by (auto simp: occurs_at_def)
next
  case (Cons c h)
  show ?case
  proof (cases "prefix n (c # h)")
    case True
    then show ?thesis by (simp add: occurs_at_0)
  next
    case False
    have all: "(\<forall>j. P j) \<longleftrightarrow> P 0 \<and> (\<forall>j. P (Suc j))" for P :: "nat \<Rightarrow> bool"
      by (metis not0_implies_Suc)
    show ?thesis using False Cons.IH
      by (auto simp: occurs_at_0 all [of "\<lambda>j. \<not> occurs_at _ _ j"] less_Suc_eq_0_disj
          split: option.splits)
  qed
qed

lemma str_find_finds_first: "finds_first str_find"
  using str_find_spec by (auto simp: finds_first_def)

lemma finds_first_unique:
  assumes "finds_first f"
  shows "f = str_find"
proof (intro ext)
  fix h n
  have f: "case f h n of None \<Rightarrow> (\<forall>i. \<not> occurs_at h n i)
      | Some i \<Rightarrow> occurs_at h n i \<and> (\<forall>j < i. \<not> occurs_at h n j)"
    using assms by (simp add: finds_first_def)
  show "f h n = str_find h n"
    using f str_find_spec [of h n] by (auto split: option.splits) (metis linorder_neqE_nat)
qed

lemma str_find_SomeD: "str_find h n = Some i \<Longrightarrow> occurs_at h n i \<and> (\<forall>j < i. \<not> occurs_at h n j)"
  using str_find_spec [of h n] by simp

lemma str_find_NoneD: "str_find h n = None \<Longrightarrow> \<not> occurs_at h n i"
  using str_find_spec [of h n] by simp

lemma str_find_None_iff: "str_find h n = None \<longleftrightarrow> (\<forall>i. \<not> occurs_at h n i)"
  using str_find_spec [of h n] by (auto split: option.splits)

fun byte_find :: "(char \<Rightarrow> bool) \<Rightarrow> string \<Rightarrow> nat option" where
  "byte_find p [] = None"
| "byte_find p (c # s) = (if p c then Some 0 else map_option Suc (byte_find p s))"

lemma byte_find_Some_iff:
  "byte_find p s = Some i \<longleftrightarrow> i < length s \<and> p (s ! i) \<and> (\<forall>j < i. \<not> p (s ! j))"
proof (induction s arbitrary: i)
  case (Cons c s)
  have all: "(\<forall>j < Suc k. P j) \<longleftrightarrow> P 0 \<and> (\<forall>j < k. P (Suc j))" for P k
    by (auto simp: less_Suc_eq_0_disj)
  show ?case using Cons by (cases i) (auto simp: all [of _ "\<lambda>j. \<not> p ((c # s) ! j)"])
qed simp

lemma byte_find_None_iff: "byte_find p s = None \<longleftrightarrow> (\<forall>c \<in> set s. \<not> p c)"
  by (induction s) auto

lemma byte_find_append:
  "(\<forall>c \<in> set a. \<not> p c) \<Longrightarrow> p d \<Longrightarrow> byte_find p (a @ d # b) = Some (length a)"
  by (induction a) auto

definition byte_rfind :: "(char \<Rightarrow> bool) \<Rightarrow> string \<Rightarrow> nat option" where
  "byte_rfind p s = map_option (\<lambda>i. length s - 1 - i) (byte_find p (rev s))"

section \<open>Splitting and trimming\<close>

definition strip_prefix :: "string \<Rightarrow> string \<Rightarrow> string option" where
  "strip_prefix p s = (if prefix p s then Some (drop (length p) s) else None)"

definition strip_suffix :: "string \<Rightarrow> string \<Rightarrow> string option" where
  "strip_suffix p s = (if suffix p s then Some (take (length s - length p) s) else None)"

definition split_once :: "char \<Rightarrow> string \<Rightarrow> (string \<times> string) option" where
  "split_once c s = (case byte_find ((=) c) s of
     None \<Rightarrow> None | Some i \<Rightarrow> Some (take i s, drop (Suc i) s))"

definition rsplit_once :: "char \<Rightarrow> string \<Rightarrow> (string \<times> string) option" where
  "rsplit_once c s = (case byte_rfind ((=) c) s of
     None \<Rightarrow> None | Some i \<Rightarrow> Some (take i s, drop (Suc i) s))"

fun split_on :: "(char \<Rightarrow> bool) \<Rightarrow> string \<Rightarrow> string list" where
  "split_on p [] = [[]]"
| "split_on p (c # s) =
     (if p c then [] # split_on p s
      else case split_on p s of [] \<Rightarrow> [[c]] | w # ws \<Rightarrow> (c # w) # ws)"

definition trim_by :: "(char \<Rightarrow> bool) \<Rightarrow> string \<Rightarrow> string" where
  "trim_by p s = rev (dropWhile p (rev (dropWhile p s)))"

lemma split_once_Some:
  "split_once c s = Some (a, b) \<longleftrightarrow> s = a @ c # b \<and> c \<notin> set a"
proof
  assume "split_once c s = Some (a, b)"
  then obtain i where i: "byte_find ((=) c) s = Some i" "a = take i s" "b = drop (Suc i) s"
    by (auto simp: split_once_def split: option.splits)
  then have "i < length s" "s ! i = c" "\<forall>j < i. s ! j \<noteq> c"
    by (auto simp: byte_find_Some_iff)
  then show "s = a @ c # b \<and> c \<notin> set a"
    using i(2,3) id_take_nth_drop [of i s] by (auto simp: in_set_conv_nth)
next
  assume "s = a @ c # b \<and> c \<notin> set a"
  moreover from this have "byte_find ((=) c) s = Some (length a)"
    using byte_find_append [of a "(=) c" c b] by auto
  ultimately show "split_once c s = Some (a, b)" by (simp add: split_once_def)
qed

lemma split_once_None: "split_once c s = None \<longleftrightarrow> c \<notin> set s"
  using byte_find_None_iff [of "(=) c" s] by (auto simp: split_once_def split: option.splits)

lemma strip_prefix_Some: "strip_prefix p s = Some t \<longleftrightarrow> s = p @ t"
  by (auto simp: strip_prefix_def prefix_def)

lemma trim_by_id: "(s \<noteq> [] \<Longrightarrow> \<not> p (hd s) \<and> \<not> p (last s)) \<Longrightarrow> trim_by p s = s"
proof (cases "s = []")
  case False
  assume "s \<noteq> [] \<Longrightarrow> \<not> p (hd s) \<and> \<not> p (last s)"
  then have h: "\<not> p (hd s)" "\<not> p (hd (rev s))" using False by (auto simp: hd_rev)
  then have "dropWhile p s = s" "dropWhile p (rev s) = rev s"
    using False by (metis dropWhile_eq_self_iff, metis dropWhile_eq_self_iff)
  then show ?thesis by (simp add: trim_by_def)
qed (simp add: trim_by_def)

section \<open>UTF-8\<close>

definition is_cont :: "char \<Rightarrow> bool" where
  "is_cont c \<longleftrightarrow> 128 \<le> ord c \<and> ord c < 192"

text \<open>
  The first character of a non-empty byte string: whether it is well-formed, and the number of
  bytes it takes, or of the maximal ill-formed prefix that one replacement character stands
  for.
\<close>

definition second_ok :: "nat \<Rightarrow> char \<Rightarrow> bool" where
  "second_ok b c \<longleftrightarrow>
     (if b = 224 then 160 \<le> ord c \<and> ord c < 192
      else if b = 237 then 128 \<le> ord c \<and> ord c < 160
      else if b = 240 then 144 \<le> ord c \<and> ord c < 192
      else if b = 244 then 128 \<le> ord c \<and> ord c < 144
      else is_cont c)"

definition utf8_head :: "char \<Rightarrow> string \<Rightarrow> bool \<times> nat" where
  "utf8_head c s =
     (let b = ord c; at = (\<lambda>i. i < length s \<and> is_cont (s ! i))
      in if b < 128 then (True, 1)
         else if 194 \<le> b \<and> b < 224 then (if at 0 then (True, 2) else (False, 1))
         else if 224 \<le> b \<and> b < 240
           then (if \<not> (0 < length s \<and> second_ok b (s ! 0)) then (False, 1)
                 else if at 1 then (True, 3) else (False, 2))
         else if 240 \<le> b \<and> b < 245
           then (if \<not> (0 < length s \<and> second_ok b (s ! 0)) then (False, 1)
                 else if \<not> at 1 then (False, 2)
                 else if at 2 then (True, 4) else (False, 3))
         else (False, 1))"

function from_utf8_lossy :: "string \<Rightarrow> string" where
  "from_utf8_lossy [] = []"
| "from_utf8_lossy (c # s) =
     (case utf8_head c s of (ok, n) \<Rightarrow>
        (if ok then take n (c # s) else map chr [239, 191, 189]) @ from_utf8_lossy (drop (n - 1) s))"
  by pat_completeness auto
termination by (relation "measure length") auto

function valid_utf8 :: "string \<Rightarrow> bool" where
  "valid_utf8 [] \<longleftrightarrow> True"
| "valid_utf8 (c # s) \<longleftrightarrow>
     (case utf8_head c s of (ok, n) \<Rightarrow> ok \<and> valid_utf8 (drop (n - 1) s))"
  by pat_completeness auto
termination by (relation "measure length") auto

lemma utf8_head_pos: "utf8_head c s = (ok, n) \<Longrightarrow> 0 < n"
  by (auto simp: utf8_head_def Let_def split: if_splits)

lemma lossy_valid [simp]: "valid_utf8 s \<Longrightarrow> from_utf8_lossy s = s"
proof (induction s rule: valid_utf8.induct)
  case (2 c s)
  obtain ok n where n: "utf8_head c s = (ok, n)" by fastforce
  then obtain k where "n = Suc k" using utf8_head_pos by (cases n) auto
  then show ?case using 2 n by (simp add: append_take_drop_id)
qed simp

lemma valid_utf8_ascii: "(\<forall>c \<in> set s. ord c < 128) \<Longrightarrow> valid_utf8 s"
  by (induction s) (auto simp: utf8_head_def)

end
