(* ===== verification/Encoding.thy ===== *)
theory Encoding
  imports Text
begin

text \<open>
  The byte-string helpers of \<open>crates/core-utils/src/encoding.rs\<close>: field extraction from
  JSON-like text, hexadecimal, percent and form encoding, case-insensitive search, LEB128
  integers and the size checks around Base64. The \<open>memchr\<close> crate's searches and the Base64
  codec are arguments. A function whose indexing can panic returns an option, \<^const>\<open>None\<close>
  being the panic.
\<close>

section \<open>Fields of JSON-like text\<close>

function quoted_end :: "string \<Rightarrow> nat \<Rightarrow> nat option" where
  "quoted_end s i =
     (if length s \<le> i then None
      else if s ! i = CHR 0x5C then quoted_end s (i + 2)
      else if s ! i = CHR 0x22 then Some i
      else quoted_end s (i + 1))"
  by pat_completeness auto
termination by (relation "measure (\<lambda>(s, i). length s - i)") auto

definition find_quoted :: "finder \<Rightarrow> string \<Rightarrow> string \<Rightarrow> string option" where
  "find_quoted mm s key =
     (case mm s key of
        None \<Rightarrow> None
      | Some rel \<Rightarrow>
          let start = rel + length key
          in if length s \<le> start then None
             else case quoted_end s start of
                    None \<Rightarrow> None
                  | Some i \<Rightarrow> if start < i then Some (take (i - start) (drop start s)) else None)"

function digit_run :: "string \<Rightarrow> nat \<Rightarrow> nat \<Rightarrow> nat \<Rightarrow> nat \<times> nat" where
  "digit_run s i val digits =
     (if i < length s \<and> is_digit (s ! i) \<and> digits < 8
      then digit_run s (i + 1) (val * 10 + (ord (s ! i) - 48)) (digits + 1)
      else (val, digits))"
  by pat_completeness auto
termination by (relation "measure (\<lambda>(s, i, _, _). length s - i)") auto

text \<open>\<open>self[from..]\<close> panics when \<open>from\<close> is past the end, which only an empty key reaches.\<close>

function find_u32_from :: "finder \<Rightarrow> string \<Rightarrow> string \<Rightarrow> nat \<Rightarrow> nat option option" where
  "find_u32_from mm s key from =
     (if length s < from then None
      else case mm (drop from s) key of
             None \<Rightarrow> Some None
           | Some rel \<Rightarrow>
               (case digit_run s (from + rel + length key) 0 0 of (val, digits) \<Rightarrow>
                  if 0 < digits then Some (Some val)
                  else find_u32_from mm s key (from + rel + 1)))"
  by pat_completeness auto
termination by (relation "measure (\<lambda>(_, s, _, from). Suc (length s) - from)") auto

definition find_u32 :: "finder \<Rightarrow> string \<Rightarrow> string \<Rightarrow> nat option option" where
  "find_u32 mm s key = find_u32_from mm s key 0"

function token_end :: "string \<Rightarrow> char \<Rightarrow> nat \<Rightarrow> nat \<Rightarrow> nat \<Rightarrow> nat" where
  "token_end s stop max_len start i =
     (if i < length s \<and> s ! i \<noteq> stop \<and> i - start < max_len
      then token_end s stop max_len start (i + 1) else i)"
  by pat_completeness auto
termination by (relation "measure (\<lambda>(s, _, _, _, i). length s - i)") auto

definition find_token :: "finder \<Rightarrow> string \<Rightarrow> string \<Rightarrow> char \<Rightarrow> nat \<Rightarrow> string option" where
  "find_token mm s key stop max_len =
     (case mm s key of
        None \<Rightarrow> None
      | Some pos \<Rightarrow>
          let start = pos + length key; i = token_end s stop max_len start start
          in if start < i \<and> i \<le> length s then Some (take (i - start) (drop start s)) else None)"

declare quoted_end.simps [simp del] digit_run.simps [simp del] find_u32_from.simps [simp del]
  token_end.simps [simp del]

section \<open>Case and trimming\<close>

definition ascii_lower_byte :: "char \<Rightarrow> char" where
  "ascii_lower_byte b = chr (ord b + 32 * (if is_upper b then 1 else 0))"

definition ascii_upper_byte :: "char \<Rightarrow> char" where
  "ascii_upper_byte b = chr (ord b - 32 * (if is_lower b then 1 else 0))"

definition push_ascii_case_into :: "string \<Rightarrow> string \<Rightarrow> bool \<Rightarrow> string" where
  "push_ascii_case_into out s upper =
     out @ map (\<lambda>b. chr (ord b XOR
       (if upper then (if is_lower b then 32 else 0) else (if is_upper b then 32 else 0)))) s"

definition ascii_upper_compact :: "string \<Rightarrow> string" where
  "ascii_upper_compact s = push_ascii_case_into [] s True"

definition ascii_lower_compact :: "string \<Rightarrow> string" where
  "ascii_lower_compact s = push_ascii_case_into [] s False"

definition is_junk :: "string \<Rightarrow> char \<Rightarrow> bool" where
  "is_junk extra b \<longleftrightarrow> ord b \<in> {32, 9, 10, 13, 11, 12} \<or> b \<in> set extra"

function trim_start_at :: "(char \<Rightarrow> bool) \<Rightarrow> string \<Rightarrow> nat \<Rightarrow> nat \<Rightarrow> nat" where
  "trim_start_at p s start e =
     (if start < e \<and> p (s ! start) then trim_start_at p s (start + 1) e else start)"
  by pat_completeness auto
termination by (relation "measure (\<lambda>(_, _, start, e). e - start)") auto

fun trim_end_at :: "(char \<Rightarrow> bool) \<Rightarrow> string \<Rightarrow> nat \<Rightarrow> nat \<Rightarrow> nat" where
  "trim_end_at p s start 0 = 0"
| "trim_end_at p s start (Suc e) =
     (if start < Suc e \<and> p (s ! e) then trim_end_at p s start e else Suc e)"

declare trim_start_at.simps [simp del]

definition trim_ascii_extra :: "string \<Rightarrow> string \<Rightarrow> string" where
  "trim_ascii_extra s extra =
     (let start = trim_start_at (is_junk extra) s 0 (length s);
          e = trim_end_at (is_junk extra) s start (length s)
      in take (e - start) (drop start s))"

definition eq_ci :: "string \<Rightarrow> string \<Rightarrow> bool" where
  "eq_ci s t \<longleftrightarrow> length s = length t \<and> list_all (\<lambda>(a, b). to_lower a = to_lower b) (zip s t)"

definition starts_with_ci :: "string \<Rightarrow> string \<Rightarrow> bool" where
  "starts_with_ci s p \<longleftrightarrow> length p \<le> length s \<and> eq_ci (take (length p) s) p"

definition ends_with_ci :: "string \<Rightarrow> string \<Rightarrow> bool" where
  "ends_with_ci s p \<longleftrightarrow> length p \<le> length s \<and> eq_ci (drop (length s - length p) s) p"

definition strip_prefix_ci :: "string \<Rightarrow> string \<Rightarrow> string option" where
  "strip_prefix_ci s p = (if starts_with_ci s p then Some (drop (length p) s) else None)"

section \<open>Searching\<close>

type_synonym byte_finder = "char \<Rightarrow> string \<Rightarrow> nat option"

definition finds_byte :: "byte_finder \<Rightarrow> bool" where
  "finds_byte mc \<longleftrightarrow> (\<forall>c s. mc c s = byte_find (\<lambda>d. c = d) s)"

definition finds_byte2 :: "(char \<Rightarrow> char \<Rightarrow> string \<Rightarrow> nat option) \<Rightarrow> bool" where
  "finds_byte2 mc \<longleftrightarrow> (\<forall>c d s. mc c d s = byte_find (\<lambda>e. c = e \<or> d = e) s)"

function contains_word_from :: "byte_finder \<Rightarrow> string \<Rightarrow> string \<Rightarrow> char \<Rightarrow> nat \<Rightarrow> bool" where
  "contains_word_from mc s word first start =
     (if \<not> start + length word \<le> length s then False
      else case mc first (drop start (take (length s - length word + 1) s)) of
             None \<Rightarrow> False
           | Some rel \<Rightarrow>
               let hit = start + rel; e = hit + length word;
                   before_ok = (hit = 0 \<or> s ! (hit - 1) = CHR '' '');
                   after_ok = (e = length s \<or> s ! e = CHR '' '')
               in if before_ok \<and> after_ok \<and> take (length word) (drop hit s) = word then True
                  else contains_word_from mc s word first (hit + 1))"
  by pat_completeness auto
termination by (relation "measure (\<lambda>(_, s, _, _, start). Suc (length s) - start)") auto

definition contains_word :: "byte_finder \<Rightarrow> string \<Rightarrow> string \<Rightarrow> bool" where
  "contains_word mc s word =
     (case word of [] \<Rightarrow> True | first # _ \<Rightarrow> contains_word_from mc s word first 0)"

function contains_ci_from ::
  "(char \<Rightarrow> char \<Rightarrow> string \<Rightarrow> nat option) \<Rightarrow> string \<Rightarrow> string \<Rightarrow> char \<Rightarrow> char \<Rightarrow> nat \<Rightarrow> nat \<Rightarrow> bool" where
  "contains_ci_from mc2 s needle lo up limit start =
     (if \<not> start \<le> limit then False
      else case mc2 lo up (drop start (take (limit + 1) s)) of
             None \<Rightarrow> False
           | Some rel \<Rightarrow>
               let hit = start + rel
               in if eq_ci (take (length needle) (drop hit s)) needle then True
                  else contains_ci_from mc2 s needle lo up limit (hit + 1))"
  by pat_completeness auto
termination by (relation "measure (\<lambda>(_, _, _, _, _, limit, start). Suc limit - start)") auto

definition contains_ci :: "(char \<Rightarrow> char \<Rightarrow> string \<Rightarrow> nat option) \<Rightarrow> string \<Rightarrow> string \<Rightarrow> bool" where
  "contains_ci mc2 s needle =
     (case needle of
        [] \<Rightarrow> True
      | first # _ \<Rightarrow>
          if length s < length needle then False
          else let lo = ascii_lower_byte first; up = ascii_upper_byte first
               in contains_ci_from mc2 s needle lo up (length s - length needle) 0)"

declare contains_word_from.simps [simp del] contains_ci_from.simps [simp del]

section \<open>Binary fields\<close>

text \<open>
  The loop of \<open>leb128\<close> after a first byte with its top bit set: \<open>p\<close> is the next byte to
  read. At most ten bytes are read.
\<close>

function leb128_loop :: "string \<Rightarrow> nat \<Rightarrow> nat \<Rightarrow> u64 \<Rightarrow> (u64 \<times> nat) option" where
  "leb128_loop s p shift val =
     (if length s \<le> p then None
      else let b = ord (s ! p); val = val OR push_bit shift (word_of_nat (b AND 127))
           in if b AND 128 = 0 then Some (val, p + 1)
              else if 63 < shift + 7 then None
              else leb128_loop s (p + 1) (shift + 7) val)"
  by pat_completeness auto
termination by (relation "measure (\<lambda>(s, p, _, _). length s - p)") auto

declare leb128_loop.simps [simp del]

definition leb128 :: "string \<Rightarrow> nat \<Rightarrow> (u64 \<times> nat) option" where
  "leb128 s pos =
     (if length s \<le> pos then None
      else let b0 = ord (s ! pos)
           in if b0 AND 128 = 0 then Some (word_of_nat b0, pos + 1)
              else leb128_loop s (pos + 1) 7 (word_of_nat (b0 AND 127)))"

definition be_u16 :: "string \<Rightarrow> nat \<Rightarrow> u16 option" where
  "be_u16 s o' =
     (if o' + 1 < length s then Some (word_of_nat (ord (s ! o') * 256 + ord (s ! (o' + 1)))) else None)"

definition be_i16 :: "string \<Rightarrow> nat \<Rightarrow> int option" where
  "be_i16 s o' = map_option sint (be_u16 s o')"

definition be_u32 :: "string \<Rightarrow> nat \<Rightarrow> u32 option" where
  "be_u32 s o' =
     (if o' + 3 < length s
      then Some (word_of_nat (((ord (s ! o') * 256 + ord (s ! (o' + 1))) * 256 + ord (s ! (o' + 2))) * 256
                              + ord (s ! (o' + 3))))
      else None)"

section \<open>Hexadecimal\<close>

definition HEX_LOWER :: string where "HEX_LOWER = ''0123456789abcdef''"
definition HEX_UPPER :: string where "HEX_UPPER = ''0123456789ABCDEF''"

definition hex_val :: "char \<Rightarrow> nat" where
  "hex_val c =
     (if is_digit c then ord c - 48
      else if 97 \<le> ord c \<and> ord c \<le> 102 then ord c - 97 + 10
      else if 65 \<le> ord c \<and> ord c \<le> 70 then ord c - 65 + 10
      else 0)"

definition hex_byte :: "string \<Rightarrow> nat \<Rightarrow> nat option" where
  "hex_byte s i =
     (if i + 1 < length s then Some (hex_val (s ! i) * 16 + hex_val (s ! (i + 1))) else None)"

definition hex_nib :: "char \<Rightarrow> bool \<Rightarrow> string \<Rightarrow> char" where
  "hex_nib b low table = table ! (if low then ord b mod 16 else ord b div 16)"

definition hex_pairs :: "string \<Rightarrow> string \<Rightarrow> string" where
  "hex_pairs table src = concat (map (\<lambda>b. [hex_nib b False table, hex_nib b True table]) src)"

definition hex_into :: "string \<Rightarrow> string \<Rightarrow> string \<Rightarrow> string option" where
  "hex_into src out table =
     (if length out < length src * 2 then None
      else Some (hex_pairs table src @ drop (length src * 2) out))"

definition hex_lower_into :: "string \<Rightarrow> string \<Rightarrow> string option" where
  "hex_lower_into src out = hex_into src out HEX_LOWER"

definition hex_compact :: "string \<Rightarrow> bool \<Rightarrow> string" where
  "hex_compact bs upper = hex_pairs (if upper then HEX_UPPER else HEX_LOWER) bs"

text \<open>\<open>hex_grouped\<close> sizes its buffer in a first pass and writes unchecked in a second.\<close>

fun count_seps :: "nat \<Rightarrow> nat \<Rightarrow> nat \<Rightarrow> nat list \<Rightarrow> nat" where
  "count_seps hex_len covered seps [] = seps"
| "count_seps hex_len covered seps (g # gs) =
     (if g = 0 \<or> hex_len \<le> covered then seps
      else count_seps hex_len (min (covered + g) hex_len)
             (if 0 < covered then seps + 1 else seps) gs)"

definition hex_range :: "string \<Rightarrow> string \<Rightarrow> nat \<Rightarrow> nat \<Rightarrow> string" where
  "hex_range table bs lo hi = map (\<lambda>c. hex_nib (bs ! (c div 2)) (c mod 2 = 1) table) [lo..<hi]"

fun write_groups :: "string \<Rightarrow> string \<Rightarrow> string \<Rightarrow> nat \<Rightarrow> bool \<Rightarrow> nat list \<Rightarrow> string \<times> nat" where
  "write_groups table bs sep rest first [] = ([], rest)"
| "write_groups table bs sep rest first (g # gs) =
     (if g = 0 \<or> length bs * 2 \<le> rest then ([], rest)
      else let tk = min g (length bs * 2 - rest);
               (w, r) = write_groups table bs sep (rest + tk) False gs
           in ((if first then [] else sep) @ hex_range table bs rest (rest + tk) @ w, r))"

definition hex_grouped_capacity :: "string \<Rightarrow> string \<Rightarrow> nat list \<Rightarrow> nat" where
  "hex_grouped_capacity bs sep groups =
     length bs * 2 + count_seps (length bs * 2) 0 0 groups * length sep"

definition hex_grouped :: "string \<Rightarrow> bool \<Rightarrow> string \<Rightarrow> nat list \<Rightarrow> string" where
  "hex_grouped bs upper sep groups =
     (let table = (if upper then HEX_UPPER else HEX_LOWER);
          (w, rest) = write_groups table bs sep 0 True groups
      in w @ hex_range table bs rest (length bs * 2))"

section \<open>Percent and form encoding\<close>

definition is_unreserved :: "char \<Rightarrow> bool" where
  "is_unreserved b \<longleftrightarrow> is_alnum b \<or> b \<in> set ''-_.~''"

definition hex_escape :: "char \<Rightarrow> string" where
  "hex_escape b = [CHR ''%'', HEX_UPPER ! (ord b div 16), HEX_UPPER ! (ord b mod 16)]"

definition percent_total :: "string \<Rightarrow> nat" where
  "percent_total src = length src + length (filter (\<lambda>b. \<not> is_unreserved b) src) * 2"

definition percent_encode_into :: "string \<Rightarrow> string \<Rightarrow> string" where
  "percent_encode_into src out =
     out @ concat (map (\<lambda>b. if is_unreserved b then [b] else hex_escape b) src)"

definition percent_encode_compact :: "string \<Rightarrow> string" where
  "percent_encode_compact src = percent_encode_into src []"

definition HEX_NIBBLE :: "char \<Rightarrow> nat" where
  "HEX_NIBBLE c =
     (if 48 \<le> ord c \<and> ord c \<le> 57 then ord c - 48
      else if 97 \<le> ord c \<and> ord c \<le> 102 then ord c - 97 + 10
      else if 65 \<le> ord c \<and> ord c \<le> 70 then ord c + 32 - 97 + 10
      else 255)"

fun percent_decode_bytes :: "bool \<Rightarrow> string \<Rightarrow> string" where
  "percent_decode_bytes ps [] = []"
| "percent_decode_bytes ps (b # s) =
     (if ps \<and> b = CHR ''+'' then CHR '' '' # percent_decode_bytes ps s
      else if b = CHR ''%'' \<and> 2 \<le> length s \<and>
              HEX_NIBBLE (s ! 0) \<noteq> 255 \<and> HEX_NIBBLE (s ! 1) \<noteq> 255
        then chr (HEX_NIBBLE (s ! 0) * 16 + HEX_NIBBLE (s ! 1)) # percent_decode_bytes ps (drop 2 s)
      else b # percent_decode_bytes ps s)"

definition percent_decode :: "string \<Rightarrow> string" where
  "percent_decode src = (if CHR ''%'' \<notin> set src then src else percent_decode_bytes False src)"

definition percent_decode_cow :: "string \<Rightarrow> string" where
  "percent_decode_cow src = (if CHR ''%'' \<notin> set src then src else percent_decode src)"

definition form_urlencoded_encode :: "string \<Rightarrow> string" where
  "form_urlencoded_encode src = concat (map (\<lambda>b.
     if is_alnum b \<or> b \<in> set ''*-._'' then [b]
     else if b = CHR '' '' then ''+''
     else hex_escape b) src)"

definition form_urlencoded_decode :: "string \<Rightarrow> string" where
  "form_urlencoded_decode src =
     (if \<not> list_ex (\<lambda>b. b = CHR ''+'' \<or> b = CHR ''%'') src then src
      else from_utf8_lossy (percent_decode_bytes True src))"

section \<open>Base64 sizes\<close>

datatype b64_error = Malformed | TooLarge nat

definition b64_decode_cap :: "nat \<Rightarrow> nat" where
  "b64_decode_cap n = min (n * 3) (2 ^ 64 - 1) div 4 + 4"

definition b64_encoded_len :: "nat \<Rightarrow> nat" where
  "b64_encoded_len raw_len = (raw_len + 2) div 3 * 4"

text \<open>
  \<open>dec src n\<close> stands for the codec's \<open>decode_slice\<close> into a buffer of \<open>n\<close> bytes and
  \<open>est\<close> for its \<open>decoded_len_estimate\<close>; the second component of the result is \<open>out\<close>
  afterwards.
\<close>

definition b64_field_decode ::
  "(string \<Rightarrow> nat \<Rightarrow> string option) \<Rightarrow> (nat \<Rightarrow> nat) \<Rightarrow> string \<Rightarrow> string \<Rightarrow> nat \<Rightarrow>
   (b64_error + nat) \<times> string" where
  "b64_field_decode dec est s out max_out =
     (let src = trim_ascii_extra s [CHR 0x22, CHR 0x27]; need = b64_decode_cap (length src)
      in if max_out < need then (Inl (TooLarge need), out)
         else let req = est (length src)
              in if max_out < req then (Inl (TooLarge req), [])
                 else case dec src req of
                        None \<Rightarrow> (Inl Malformed, [])
                      | Some bs \<Rightarrow> (Inr (length bs), bs))"

definition b64_encode_into ::
  "(string \<Rightarrow> string option) \<Rightarrow> string \<Rightarrow> string \<Rightarrow> (b64_error + nat) \<times> string" where
  "b64_encode_into enc s out =
     (let cap = b64_encoded_len (length s)
      in if length out < cap then (Inl (TooLarge cap), out)
         else case enc s of
                None \<Rightarrow> (Inl Malformed, out)
              | Some t \<Rightarrow> (Inr (length t), t @ drop (length t) out))"

section \<open>Round trips\<close>

lemma nibble_digit:
  assumes "n < 16"
  shows "HEX_NIBBLE (HEX_UPPER ! n) = n" and "hex_val (HEX_UPPER ! n) = n"
    and "hex_val (HEX_LOWER ! n) = n"
proof -
  have "list_all (\<lambda>n. HEX_NIBBLE (HEX_UPPER ! n) = n \<and> hex_val (HEX_UPPER ! n) = n \<and>
      hex_val (HEX_LOWER ! n) = n) [0..<16]" by code_simp
  then show "HEX_NIBBLE (HEX_UPPER ! n) = n" "hex_val (HEX_UPPER ! n) = n"
    "hex_val (HEX_LOWER ! n) = n" using assms by (auto simp: list_all_iff)
qed

lemma ord_nibbles: "ord b div 16 < 16" "ord b mod 16 < 16"
  using ord_less_256 [of b] by (simp_all add: div_less_iff_less_mult)

lemma decode_escape [simp]:
  "percent_decode_bytes ps (hex_escape b @ s) = b # percent_decode_bytes ps s"
proof -
  have "chr (ord b div 16 * 16 + ord b mod 16) = b" by simp
  moreover have "ord b div 16 \<noteq> 255" "ord b mod 16 \<noteq> 255" using ord_nibbles [of b] by auto
  ultimately show ?thesis
    by (simp add: hex_escape_def nibble_digit(1) [OF ord_nibbles(1)] nibble_digit(1) [OF ord_nibbles(2)]
        del: div_mult_mod_eq)
qed

lemma decode_plain: "b \<noteq> CHR ''%'' \<Longrightarrow> (ps \<Longrightarrow> b \<noteq> CHR ''+'') \<Longrightarrow>
    percent_decode_bytes ps (b # s) = b # percent_decode_bytes ps s"
  by simp

lemma unreserved_plain: "is_unreserved b \<Longrightarrow> b \<noteq> CHR ''%''"
  by (auto simp: is_unreserved_def is_alnum_def is_alpha_def is_upper_def is_lower_def is_digit_def)

lemma decode_no_percent: "CHR ''%'' \<notin> set s \<Longrightarrow> percent_decode_bytes False s = s"
  by (induction s) auto

lemma percent_decode_eq: "percent_decode s = percent_decode_bytes False s"
  by (simp add: percent_decode_def decode_no_percent)

lemma length_hex_escape [simp]: "length (hex_escape b) = 3"
  by (simp add: hex_escape_def)

lemma percent_decode_encode: "percent_decode (percent_encode_compact s) = s"
  unfolding percent_decode_eq percent_encode_compact_def percent_encode_into_def
  by (induction s) (auto simp: unreserved_plain)

text \<open>
  Decoding undoes percent-encoding on every byte string, and the encoder writes exactly
  the number of bytes it reserves before its unchecked writes.
\<close>

lemma percent_roundtrip:
  "percent_decode (percent_encode_compact s) = s \<and>
   length (percent_encode_compact s) = percent_total s"
proof
  show "percent_decode (percent_encode_compact s) = s" by (rule percent_decode_encode)
  show "length (percent_encode_compact s) = percent_total s"
    unfolding percent_total_def percent_encode_compact_def percent_encode_into_def
    by (induction s) auto
qed

lemma form_char_plain:
  "is_alnum b \<or> b \<in> set ''*-._'' \<Longrightarrow> b \<noteq> CHR ''%'' \<and> b \<noteq> CHR ''+''"
  by (auto simp: is_alnum_def is_alpha_def is_upper_def is_lower_def is_digit_def)

lemma decode_form_encode: "percent_decode_bytes True (form_urlencoded_encode s) = s"
  unfolding form_urlencoded_encode_def
proof (induction s)
  case (Cons b s)
  then show ?case using form_char_plain [of b] by (auto simp: is_alnum_def simp del: set_simps)
qed simp

lemma decode_no_special:
  "\<not> list_ex (\<lambda>b. b = CHR ''+'' \<or> b = CHR ''%'') s \<Longrightarrow> percent_decode_bytes True s = s"
  by (induction s) auto

text \<open>
  Decoding undoes \<open>application/x-www-form-urlencoded\<close> encoding on every string (valid
  UTF-8, as every Rust string is), the shortcut for inputs without an escape included.
\<close>

lemma form_roundtrip:
  assumes "valid_utf8 s"
  shows "form_urlencoded_decode (form_urlencoded_encode s) = s"
  using assms decode_form_encode [of s] decode_no_special [of "form_urlencoded_encode s"]
  by (auto simp: form_urlencoded_decode_def)

lemma form_roundtrip_example:
  "form_urlencoded_encode ''a b&c'' = ''a+b%26c'' \<and> form_urlencoded_decode ''a+b%26c'' = ''a b&c''"
proof -
  have e: "form_urlencoded_encode ''a b&c'' = ''a+b%26c''" by code_simp
  have "valid_utf8 ''a b&c''" by (rule valid_utf8_ascii) simp
  from form_roundtrip [OF this] show ?thesis by (simp add: e)
qed

section \<open>Grouped hexadecimal\<close>

lemma hex_range_split: "a \<le> b \<Longrightarrow> b \<le> c \<Longrightarrow> hex_range t bs a b @ hex_range t bs b c = hex_range t bs a c"
  using upt_add_eq_append [of a b "c - b"] by (simp add: hex_range_def)

lemma length_hex_range [simp]: "length (hex_range t bs a b) = b - a"
  by (simp add: hex_range_def)

lemma hex_range_all: "hex_range t bs 0 (length bs * 2) = hex_pairs t bs"
proof -
  have "hex_range t bs 0 (n * 2) = hex_pairs t (take n bs)" if "n \<le> length bs" for n
    using that
  proof (induction n)
    case (Suc n)
    have "hex_range t bs 0 (Suc n * 2) = hex_range t bs 0 (n * 2) @ hex_range t bs (n * 2) (Suc n * 2)"
      by (rule hex_range_split [symmetric]) simp_all
    also have "hex_range t bs (n * 2) (Suc n * 2) = hex_pairs t [bs ! n]"
      by (simp add: hex_range_def hex_pairs_def upt_rec mod_Suc)
    finally show ?case using Suc
      by (simp add: hex_pairs_def take_Suc_conv_app_nth)
  qed (simp add: hex_range_def hex_pairs_def)
  from this [of "length bs"] show ?thesis by simp
qed

lemma count_seps_shift: "count_seps n covered k gs = k + count_seps n covered 0 gs"
proof (induction gs arbitrary: covered k)
  case (Cons g gs)
  show ?case
    using Cons [of "min (covered + g) n" "k + 1"] Cons [of "min (covered + g) n" k]
      Cons [of "min (covered + g) n" 1] by (cases "covered = 0") simp_all
qed simp

lemma write_groups_spec:
  assumes "write_groups t bs sep rest first gs = (w, r)" and "rest \<le> length bs * 2"
    and "first \<longleftrightarrow> rest = 0"
  shows "rest \<le> r \<and> r \<le> length bs * 2 \<and>
    length w = (r - rest) + count_seps (length bs * 2) rest 0 gs * length sep \<and>
    (sep = [] \<longrightarrow> w = hex_range t bs rest r)"
  using assms
proof (induction gs arbitrary: rest first w r)
  case Nil
  then show ?case by (simp add: hex_range_def)
next
  case (Cons g gs)
  let ?n = "length bs * 2"
  show ?case
  proof (cases "g = 0 \<or> ?n \<le> rest")
    case True
    then show ?thesis using Cons.prems by (auto simp: hex_range_def)
  next
    case False
    define m where "m = rest + min g (?n - rest)"
    have m: "min (rest + g) ?n = m" "rest < m" "m \<le> ?n" using False by (auto simp: m_def)
    obtain w' r' where w': "write_groups t bs sep m False gs = (w', r')" by fastforce
    have "\<not> ?n \<le> rest" "g \<noteq> 0" using False by auto
    then have w: "w = (if first then [] else sep) @ hex_range t bs rest m @ w'" "r = r'"
      using Cons.prems(1) w' by (simp_all add: Let_def m_def [symmetric])
    have IH: "m \<le> r'" "r' \<le> ?n" "length w' = (r' - m) + count_seps ?n m 0 gs * length sep"
      "sep = [] \<longrightarrow> w' = hex_range t bs m r'"
      using Cons.IH [OF w' m(3)] m(2) by simp_all
    have "count_seps ?n rest 0 (g # gs) = (if first then 0 else 1) + count_seps ?n m 0 gs"
      using False Cons.prems(3) count_seps_shift [of ?n m 1 gs] by (simp add: m(1))
    moreover have "sep = [] \<longrightarrow> w = hex_range t bs rest r"
      using IH(4) hex_range_split [of rest m r' t bs] m(2) IH(1) by (simp add: w)
    ultimately show ?thesis using IH(1,2,3) m(2) by (simp add: w algebra_simps)
  qed
qed

text \<open>
  The unchecked writes of \<open>hex_grouped\<close> fill exactly the capacity its first pass
  computed, for every grouping, and without a separator the text is the plain hexadecimal
  form.
\<close>

lemma hex_grouped_fits:
  "length (hex_grouped bs upper sep groups) = hex_grouped_capacity bs sep groups \<and>
   hex_grouped bs upper [] groups = hex_compact bs upper"
proof
  let ?t = "if upper then HEX_UPPER else HEX_LOWER"
  obtain w r where w: "write_groups ?t bs sep 0 True groups = (w, r)" by fastforce
  show "length (hex_grouped bs upper sep groups) = hex_grouped_capacity bs sep groups"
    using write_groups_spec [OF w] w by (simp add: hex_grouped_def hex_grouped_capacity_def Let_def)
  obtain w r where w: "write_groups ?t bs [] 0 True groups = (w, r)" by fastforce
  show "hex_grouped bs upper [] groups = hex_compact bs upper"
    using write_groups_spec [OF w] w hex_range_split [of 0 r "length bs * 2" ?t bs]
    by (simp add: hex_grouped_def hex_compact_def Let_def hex_range_all)
qed

section \<open>Searches against their specification\<close>

lemma window_find_None:
  assumes "byte_find q (drop start (take (limit + 1) s)) = None"
    and "start \<le> i" and "i \<le> limit" and "i < length s"
  shows "\<not> q (s ! i)"
proof -
  have "s ! i = drop start (take (limit + 1) s) ! (i - start)" using assms by simp
  moreover have "i - start < length (drop start (take (limit + 1) s))" using assms by simp
  ultimately show ?thesis using assms(1) nth_mem unfolding byte_find_None_iff by metis
qed

lemma window_find_Some:
  assumes "byte_find q (drop start (take (limit + 1) s)) = Some rel" and "limit < length s"
  shows "start + rel \<le> limit" and "q (s ! (start + rel))"
    and "start \<le> i \<Longrightarrow> i < start + rel \<Longrightarrow> \<not> q (s ! i)"
proof -
  have r: "rel < length (drop start (take (limit + 1) s))"
    "q (drop start (take (limit + 1) s) ! rel)"
    "\<forall>j < rel. \<not> q (drop start (take (limit + 1) s) ! j)"
    using assms(1) by (auto simp: byte_find_Some_iff)
  then show b: "start + rel \<le> limit" using assms(2) by simp
  then show "q (s ! (start + rel))" using r(2) assms(2) by simp
  show "\<not> q (s ! i)" if "start \<le> i" "i < start + rel"
  proof -
    have "\<not> q (drop start (take (limit + 1) s) ! (i - start))" using r(3) that by simp
    then show ?thesis using that b assms(2) by simp
  qed
qed

definition word_at :: "string \<Rightarrow> string \<Rightarrow> nat \<Rightarrow> bool" where
  "word_at s w i \<longleftrightarrow> occurs_at s w i \<and> (i = 0 \<or> s ! (i - 1) = CHR '' '') \<and>
     (i + length w = length s \<or> s ! (i + length w) = CHR '' '')"

lemma occurs_at_hd: "occurs_at s (c # w) i \<Longrightarrow> s ! i = c"
  unfolding occurs_at_def by (cases "drop i s") (auto simp: nth_via_drop)

lemma contains_word_from_iff:
  assumes "finds_byte mc" and w: "word = first # ws"
  shows "contains_word_from mc s word first start \<longleftrightarrow> (\<exists>i \<ge> start. word_at s word i)"
proof (induction "Suc (length s) - start" arbitrary: start rule: less_induct)
  case less
  have mc: "mc first t = byte_find ((=) first) t" for t
    using assms(1) by (simp add: finds_byte_def)
  have none: "\<not> word_at s word i" if "length s < start + length word" "start \<le> i" for i
    using that by (simp add: word_at_def occurs_at_def)
  show ?case
  proof (cases "start + length word \<le> length s")
    case False
    then show ?thesis using none by (subst contains_word_from.simps) auto
  next
    case True
    let ?l = "length s - length word"
    have l: "?l < length s" using True w by simp
    have first: "s ! i = first \<and> i \<le> ?l" if "word_at s word i" for i
      using that occurs_at_hd [of s first ws i] w by (auto simp: word_at_def occurs_at_def)
    show ?thesis
    proof (cases "byte_find ((=) first) (drop start (take (?l + 1) s))")
      case None
      have "\<not> word_at s word i" if "start \<le> i" for i
        using window_find_None [OF None that] first [of i] l by auto
      then show ?thesis using True None by (subst contains_word_from.simps) (auto simp: mc)
    next
      case (Some rel)
      note f = window_find_Some [OF Some l]
      have occ: "occurs_at s word (start + rel) \<longleftrightarrow> take (length word) (drop (start + rel) s) = word"
        using f(1) True by (auto simp: occurs_at_def)
      have none: "\<not> word_at s word i" if "start \<le> i" "i < start + rel" for i
        using f(3) [OF that] first [of i] by auto
      have "contains_word_from mc s word first start \<longleftrightarrow>
          word_at s word (start + rel) \<or> contains_word_from mc s word first (start + rel + 1)"
        using True Some
        by (subst contains_word_from.simps) (auto simp: mc Let_def word_at_def occ)
      also have "contains_word_from mc s word first (start + rel + 1) \<longleftrightarrow>
          (\<exists>i \<ge> start + rel + 1. word_at s word i)"
        using True by (intro less) simp
      finally show ?thesis
        using ex_ge_skip [of start "start + rel" "word_at s word", OF none] by simp
    qed
  qed
qed

text \<open>
  \<open>contains_word\<close> answers whether the word stands in the text between spaces or its
  ends, which decides class membership of an element; the loop skips no occurrence.
\<close>

lemma contains_word_iff:
  assumes "finds_byte mc" and "w \<noteq> []"
  shows "contains_word mc s w \<longleftrightarrow>
    (\<exists>a b. s = a @ w @ b \<and> (a = [] \<or> last a = CHR '' '') \<and> (b = [] \<or> hd b = CHR '' ''))"
proof -
  obtain c t where w: "w = c # t" using assms(2) by (cases w) auto
  have "contains_word mc s w \<longleftrightarrow> (\<exists>i. word_at s w i)"
    using contains_word_from_iff [OF assms(1) w, of s 0] by (simp add: contains_word_def w)
  also have "\<dots> \<longleftrightarrow>
    (\<exists>a b. s = a @ w @ b \<and> (a = [] \<or> last a = CHR '' '') \<and> (b = [] \<or> hd b = CHR '' ''))"
  proof
    assume "\<exists>i. word_at s w i"
    then obtain i where i: "i + length w \<le> length s" "take (length w) (drop i s) = w"
      "i = 0 \<or> s ! (i - 1) = CHR '' ''" "i + length w = length s \<or> s ! (i + length w) = CHR '' ''"
      by (auto simp: word_at_def occurs_at_def)
    have "s = take i s @ w @ drop (i + length w) s"
      using i(2) by (metis append_take_drop_id drop_drop add.commute)
    moreover have "take i s = [] \<or> last (take i s) = CHR '' ''"
      using i(1,3) by (cases i) (auto simp: take_Suc_conv_app_nth)
    moreover have "drop (i + length w) s = [] \<or> hd (drop (i + length w) s) = CHR '' ''"
      using i(1,4) by (cases "i + length w = length s") (auto simp: hd_drop_conv_nth)
    ultimately show "\<exists>a b. s = a @ w @ b \<and> (a = [] \<or> last a = CHR '' '') \<and>
        (b = [] \<or> hd b = CHR '' '')" by blast
  next
    assume "\<exists>a b. s = a @ w @ b \<and> (a = [] \<or> last a = CHR '' '') \<and> (b = [] \<or> hd b = CHR '' '')"
    then obtain a b where s: "s = a @ w @ b" "a = [] \<or> last a = CHR '' ''" "b = [] \<or> hd b = CHR '' ''"
      by blast
    have "s ! (length a - 1) = CHR '' ''" if "a \<noteq> []"
      using that s(2) by (simp add: s(1) nth_append last_conv_nth)
    moreover have "s ! (length a + length w) = CHR '' ''" if "b \<noteq> []"
      using that s(3) by (simp add: s(1) nth_append hd_conv_nth)
    ultimately have "word_at s w (length a)" by (auto simp: word_at_def occurs_at_def s(1))
    then show "\<exists>i. word_at s w i" by blast
  qed
  finally show ?thesis .
qed

lemma contains_word_iff_example:
  "contains_word (\<lambda>c. byte_find (\<lambda>d. c = d)) ''a btn b'' ''btn''"
proof -
  have "finds_byte (\<lambda>c. byte_find (\<lambda>d. c = d))" by (simp add: finds_byte_def)
  note spec = contains_word_iff [OF this, of "''btn''" "''a btn b''"]
  show ?thesis
    by (rule spec [THEN iffD2]) (simp, intro exI [of _ "''a ''"] exI [of _ "'' b''"], simp)
qed

lemma eq_ci_iff: "eq_ci s t \<longleftrightarrow> eq_ignore_case s t"
proof -
  have "length s = length t \<Longrightarrow> list_all (\<lambda>(a, b). to_lower a = to_lower b) (zip s t)
      \<longleftrightarrow> map to_lower s = map to_lower t"
    by (induction s t rule: list_induct2) auto
  then show ?thesis using eq_ignore_case_length [of s t] by (auto simp: eq_ci_def eq_ignore_case_def)
qed

lemma case_variants: "to_lower c = to_lower d \<longleftrightarrow> c = ascii_lower_byte d \<or> c = ascii_upper_byte d"
proof -
  have "ord (ascii_lower_byte d) = ord d + (if is_upper d then 32 else 0)"
    "ord (ascii_upper_byte d) = ord d - (if is_lower d then 32 else 0)"
    using ord_less_256 [of d] unfolding ascii_lower_byte_def ascii_upper_byte_def
    by (subst ord_chr; auto simp: is_upper_def is_lower_def)+
  then show ?thesis
    unfolding ord_eq_iff [of c] ord_eq_iff [of "to_lower c"] ord_to_lower
    by (auto simp: is_upper_def is_lower_def)
qed

lemma contains_ci_from_iff:
  assumes "finds_byte2 mc2" and "needle = d # ws" and "length needle \<le> length s"
    and "lo = ascii_lower_byte d" and "up = ascii_upper_byte d"
    and "limit = length s - length needle"
  shows "contains_ci_from mc2 s needle lo up limit start \<longleftrightarrow>
    (\<exists>i \<ge> start. i \<le> limit \<and> eq_ignore_case (take (length needle) (drop i s)) needle)"
proof (induction "Suc limit - start" arbitrary: start rule: less_induct)
  case less
  let ?P = "\<lambda>i. i \<le> limit \<and> eq_ignore_case (take (length needle) (drop i s)) needle"
  have mc: "mc2 lo up t = byte_find (\<lambda>e. lo = e \<or> up = e) t" for t
    using assms(1) by (simp add: finds_byte2_def)
  have l: "limit < length s" using assms(2,3,6) by simp
  have head: "lo = s ! i \<or> up = s ! i" if "?P i" for i
  proof -
    have "drop i s = s ! i # drop (Suc i) s" using that l by (simp add: Cons_nth_drop_Suc)
    then have "to_lower (s ! i) = to_lower d" using that assms(2) by (simp add: eq_ignore_case_def)
    then show ?thesis unfolding case_variants assms(4,5) by auto
  qed
  show ?case
  proof (cases "start \<le> limit")
    case False
    then show ?thesis by (subst contains_ci_from.simps) auto
  next
    case True
    show ?thesis
    proof (cases "byte_find (\<lambda>e. lo = e \<or> up = e) (drop start (take (limit + 1) s))")
      case None
      have "\<not> ?P i" if "start \<le> i" for i
        using window_find_None [OF None that] head [of i] l by auto
      then show ?thesis using True None by (subst contains_ci_from.simps) (auto simp: mc)
    next
      case (Some rel)
      note f = window_find_Some [OF Some l]
      have none: "\<not> ?P i" if "start \<le> i" "i < start + rel" for i
        using f(3) [OF that] head [of i] by auto
      have "contains_ci_from mc2 s needle lo up limit start \<longleftrightarrow>
          ?P (start + rel) \<or> contains_ci_from mc2 s needle lo up limit (start + rel + 1)"
        using True Some f(1)
        by (subst contains_ci_from.simps) (auto simp: mc Let_def eq_ci_iff)
      also have "contains_ci_from mc2 s needle lo up limit (start + rel + 1) \<longleftrightarrow>
          (\<exists>i \<ge> start + rel + 1. ?P i)"
        using True by (intro less) simp
      finally show ?thesis
        using ex_ge_skip [of start "start + rel" ?P, OF none] by simp
    qed
  qed
qed

lemma contains_ci_iff:
  assumes "finds_byte2 mc2"
  shows "contains_ci mc2 s needle \<longleftrightarrow>
    (\<exists>i. i + length needle \<le> length s \<and> eq_ignore_case (take (length needle) (drop i s)) needle)"
proof (cases needle)
  case Nil
  then show ?thesis by (auto simp: contains_ci_def intro: exI [of _ 0])
next
  case (Cons d ws)
  show ?thesis
  proof (cases "length s < length needle")
    case True
    then show ?thesis using Cons by (auto simp: contains_ci_def)
  next
    case False
    then have "contains_ci mc2 s needle \<longleftrightarrow> (\<exists>i \<ge> 0. i \<le> length s - length needle \<and>
        eq_ignore_case (take (length needle) (drop i s)) needle)"
      using contains_ci_from_iff [OF assms Cons _ refl refl refl, of s 0] Cons
      by (simp add: contains_ci_def Let_def)
    then show ?thesis using False by (auto simp: le_diff_conv2)
  qed
qed

section \<open>LEB128\<close>

text \<open>The canonical encoding: seven bits a byte, least significant first.\<close>

fun leb_encode :: "nat \<Rightarrow> string" where
  "leb_encode n = (if n < 128 then [chr n] else chr (128 + n mod 128) # leb_encode (n div 128))"

declare leb_encode.simps [simp del]

lemma and_127: "b AND 127 = b mod (128 :: nat)"
  using take_bit_eq_mask [of 7 b] by (simp add: take_bit_eq_mod mask_eq_exp_minus_1)

lemma and_128: "b < 256 \<Longrightarrow> b AND 128 = 0 \<longleftrightarrow> b < (128 :: nat)"
proof -
  assume "b < 256"
  then have "b div 128 \<le> 1" by simp
  then have "odd (b div 128) \<longleftrightarrow> b div 128 \<noteq> 0" by (cases "b div 128 = 0") (auto simp: le_Suc_eq)
  moreover have "b AND 2 ^ 7 = 0 \<longleftrightarrow> \<not> odd (b div 2 ^ 7)"
    using and_exp_eq_0_iff_not_bit [of b 7] by (simp add: bit_iff_odd)
  ultimately show ?thesis by (simp add: div_eq_0_iff)
qed

lemma word_split7:
  "push_bit k (word_of_nat (n mod 128)) OR push_bit (k + 7) (word_of_nat (n div 128)) =
   push_bit k (word_of_nat n :: u64)"
proof -
  have *: "word_of_nat (n mod 128) OR push_bit 7 (word_of_nat (n div 128)) = (word_of_nat n :: u64)"
  proof (rule bit_word_eqI)
    fix i
    assume "i < LENGTH(64)"
    have "n mod 128 = take_bit 7 n" "n div 128 = drop_bit 7 n"
      by (simp_all add: take_bit_eq_mod drop_bit_eq_div)
    then show "bit (word_of_nat (n mod 128) OR push_bit 7 (word_of_nat (n div 128)) :: u64) i
        = bit (word_of_nat n :: u64) i"
      using \<open>i < LENGTH(64)\<close> by (auto simp: bit_simps)
  qed
  have "push_bit (k + 7) w = push_bit k (push_bit 7 w)" for w :: u64
    by (simp add: push_bit_push_bit)
  then show ?thesis by (simp only: push_bit_or [symmetric] *)
qed

lemma leb128_loop_encode:
  assumes "n * 2 ^ shift < 2 ^ 64"
  shows "leb128_loop (pre @ leb_encode n @ post) (length pre) shift val =
    Some (val OR push_bit shift (word_of_nat n), length pre + length (leb_encode n))"
  using assms
proof (induction n arbitrary: pre shift val rule: leb_encode.induct)
  case (1 n)
  show ?case
  proof (cases "n < 128")
    case True
    then show ?thesis
      by (subst leb128_loop.simps) (simp add: leb_encode.simps [of n] and_127 and_128)
  next
    case False
    let ?c = "chr (128 + n mod 128)"
    have c: "ord ?c = 128 + n mod 128" by (rule ord_chr) simp
    have b: "(128 + n mod 128) AND 127 = n mod 128" "(128 + n mod 128) AND 128 \<noteq> 0"
      by (simp_all add: and_127 and_128)
    have "2 ^ (shift + 7) \<le> n * 2 ^ shift" using False by (simp add: power_add)
    then have "(2 :: nat) ^ (shift + 7) < 2 ^ 64" using 1(2) by (rule le_less_trans)
    then have "shift + 7 < 64" by (rule power_less_imp_less_exp [rotated]) simp
    then have s: "\<not> 63 < shift + 7" by simp
    have "n div 128 * 2 ^ (shift + 7) = n div 128 * 128 * 2 ^ shift" by (simp add: power_add)
    also have "\<dots> \<le> n * 2 ^ shift" by (intro mult_le_mono1) simp
    finally have "n div 128 * 2 ^ (shift + 7) < 2 ^ 64" using 1(2) by simp
    note IH = 1(1) [OF False this, of "pre @ [?c]"]
    have e: "leb_encode n = ?c # leb_encode (n div 128)" using False by (subst leb_encode.simps) simp
    have "pre @ leb_encode n @ post = (pre @ [?c]) @ leb_encode (n div 128) @ post"
      by (simp add: e)
    moreover have "(pre @ leb_encode n @ post) ! length pre = ?c" by (simp add: e)
    ultimately show ?thesis
      using IH s b
      by (subst leb128_loop.simps) (simp add: Let_def e c or.assoc word_split7)
  qed
qed

text \<open>
  \<open>leb128\<close> reads back the canonical encoding of every 64-bit value, wherever it stands
  in the buffer, and leaves the position after it.
\<close>

lemma leb128_roundtrip:
  "leb128 (pre @ leb_encode (unat v) @ post) (length pre) =
   Some (v, length pre + length (leb_encode (unat v)))"
proof (cases "unat v < 128")
  case True
  then show ?thesis by (simp add: leb128_def leb_encode.simps [of "unat v"] and_128)
next
  case False
  let ?n = "unat v" and ?c = "chr (128 + unat v mod 128)"
  have c: "ord ?c = 128 + ?n mod 128" by (rule ord_chr) simp
  have b: "(128 + ?n mod 128) AND 127 = ?n mod 128" "(128 + ?n mod 128) AND 128 \<noteq> 0"
    by (simp_all add: and_127 and_128)
  have e: "leb_encode ?n = ?c # leb_encode (?n div 128)" using False by (subst leb_encode.simps) simp
  have "?n div 128 * 2 ^ 7 \<le> ?n" by simp
  then have "?n div 128 * 2 ^ 7 < 2 ^ 64" using unat_less_pow(4) [of v] by simp
  note L = leb128_loop_encode [OF this, of "pre @ [?c]" post "word_of_nat (?n mod 128)"]
  have "word_of_nat (?n mod 128) OR push_bit 7 (word_of_nat (?n div 128)) = v"
    using word_split7 [of 0 ?n] by simp
  then show ?thesis using L b by (simp add: leb128_def e c Let_def)
qed

end
