(* ===== verification/Url.thy ===== *)
theory Url
  imports Encoding
begin

text \<open>
  URL splitting of \<open>crates/core-utils/src/url.rs\<close>: the authority split every other part of
  the program relies on for the host it talks to, origins, the parts of a location object and
  the joining of a relative reference to an origin.
\<close>

section \<open>Splitting\<close>

record authority =
  a_scheme :: string
  a_userinfo :: "(string \<times> string option) option"
  a_host :: string
  a_port :: "string option"
  a_bracketed :: bool
  a_tail :: string

definition split_once_str :: "string \<Rightarrow> string \<Rightarrow> (string \<times> string) option" where
  "split_once_str sep s = (case str_find s sep of
     None \<Rightarrow> None | Some i \<Rightarrow> Some (take i s, drop (i + length sep) s))"

definition is_auth_end :: "char \<Rightarrow> bool" where
  "is_auth_end c \<longleftrightarrow> c = CHR ''/'' \<or> c = CHR ''?'' \<or> c = CHR ''#''"

definition find_or_end :: "(char \<Rightarrow> bool) \<Rightarrow> string \<Rightarrow> nat" where
  "find_or_end p s = (case byte_find p s of Some i \<Rightarrow> i | None \<Rightarrow> length s)"

definition split_userinfo :: "string \<Rightarrow> (string \<times> string option) option \<times> string" where
  "split_userinfo auth =
     (case rsplit_once (CHR ''@'') auth of
        Some (u, hp) \<Rightarrow>
          (Some (case split_once (CHR '':'') u of Some (n, p) \<Rightarrow> (n, Some p) | None \<Rightarrow> (u, None)), hp)
      | None \<Rightarrow> (None, auth))"

definition split_hostport :: "string \<Rightarrow> string \<times> string option \<times> bool" where
  "split_hostport hostport =
     (case strip_prefix ''['' hostport of
        Some stripped \<Rightarrow>
          (case split_once (CHR '']'') stripped of
             Some (h, p) \<Rightarrow> (h, strip_prefix '':'' p, True)
           | None \<Rightarrow> (hostport, None, True))
      | None \<Rightarrow>
          (case rsplit_once (CHR '':'') hostport of
             Some (h, p) \<Rightarrow> if h \<noteq> [] then (h, Some p, False) else (hostport, None, False)
           | None \<Rightarrow> (hostport, None, False)))"

definition split_authority :: "string \<Rightarrow> authority" where
  "split_authority s =
     (let (scheme, rest) = (case split_once_str ''://'' s of Some (a, b) \<Rightarrow> (a, b) | None \<Rightarrow> ('''', s));
          auth_end = find_or_end is_auth_end rest;
          (userinfo, hostport) = split_userinfo (take auth_end rest);
          (host, port, bracketed) = split_hostport hostport
      in \<lparr>a_scheme = scheme, a_userinfo = userinfo, a_host = host, a_port = port,
          a_bracketed = bracketed, a_tail = drop auth_end rest\<rparr>)"

definition scheme_is_http :: "string \<Rightarrow> bool" where
  "scheme_is_http s \<longleftrightarrow> eq_ignore_case s ''http'' \<or> eq_ignore_case s ''https''"

definition port_displayed :: "string \<Rightarrow> string \<Rightarrow> bool" where
  "port_displayed scheme port \<longleftrightarrow>
     \<not> ((eq_ignore_case scheme ''http'' \<and> port = ''80'') \<or>
        (eq_ignore_case scheme ''https'' \<and> port = ''443'')) \<and>
     port \<noteq> [] \<and> list_all is_digit port"

definition shown_port :: "authority \<Rightarrow> string" where
  "shown_port a = (case a_port a of
     Some p \<Rightarrow> if port_displayed (a_scheme a) p then CHR '':'' # p else [] | None \<Rightarrow> [])"

definition origin_of_authority :: "authority \<Rightarrow> string \<times> string" where
  "origin_of_authority a =
     (let host = ascii_lower_compact (a_host a)
      in (a_scheme a @ ''://'' @ (if a_bracketed a then ''['' else []) @ host @
          (if a_bracketed a then '']'' else []) @ shown_port a, host))"

definition url_host :: "string \<Rightarrow> string" where
  "url_host s = ascii_lower_compact (a_host (split_authority s))"

definition host_port :: "string \<Rightarrow> string" where
  "host_port s =
     (let a = split_authority s; out = ascii_lower_compact (a_host a)
      in case a_port a of
           None \<Rightarrow> out
         | Some p \<Rightarrow>
             if port_displayed (a_scheme a) p
             then (if a_bracketed a then ''['' @ out @ '']'' else out) @ '':'' @ p
             else out)"

definition origin_parts :: "string \<Rightarrow> string \<times> string" where
  "origin_parts s =
     (let a = split_authority s in if a_scheme a = [] then ([], []) else origin_of_authority a)"

record href_parts =
  h_origin :: string
  h_host :: string
  h_path :: string
  h_search :: string
  h_hash :: string

definition href_parts_of :: "string \<Rightarrow> href_parts" where
  "href_parts_of s =
     (let a = split_authority s
      in if a_scheme a = []
         then \<lparr>h_origin = [], h_host = [], h_path = [], h_search = [], h_hash = []\<rparr>
         else let (origin, host) = origin_of_authority a;
                  tail = a_tail a;
                  hash_at = find_or_end ((=) (CHR ''#'')) tail;
                  no_hash = take hash_at tail;
                  search_at = find_or_end ((=) (CHR ''?'')) no_hash;
                  path = take search_at no_hash
              in \<lparr>h_origin = origin, h_host = host,
                  h_path = (if path = [] then ''/'' else path),
                  h_search = drop search_at no_hash,
                  h_hash = (if hash_at < length tail then drop hash_at tail else [])\<rparr>)"

definition trim_start_matches :: "char \<Rightarrow> string \<Rightarrow> string" where
  "trim_start_matches c s = dropWhile ((=) c) s"

definition url_join_origin :: "string \<Rightarrow> string \<Rightarrow> bool \<Rightarrow> string" where
  "url_join_origin base path trim_leading_slash =
     (if prefix ''http://'' path \<or> prefix ''https://'' path then path
      else
        let scheme_at = str_find base ''://'';
            cut = (case scheme_at of
                     Some s \<Rightarrow>
                       take (case byte_find ((=) (CHR ''/'')) (drop (s + 3) base) of
                               Some i \<Rightarrow> s + 3 + i | None \<Rightarrow> length base) base
                   | None \<Rightarrow> base)
        in if prefix ''//'' path
           then let tail = (if trim_leading_slash then trim_start_matches (CHR ''/'') path else path);
                    scheme_end = (case scheme_at of Some s \<Rightarrow> s | None \<Rightarrow> 0)
                in (if 0 < scheme_end then take scheme_end base @ '':'' else []) @ tail
           else if trim_leading_slash then cut @ ''/'' @ trim_start_matches (CHR ''/'') path
           else cut @ path)"

definition host_of :: "string \<Rightarrow> string" where "host_of url = url_host url"
definition origin_of :: "string \<Rightarrow> string \<times> string" where "origin_of href = origin_parts href"
definition split_href :: "string \<Rightarrow> href_parts" where "split_href href = href_parts_of href"
definition join_origin :: "string \<Rightarrow> string \<Rightarrow> bool \<Rightarrow> string" where
  "join_origin base path trim_leading_slash = url_join_origin base path trim_leading_slash"

definition host_of_into :: "string \<Rightarrow> string \<Rightarrow> string" where
  "host_of_into url out = push_ascii_case_into [] (a_host (split_authority url)) False"

definition path_of :: "string \<Rightarrow> string" where
  "path_of url =
     (let after = (case str_find url ''://'' of Some i \<Rightarrow> i + 3 | None \<Rightarrow> 0)
      in case byte_find ((=) (CHR ''/'')) (drop after url) of
           Some i \<Rightarrow> drop (after + i) url | None \<Rightarrow> ''/'')"

text \<open>
  The host hash feeds the lower-case host to a streaming hasher in blocks of 64 bytes; the
  hasher (the XXH3 crate) is an argument.
\<close>

function hash_blocks :: "('h \<Rightarrow> string \<Rightarrow> 'h) \<Rightarrow> 'h \<Rightarrow> string \<Rightarrow> 'h" where
  "hash_blocks wr h host =
     (if host = [] then h
      else hash_blocks wr (wr h (map ascii_lower_byte (take 64 host))) (drop 64 host))"
  by pat_completeness auto
termination by (relation "measure (\<lambda>(_, _, host). length host)") auto

declare hash_blocks.simps [simp del]

definition host_hash :: "'h \<Rightarrow> ('h \<Rightarrow> string \<Rightarrow> 'h) \<Rightarrow> ('h \<Rightarrow> u64) \<Rightarrow> string \<Rightarrow> u64" where
  "host_hash hasher wr fin s = fin (hash_blocks wr hasher (a_host (split_authority s)))"

section \<open>The authority split\<close>

lemma find_or_end_append:
  "(\<forall>c \<in> set a. \<not> p c) \<Longrightarrow> b = [] \<or> p (hd b) \<Longrightarrow> find_or_end p (a @ b) = length a"
proof (cases b)
  case Nil
  assume "\<forall>c \<in> set a. \<not> p c"
  then have "byte_find p a = None" by (simp add: byte_find_None_iff)
  with Nil show ?thesis by (simp add: find_or_end_def)
next
  case (Cons d t)
  assume "\<forall>c \<in> set a. \<not> p c" "b = [] \<or> p (hd b)"
  with Cons byte_find_append [of a p d t] show ?thesis by (simp add: find_or_end_def)
qed

lemma rsplit_once_append: "c \<notin> set b \<Longrightarrow> rsplit_once c (a @ c # b) = Some (a, b)"
proof -
  assume "c \<notin> set b"
  then have "byte_find ((=) c) (rev b @ c # rev a) = Some (length b)"
    using byte_find_append [of "rev b" "(=) c" c "rev a"] by auto
  then show ?thesis by (simp add: rsplit_once_def byte_rfind_def)
qed

lemma rsplit_once_None: "c \<notin> set s \<Longrightarrow> rsplit_once c s = None"
  using byte_find_None_iff [of "(=) c" "rev s"] by (auto simp: rsplit_once_def byte_rfind_def)

lemma rsplit_once_SomeD:
  assumes "rsplit_once c s = Some (a, b)"
  shows "s = a @ c # b" and "c \<notin> set b"
proof -
  obtain i where i: "byte_find ((=) c) (rev s) = Some i"
    "a = take (length s - 1 - i) s" "b = drop (Suc (length s - 1 - i)) s"
    using assms by (auto simp: rsplit_once_def byte_rfind_def split: option.splits)
  then have r: "i < length s" "rev s ! i = c" "\<forall>j < i. rev s ! j \<noteq> c"
    by (auto simp: byte_find_Some_iff)
  then have c: "s ! (length s - 1 - i) = c" by (simp add: rev_nth)
  show "s = a @ c # b"
    using id_take_nth_drop [of "length s - 1 - i" s] r(1) i(2,3) c by auto
  have "b = rev (take i (rev s))" using r(1) i(3) by (simp add: rev_take Suc_diff_Suc)
  then show "c \<notin> set b" using r(3) by (auto simp: in_set_conv_nth)
qed

lemma str_find_scheme:
  assumes "CHR '':'' \<notin> set a"
  shows "str_find (a @ ''://'' @ b) ''://'' = Some (length a)"
proof -
  have o: "occurs_at (a @ ''://'' @ b) ''://'' (length a)" by (simp add: occurs_at_def)
  have n: "\<not> occurs_at (a @ ''://'' @ b) ''://'' j" if "j < length a" for j
  proof
    assume "occurs_at (a @ ''://'' @ b) ''://'' j"
    then have "(a @ ''://'' @ b) ! j = CHR '':''" by (rule occurs_at_hd)
    then show False using that assms nth_mem [of j a] by (simp add: nth_append)
  qed
  show ?thesis
    using str_find_spec [of "a @ ''://'' @ b" "''://''"] o n
    by (auto split: option.splits) (metis linorder_neqE_nat)
qed

lemma split_once_str_scheme:
  "CHR '':'' \<notin> set a \<Longrightarrow> split_once_str ''://'' (a @ ''://'' @ b) = Some (a, b)"
  using str_find_scheme [of a b] by (simp add: split_once_str_def)

text \<open>The text of an authority and the conditions on its parts.\<close>

definition auth_text :: "authority \<Rightarrow> string" where
  "auth_text a =
     a_scheme a @ ''://'' @
     (case a_userinfo a of None \<Rightarrow> [] | Some (n, None) \<Rightarrow> n @ ''@'' | Some (n, Some p) \<Rightarrow> n @ '':'' @ p @ ''@'') @
     (if a_bracketed a then ''['' @ a_host a @ '']'' else a_host a) @
     (case a_port a of None \<Rightarrow> [] | Some p \<Rightarrow> '':'' @ p) @ a_tail a"

definition free_of :: "string \<Rightarrow> string \<Rightarrow> bool" where
  "free_of cs s \<longleftrightarrow> list_all (\<lambda>c. c \<notin> set cs) s"

definition well_formed :: "authority \<Rightarrow> bool" where
  "well_formed a \<longleftrightarrow>
     free_of '':'' (a_scheme a) \<and>
     (case a_userinfo a of
        None \<Rightarrow> True
      | Some (n, p) \<Rightarrow> free_of '':/?#'' n \<and> (case p of None \<Rightarrow> True | Some p \<Rightarrow> free_of ''/?#'' p)) \<and>
     (if a_bracketed a then free_of ''/?#@]'' (a_host a)
      else free_of ''/?#@:'' (a_host a) \<and> a_host a \<noteq> [] \<and> hd (a_host a) \<noteq> CHR ''['') \<and>
     (case a_port a of None \<Rightarrow> True | Some p \<Rightarrow> free_of ''/?#@:'' p) \<and>
     (a_tail a = [] \<or> is_auth_end (hd (a_tail a)))"

lemma free_of_iff: "free_of cs s \<longleftrightarrow> (\<forall>c \<in> set s. c \<notin> set cs)"
  by (simp add: free_of_def list_all_iff)

definition hostport_text :: "authority \<Rightarrow> string" where
  "hostport_text a = (if a_bracketed a then ''['' @ a_host a @ '']'' else a_host a) @
     (case a_port a of None \<Rightarrow> [] | Some p \<Rightarrow> '':'' @ p)"

definition userinfo_text :: "authority \<Rightarrow> string" where
  "userinfo_text a = (case a_userinfo a of None \<Rightarrow> [] | Some (n, None) \<Rightarrow> n @ ''@''
     | Some (n, Some p) \<Rightarrow> n @ '':'' @ p @ ''@'')"

lemma split_hostport_text:
  assumes "well_formed a"
  shows "split_hostport (hostport_text a) = (a_host a, a_port a, a_bracketed a)"
proof (cases "a_bracketed a")
  case True
  then have "CHR '']'' \<notin> set (a_host a)" using assms by (auto simp: well_formed_def free_of_iff)
  then have "split_once (CHR '']'') (a_host a @ CHR '']'' # r) = Some (a_host a, r)" for r
    by (simp add: split_once_Some)
  then show ?thesis using True
    by (auto simp: split_hostport_def hostport_text_def strip_prefix_def split: option.split)
next
  case False
  then have h: "a_host a \<noteq> []" "hd (a_host a) \<noteq> CHR ''[''" "CHR '':'' \<notin> set (a_host a)"
    "\<And>p. a_port a = Some p \<Longrightarrow> CHR '':'' \<notin> set p"
    using assms by (auto simp: well_formed_def free_of_iff)
  then have "strip_prefix ''['' (a_host a @ r) = None" for r
    by (cases "a_host a") (auto simp: strip_prefix_def)
  then show ?thesis using False h rsplit_once_append [of "CHR '':''" _ "a_host a"]
      rsplit_once_None [OF h(3)]
    by (auto simp: split_hostport_def hostport_text_def split: option.split)
qed

lemma free_of_mem: "free_of cs s \<Longrightarrow> c \<in> set cs \<Longrightarrow> c \<notin> set s"
  by (auto simp: free_of_iff)

lemma free_of_clean: "free_of cs s \<Longrightarrow> set ''/?#'' \<subseteq> set cs \<Longrightarrow> c \<in> set s \<Longrightarrow> \<not> is_auth_end c"
  by (auto simp: free_of_iff is_auth_end_def)

lemma hostport_no_at: "well_formed a \<Longrightarrow> CHR ''@'' \<notin> set (hostport_text a)"
proof -
  assume wf: "well_formed a"
  have "CHR ''@'' \<notin> set (a_host a)"
    using wf free_of_mem [of "''/?#@]''" "a_host a" "CHR ''@''"] free_of_mem [of "''/?#@:''" "a_host a" "CHR ''@''"]
    by (cases "a_bracketed a") (simp_all add: well_formed_def)
  moreover have "CHR ''@'' \<notin> set p" if "a_port a = Some p" for p
    using wf that free_of_mem [of "''/?#@:''" p "CHR ''@''"] by (simp add: well_formed_def)
  ultimately show ?thesis by (simp add: hostport_text_def split: option.split)
qed

lemma hostport_clean: "well_formed a \<Longrightarrow> c \<in> set (hostport_text a) \<Longrightarrow> \<not> is_auth_end c"
proof -
  assume wf: "well_formed a" and c: "c \<in> set (hostport_text a)"
  have h: "\<not> is_auth_end d" if "d \<in> set (a_host a)" for d
    using wf that free_of_clean [of "''/?#@]''" "a_host a" d] free_of_clean [of "''/?#@:''" "a_host a" d]
    by (cases "a_bracketed a") (simp_all add: well_formed_def)
  have p: "\<not> is_auth_end d" if "a_port a = Some p" "d \<in> set p" for p d
    using wf that free_of_clean [of "''/?#@:''" p d] by (simp add: well_formed_def)
  have "c \<in> set (a_host a) \<or> (\<exists>p. a_port a = Some p \<and> c \<in> set p) \<or> c \<in> set ''[]:''"
    using c by (auto simp: hostport_text_def split: option.splits if_splits)
  then show ?thesis using h p by (auto simp: is_auth_end_def)
qed

lemma userinfo_clean: "well_formed a \<Longrightarrow> c \<in> set (userinfo_text a) \<Longrightarrow> \<not> is_auth_end c"
proof -
  assume wf: "well_formed a" and c: "c \<in> set (userinfo_text a)"
  show ?thesis
  proof (cases "a_userinfo a")
    case None
    then show ?thesis using c by (simp add: userinfo_text_def)
  next
    case (Some np)
    obtain n p where np: "np = (n, p)" by fastforce
    have n: "\<not> is_auth_end d" if "d \<in> set n" for d
      using wf Some np that free_of_clean [of "'':/?#''" n d] by (simp add: well_formed_def)
    have p: "\<not> is_auth_end d" if "p = Some q" "d \<in> set q" for q d
      using wf Some np that free_of_clean [of "''/?#''" q d] by (simp add: well_formed_def)
    have "c \<in> set n \<or> (\<exists>q. p = Some q \<and> c \<in> set q) \<or> c \<in> set '':@''"
      using c Some np by (auto simp: userinfo_text_def split: option.splits)
    then show ?thesis using n p by (auto simp: is_auth_end_def)
  qed
qed

lemma split_userinfo_text:
  assumes "well_formed a"
  shows "split_userinfo (userinfo_text a @ hostport_text a) = (a_userinfo a, hostport_text a)"
proof -
  note at = hostport_no_at [OF assms]
  show ?thesis
  proof (cases "a_userinfo a")
    case None
    then show ?thesis using rsplit_once_None [OF at] by (simp add: userinfo_text_def split_userinfo_def)
  next
    case (Some np)
    obtain n p where np: "np = (n, p)" by fastforce
    have "CHR '':'' \<notin> set n"
      using assms Some np free_of_mem [of "'':/?#''" n "CHR '':''"] by (simp add: well_formed_def)
    then have c: "split_once (CHR '':'') n = None" "split_once (CHR '':'') (n @ CHR '':'' # q) = Some (n, q)" for q
      by (simp_all add: split_once_None split_once_Some)
    show ?thesis
    proof (cases p)
      case None
      then show ?thesis using Some np c rsplit_once_append [OF at, of n]
        by (simp add: userinfo_text_def split_userinfo_def)
    next
      case (Some q)
      then show ?thesis using \<open>a_userinfo a = Some np\<close> np c rsplit_once_append [OF at, of "n @ '':'' @ q"]
        by (simp add: userinfo_text_def split_userinfo_def)
    qed
  qed
qed

lemma split_authority_text:
  assumes "well_formed a"
  shows "split_authority (auth_text a) = a"
proof -
  have s: "auth_text a = a_scheme a @ ''://'' @ userinfo_text a @ hostport_text a @ a_tail a"
    by (simp add: auth_text_def userinfo_text_def hostport_text_def)
  have "CHR '':'' \<notin> set (a_scheme a)"
    using assms free_of_mem [of "'':''" "a_scheme a" "CHR '':''"] by (simp add: well_formed_def)
  note sch = split_once_str_scheme [OF this, of "userinfo_text a @ hostport_text a @ a_tail a"]
  have "\<forall>c \<in> set (userinfo_text a @ hostport_text a). \<not> is_auth_end c"
    using userinfo_clean [OF assms] hostport_clean [OF assms] by auto
  then have "find_or_end is_auth_end ((userinfo_text a @ hostport_text a) @ a_tail a)
      = length (userinfo_text a @ hostport_text a)"
    by (rule find_or_end_append) (use assms in \<open>simp add: well_formed_def\<close>)
  then show ?thesis
    unfolding split_authority_def s sch using split_userinfo_text [OF assms] split_hostport_text [OF assms]
    by simp
qed

text \<open>
  C20: \<open>split_authority\<close> recovers the parts of every well-formed URL: user names and
  passwords cannot move the host, brackets delimit IPv6 hosts, the port is what follows the
  last colon, and path, query and fragment stay together.
\<close>

theorem split_authority_roundtrip:
  "well_formed a \<Longrightarrow> split_authority (auth_text a) = a"
  by (rule split_authority_text)

theorem split_authority_roundtrip_witness:
  "a_host (split_authority ''https://u:p@Ex.com:8443/x?y'') = ''Ex.com''"
proof -
  let ?a = "\<lparr>a_scheme = ''https'', a_userinfo = Some (''u'', Some ''p''), a_host = ''Ex.com'',
    a_port = Some ''8443'', a_bracketed = False, a_tail = ''/x?y''\<rparr>"
  have "well_formed ?a" by (simp add: well_formed_def free_of_def is_auth_end_def)
  from split_authority_roundtrip [OF this] show ?thesis by (simp add: auth_text_def)
qed

section \<open>Joining a reference\<close>

lemma auth_text_split:
  "auth_text a = a_scheme a @ ''://'' @ userinfo_text a @ hostport_text a @ a_tail a"
  by (simp add: auth_text_def userinfo_text_def hostport_text_def)

lemma join_path:
  assumes "\<not> prefix ''http://'' path" and "\<not> prefix ''https://'' path" and "\<not> prefix ''//'' path"
    and "str_find base ''://'' = Some s"
  shows "join_origin base path trim =
    take (case byte_find ((=) (CHR ''/'')) (drop (s + 3) base) of
            Some i \<Rightarrow> s + 3 + i | None \<Rightarrow> length base) base @
    (if trim then ''/'' @ trim_start_matches (CHR ''/'') path else path)"
  unfolding join_origin_def url_join_origin_def assms(4) Let_def option.case
  using assms(1-3) by (simp only: if_False HOL.simp_thms append_assoc if_distrib [of "append _"] split: if_split)

text \<open>
  C35: joining an absolute path to a URL keeps scheme, user info, host and port and replaces
  the rest, so a redirect to a path stays on its server.
\<close>

theorem join_origin_same_authority:
  assumes "well_formed a" and "a_tail a = [] \<or> hd (a_tail a) = CHR ''/''"
    and "path = CHR ''/'' # p" and "\<not> prefix ''//'' path"
  shows "split_authority (join_origin (auth_text a) path trim) = a\<lparr>a_tail := path\<rparr>"
proof -
  let ?ah = "userinfo_text a @ hostport_text a"
  have c: "CHR '':'' \<notin> set (a_scheme a)"
    using assms(1) free_of_mem [of "'':''" "a_scheme a" "CHR '':''"] by (simp add: well_formed_def)
  have f: "str_find (auth_text a) ''://'' = Some (length (a_scheme a))"
    using str_find_scheme [OF c, of "?ah @ a_tail a"] by (simp add: auth_text_split)
  have d: "drop (length (a_scheme a) + 3) (auth_text a) = ?ah @ a_tail a"
    by (simp add: auth_text_split)
  have cl: "\<not> is_auth_end c" if "c \<in> set ?ah" for c
    using that userinfo_clean [OF assms(1)] hostport_clean [OF assms(1)] by auto
  have sl: "\<forall>c \<in> set ?ah. \<not> CHR ''/'' = c"
  proof (intro ballI notI)
    fix c
    assume c: "c \<in> set ?ah" and "CHR ''/'' = c"
    from this(2) have "is_auth_end c" unfolding is_auth_end_def by (rule disjI1 [OF sym])
    with cl [OF c] show False ..
  qed
  have "a_tail a = [] \<or> CHR ''/'' = hd (a_tail a)" using assms(2) by (elim disjE) simp_all
  then have e: "find_or_end ((=) (CHR ''/'')) (?ah @ a_tail a) = length ?ah"
    by (rule find_or_end_append [OF sl])
  have cut: "take (case byte_find ((=) (CHR ''/'')) (?ah @ a_tail a) of
      Some i \<Rightarrow> length (a_scheme a) + 3 + i | None \<Rightarrow> length (auth_text a)) (auth_text a) =
      a_scheme a @ ''://'' @ ?ah"
  proof (cases "byte_find ((=) (CHR ''/'')) (?ah @ a_tail a)")
    case None
    then have "a_tail a = []" using e by (simp add: find_or_end_def)
    then show ?thesis using None by (simp add: auth_text_split)
  next
    case (Some i)
    then have "i = length ?ah" using e by (simp add: find_or_end_def)
    moreover have "auth_text a = (a_scheme a @ ''://'' @ ?ah) @ a_tail a"
      by (simp add: auth_text_split)
    moreover have "length (a_scheme a @ ''://'' @ ?ah) = length (a_scheme a) + 3 + length ?ah" by simp
    ultimately show ?thesis
      using Some by (metis (no_types) append_eq_conv_conj option.simps(5))
  qed
  have "dropWhile ((=) (CHR ''/'')) p = p" using assms(3,4) by (cases p) auto
  then have t: "''/'' @ trim_start_matches (CHR ''/'') path = path"
    using assms(3) by (simp add: trim_start_matches_def)
  have h: "\<not> prefix ''http://'' path" "\<not> prefix ''https://'' path" using assms(3) by simp_all
  have "join_origin (auth_text a) path trim = (a_scheme a @ ''://'' @ ?ah) @ path"
    unfolding join_path [OF h assms(4) f] d cut t if_cancel ..
  also have "\<dots> = auth_text (a\<lparr>a_tail := path\<rparr>)"
    by (simp add: auth_text_split userinfo_text_def hostport_text_def)
  finally show ?thesis
    using split_authority_roundtrip [of "a\<lparr>a_tail := path\<rparr>"] assms(1,3)
    by (simp add: well_formed_def is_auth_end_def)
qed

theorem join_origin_same_authority_witness:
  "split_authority (join_origin ''https://a.com/x'' ''/y'' True) =
   split_authority ''https://a.com/y''"
proof -
  let ?a = "\<lparr>a_scheme = ''https'', a_userinfo = None, a_host = ''a.com'', a_port = None,
    a_bracketed = False, a_tail = ''/x''\<rparr>"
  have w: "well_formed ?a" by (simp add: well_formed_def free_of_def is_auth_end_def)
  have "join_origin ''https://a.com/x'' ''/y'' True = ''https://a.com/y''" by code_simp
  moreover have "split_authority (join_origin (auth_text ?a) ''/y'' True) = ?a\<lparr>a_tail := ''/y''\<rparr>"
    by (rule join_origin_same_authority [OF w]) simp_all
  moreover have "auth_text ?a = ''https://a.com/x''" by (simp add: auth_text_def)
  ultimately show ?thesis by simp
qed

text \<open>
  A protocol-relative redirect loses its slashes when the caller trims: the result is not a
  URL of the new host.
\<close>

lemma join_origin_trim_protocol_relative:
  "join_origin ''https://a.com/x'' ''//b.io/y'' True = ''https:b.io/y'' \<and>
   join_origin ''https://a.com/x'' ''//b.io/y'' False = ''https://b.io/y''"
  by code_simp

end
