(* ===== verification/Checksum.thy ===== *)
theory Checksum
  imports Prelude
begin

text \<open>
  The checksums of \<open>crates/core-utils/src/crypto.rs\<close>: Adler-32 in blocks of 16 with deferred
  reduction, CRC-32 eight bytes at a time, and the leading-zero counts of the proof-of-work
  check. Each is shown equal to its plain definition.

  Adler sums are natural numbers; an addition that would leave \<open>u32\<close> is \<^const>\<open>None\<close> (a
  panic in a checked build, a wrong sum otherwise), and the casts of the 16-byte step are
  written out.
\<close>

section \<open>Adler-32\<close>

definition ADLER_MOD :: nat where "ADLER_MOD = 65521"
definition ADLER_NMAX :: nat where "ADLER_NMAX = 5552"

definition checked_add32 :: "nat \<Rightarrow> nat \<Rightarrow> nat option" where
  "checked_add32 a b = (if a + b < 2 ^ 32 then Some (a + b) else None)"

fun byte_sums :: "nat \<times> nat \<Rightarrow> bytes \<Rightarrow> nat \<times> nat" where
  "byte_sums (a, b) [] = (a, b)"
| "byte_sums (a, b) (x # xs) = byte_sums (a + unat x, b + (a + unat x)) xs"

definition block16_scalar :: "bytes \<Rightarrow> nat \<times> nat \<Rightarrow> nat \<times> nat" where
  "block16_scalar data ab =
     (case byte_sums ab (take 16 data) of (la, lb) \<Rightarrow> (la mod 2 ^ 32, lb mod 2 ^ 32))"

text \<open>
  The AVX2 path: \<open>_mm_sad_epu8\<close> sums each half, \<open>_mm_maddubs_epi16\<close> adds weighted pairs with
  signed 16-bit saturation and \<open>_mm_madd_epi16\<close> adds pairs of those.
\<close>

definition sad_lanes :: "bytes \<Rightarrow> nat list" where
  "sad_lanes v = [sum_list (map unat (take 8 v)), sum_list (map unat (drop 8 v))]"

definition SIMD_WEIGHTS :: "nat list" where
  "SIMD_WEIGHTS = [16, 15, 14, 13, 12, 11, 10, 9, 8, 7, 6, 5, 4, 3, 2, 1]"

definition maddubs :: "bytes \<Rightarrow> nat list \<Rightarrow> nat list" where
  "maddubs v w = map (\<lambda>i. min 32767 (unat (v ! (2 * i)) * w ! (2 * i) +
     unat (v ! (2 * i + 1)) * w ! (2 * i + 1))) [0..<8]"

definition madd_ones :: "nat list \<Rightarrow> nat list" where
  "madd_ones w = map (\<lambda>i. w ! (2 * i) + w ! (2 * i + 1)) [0..<4]"

definition block16_simd :: "bytes \<Rightarrow> nat \<times> nat \<Rightarrow> nat \<times> nat" where
  "block16_simd data ab =
     (let v = take 16 data;
          s = sum_list (sad_lanes v);
          w = sum_list (madd_ones (maddubs v SIMD_WEIGHTS));
          la = fst ab
      in ((la + s) mod 2 ^ 32, (snd ab + 16 * la + w) mod 2 ^ 32))"

definition adler32_block16 :: "bool \<Rightarrow> bytes \<Rightarrow> nat \<times> nat \<Rightarrow> nat \<times> nat" where
  "adler32_block16 avx2 data ab = (if avx2 then block16_simd data ab else block16_scalar data ab)"

fun adler_bytes :: "bytes \<Rightarrow> nat \<times> nat \<Rightarrow> (nat \<times> nat) option" where
  "adler_bytes [] ab = Some ab"
| "adler_bytes (x # xs) (a, b) =
     (case checked_add32 a (unat x) of
        None \<Rightarrow> None
      | Some a' \<Rightarrow> (case checked_add32 b a' of None \<Rightarrow> None | Some b' \<Rightarrow> adler_bytes xs (a', b')))"

function adler_block :: "bool \<Rightarrow> bytes \<Rightarrow> nat \<times> nat \<Rightarrow> (nat \<times> nat) option" where
  "adler_block avx2 block ab =
     (if 16 \<le> length block
      then adler_block avx2 (drop 16 block) (adler32_block16 avx2 (take 16 block) ab)
      else adler_bytes block ab)"
  by pat_completeness auto
termination by (relation "measure (\<lambda>(_, block, _). length block)") auto

function adler_chunks :: "bool \<Rightarrow> bytes \<Rightarrow> nat \<times> nat \<Rightarrow> (nat \<times> nat) option" where
  "adler_chunks avx2 data ab =
     (if data = [] then Some ab
      else case adler_block avx2 (take ADLER_NMAX data) ab of
             None \<Rightarrow> None
           | Some (a, b) \<Rightarrow> adler_chunks avx2 (drop ADLER_NMAX data) (a mod ADLER_MOD, b mod ADLER_MOD))"
  by pat_completeness auto
termination by (relation "measure (\<lambda>(_, data, _). length data)") (auto simp: ADLER_NMAX_def)

declare adler_block.simps [simp del] adler_chunks.simps [simp del]

definition adler_parts :: "u32 \<Rightarrow> nat \<times> nat" where
  "adler_parts state = (unat (state AND 0xFFFF), unat (drop_bit 16 state))"

definition adler_join :: "nat \<times> nat \<Rightarrow> u32" where
  "adler_join ab = push_bit 16 (word_of_nat (snd ab)) OR word_of_nat (fst ab)"

definition adler32_feed :: "bool \<Rightarrow> u32 \<Rightarrow> bytes \<Rightarrow> u32 option" where
  "adler32_feed avx2 state data = map_option adler_join (adler_chunks avx2 data (adler_parts state))"

definition adler32_zeros :: "u32 \<Rightarrow> nat \<Rightarrow> u32 option" where
  "adler32_zeros state n =
     (if n = 0 then Some state
      else let a = unat (state AND 0xFFFF); b = unat (drop_bit 16 state)
           in if b + a * n < 2 ^ 64
              then Some (push_bit 16 (word_of_nat ((b + a * n) mod ADLER_MOD)) OR (state AND 0xFFFF))
              else None)"

section \<open>CRC-32\<close>

definition crc_bit :: "u32 \<Rightarrow> u32" where
  "crc_bit c = (if c AND 1 \<noteq> 0 then 0xEDB88320 XOR drop_bit 1 c else drop_bit 1 c)"

fun crc_table :: "nat \<Rightarrow> u32 \<Rightarrow> u32" where
  "crc_table 0 i = (crc_bit ^^ 8) i"
| "crc_table (Suc s) i =
     (let p = crc_table s i in drop_bit 8 p XOR crc_table 0 (p AND 0xFF))"

definition crc_fold8 :: "u32 \<Rightarrow> u32 \<Rightarrow> u32" where
  "crc_fold8 c hi =
     crc_table 7 (c AND 0xFF) XOR
     crc_table 6 (drop_bit 8 c AND 0xFF) XOR
     crc_table 5 (drop_bit 16 c AND 0xFF) XOR
     crc_table 4 (drop_bit 24 c) XOR
     crc_table 3 (hi AND 0xFF) XOR
     crc_table 2 (drop_bit 8 hi AND 0xFF) XOR
     crc_table 1 (drop_bit 16 hi AND 0xFF) XOR
     crc_table 0 (drop_bit 24 hi)"

definition crc_byte :: "u32 \<Rightarrow> u8 \<Rightarrow> u32" where
  "crc_byte c b = drop_bit 8 c XOR crc_table 0 ((c XOR ucast b) AND 0xFF)"

definition le32 :: "u8 \<Rightarrow> u8 \<Rightarrow> u8 \<Rightarrow> u8 \<Rightarrow> u32" where
  "le32 b0 b1 b2 b3 =
     ucast b0 XOR push_bit 8 (ucast b1) XOR push_bit 16 (ucast b2) XOR push_bit 24 (ucast b3)"

fun crc32_feed :: "u32 \<Rightarrow> bytes \<Rightarrow> u32" where
  "crc32_feed c (b0 # b1 # b2 # b3 # b4 # b5 # b6 # b7 # rest) =
     crc32_feed (crc_fold8 (c XOR le32 b0 b1 b2 b3) (le32 b4 b5 b6 b7)) rest"
| "crc32_feed c rest = foldl crc_byte c rest"

section \<open>Leading zeros\<close>

definition leading_zeros :: "u32 \<Rightarrow> nat" where
  "leading_zeros w = length (takeWhile Not (rev (map (bit w) [0..<32])))"

fun lz_carry_chain_loop :: "nat \<Rightarrow> nat \<Rightarrow> (nat \<times> bool) list \<Rightarrow> nat" where
  "lz_carry_chain_loop acc carry [] = acc"
| "lz_carry_chain_loop acc carry ((lz, zero) # ps) =
     (let acc = acc + carry * lz; carry = (if zero then carry else 0)
      in if carry = 0 then acc else lz_carry_chain_loop acc carry ps)"

definition lz_carry_chain :: "(nat \<times> bool) list \<Rightarrow> nat" where
  "lz_carry_chain ps = lz_carry_chain_loop 0 1 ps"

fun lz_words_loop :: "nat \<Rightarrow> nat \<Rightarrow> u32 list \<Rightarrow> nat" where
  "lz_words_loop acc carry [] = acc"
| "lz_words_loop acc carry (w # ws) =
     lz_words_loop (acc + carry * leading_zeros w) (if w = 0 then carry else 0) ws"

definition lz_words_be :: "u32 list \<Rightarrow> nat" where
  "lz_words_be ws = lz_words_loop 0 1 (take 8 ws)"

text \<open>
  The AVX-512 batch: sixteen counts and a 16-bit mask of the zero words, one byte of the mask
  and eight counts for each digest.
\<close>

definition zero_mask16 :: "u32 list \<Rightarrow> u16" where
  "zero_mask16 v = horner_sum of_bool 2 (map (\<lambda>w. w = 0) v)"

definition lz_group :: "u32 list \<Rightarrow> nat \<Rightarrow> nat" where
  "lz_group v g =
     (let zm = (ucast (drop_bit (g * 8) (zero_mask16 v)) :: u8)
      in lz_carry_chain (map (\<lambda>i. (leading_zeros (v ! (g * 8 + i)), bit zm i)) [0..<8]))"

definition lz_batch16 :: "u32 list \<Rightarrow> nat list" where
  "lz_batch16 v = [lz_group v 0, lz_group v 1]"

definition lz_batch16_ref :: "u32 list \<Rightarrow> u32 list \<Rightarrow> nat list" where
  "lz_batch16_ref w0 w1 = lz_batch16 (w0 @ w1)"

section \<open>Adler-32 is the sum of its definition\<close>

definition adler_ref :: "nat \<times> nat \<Rightarrow> bytes \<Rightarrow> nat \<times> nat" where
  "adler_ref = foldl (\<lambda>(a, b) x.
     ((a + unat x) mod ADLER_MOD, (b + (a + unat x)) mod ADLER_MOD))"

lemma byte_sums_append: "byte_sums ab (xs @ ys) = byte_sums (byte_sums ab xs) ys"
  by (induction ab xs rule: byte_sums.induct) auto

lemma byte_sums_mono:
  "byte_sums (a, b) xs = (a', b') \<Longrightarrow> a \<le> a' \<and> b \<le> b'"
  by (induction xs arbitrary: a b) (auto dest: add_leD1)

lemma byte_sums_bound:
  "byte_sums (a, b) xs = (a', b') \<Longrightarrow> length xs = n \<Longrightarrow>
   a' \<le> a + 255 * n \<and> 2 * b' \<le> 2 * b + 2 * n * a + 255 * (n * (n + 1))"
proof (induction xs arbitrary: a b n)
  case (Cons x xs)
  obtain k where n: "n = Suc k" "length xs = k" using Cons.prems(2) by auto
  have x: "unat x \<le> 255" using unat_less_pow(1) [of x] by simp
  have ih: "a' \<le> a + unat x + 255 * k"
    "2 * b' \<le> 2 * (b + (a + unat x)) + 2 * k * (a + unat x) + 255 * (k * (k + 1))"
    using Cons.IH [OF Cons.prems(1) [unfolded byte_sums.simps] n(2)] by auto
  have "(2 + 2 * k) * unat x \<le> (2 + 2 * k) * 255" using x by (rule mult_le_mono2)
  then have "2 * b' \<le> 2 * b + 2 * n * a + 255 * (n * (n + 1))"
    using ih(2) by (simp add: n(1) algebra_simps)
  then show ?case using ih(1) x n(1) by simp
qed simp

lemma list16:
  assumes "length v = 16"
  obtains a b c d e f g h i j k l m n p q where "v = [a, b, c, d, e, f, g, h, i, j, k, l, m, n, p, q]"
proof -
  have "\<exists>a b c d e f g h i j k l m n p q. v = [a, b, c, d, e, f, g, h, i, j, k, l, m, n, p, q]"
    using assms by (auto simp: numeral_eq_Suc length_Suc_conv)
  then show ?thesis using that by blast
qed

lemma block16_simd_scalar:
  assumes "length v = 16"
  shows "block16_simd v ab = block16_scalar v ab"
proof -
  obtain a b c d e f g h i j k l m n p q where
    v: "v = [a, b, c, d, e, f, g, h, i, j, k, l, m, n, p, q]"
    using list16 [OF assms] by blast
  note u = unat_less_pow(1)
  have pair: "min 32767 (unat x * s + unat y * t) = unat x * s + unat y * t"
    if "s \<le> 16" "t \<le> 16" for x y :: u8 and s t
  proof -
    have "unat x * s \<le> 255 * 16" "unat y * t \<le> 255 * 16"
      using u [of x] u [of y] that by (intro mult_le_mono; simp)+
    then show ?thesis by simp
  qed
  obtain la lb where ab: "ab = (la, lb)" by fastforce
  have w: "maddubs v SIMD_WEIGHTS = [unat a * 16 + unat b * 15, unat c * 14 + unat d * 13,
      unat e * 12 + unat f * 11, unat g * 10 + unat h * 9, unat i * 8 + unat j * 7,
      unat k * 6 + unat l * 5, unat m * 4 + unat n * 3, unat p * 2 + unat q * 1]"
    unfolding maddubs_def SIMD_WEIGHTS_def v using pair [of 2 1 p q] by (simp add: upt_rec pair del: min_def)
  have m: "madd_ones (maddubs v SIMD_WEIGHTS) = [unat a * 16 + unat b * 15 + (unat c * 14 + unat d * 13),
      unat e * 12 + unat f * 11 + (unat g * 10 + unat h * 9),
      unat i * 8 + unat j * 7 + (unat k * 6 + unat l * 5),
      unat m * 4 + unat n * 3 + (unat p * 2 + unat q * 1)]"
    unfolding w madd_ones_def by (simp add: upt_rec)
  have bs: "byte_sums (la, lb) v = (la + sum_list (sad_lanes v),
      lb + 16 * la + sum_list (madd_ones (maddubs v SIMD_WEIGHTS)))"
    unfolding m sad_lanes_def unfolding v
    by (simp only: byte_sums.simps prod.inject, intro conjI; simp)
  show ?thesis
    using assms by (simp add: block16_simd_def block16_scalar_def Let_def ab bs)
qed

lemma adler_block_sums:
  assumes "byte_sums ab block = (a', b')" and "a' < 2 ^ 32" and "b' < 2 ^ 32"
  shows "adler_block avx2 block ab = Some (a', b')"
  using assms(1)
proof (induction avx2 block ab rule: adler_block.induct)
  case (1 avx2 block ab)
  have bytes: "adler_bytes xs st = Some (a', b')" if "byte_sums st xs = (a', b')" for xs st
    using that
  proof (induction xs st rule: adler_bytes.induct)
    case (2 x xs a b)
    then have "a + unat x \<le> a' \<and> b + (a + unat x) \<le> b'"
      using byte_sums_mono [of "a + unat x" "b + (a + unat x)" xs] by simp
    then show ?case using 2 assms(2,3) by (simp add: checked_add32_def)
  next
    case (1 ab)
    then show ?case by (cases ab) simp
  qed
  show ?case
  proof (cases "16 \<le> length block")
    case True
    let ?st = "byte_sums ab (take 16 block)"
    have nx: "byte_sums ?st (drop 16 block) = (a', b')"
      using 1(2) byte_sums_append [of ab "take 16 block" "drop 16 block"] by simp
    then have "fst ?st \<le> a' \<and> snd ?st \<le> b'" by (metis byte_sums_mono prod.collapse)
    then have "block16_scalar (take 16 block) ab = ?st"
      using assms(2,3) by (auto simp: block16_scalar_def split: prod.split)
    then have "adler32_block16 avx2 (take 16 block) ab = ?st"
      using True block16_simd_scalar [of "take 16 block" ab] by (simp add: adler32_block16_def)
    then show ?thesis using 1(1) True nx by (subst adler_block.simps) simp
  next
    case False
    then show ?thesis using bytes 1(2) by (subst adler_block.simps) simp
  qed
qed

lemma adler_ref_sums:
  "byte_sums (a, b) xs = (a', b') \<Longrightarrow>
   adler_ref (a mod ADLER_MOD, b mod ADLER_MOD) xs = (a' mod ADLER_MOD, b' mod ADLER_MOD)"
proof (induction xs arbitrary: a b)
  case (Cons x xs)
  have "(b mod ADLER_MOD + (a mod ADLER_MOD + unat x)) mod ADLER_MOD = (b + (a + unat x)) mod ADLER_MOD"
    by (metis mod_add_left_eq mod_add_right_eq)
  then show ?case using Cons by (simp add: adler_ref_def mod_add_left_eq)
qed (simp add: adler_ref_def)

lemma adler_ref_append: "adler_ref ab (xs @ ys) = adler_ref (adler_ref ab xs) ys"
  by (simp add: adler_ref_def)

lemma adler_chunks_ref:
  "fst ab < ADLER_MOD \<Longrightarrow> snd ab < ADLER_MOD \<Longrightarrow>
   adler_chunks avx2 data ab = Some (adler_ref ab data)"
proof (induction avx2 data ab rule: adler_chunks.induct)
  case (1 avx2 data ab)
  obtain a b where ab: "ab = (a, b)" by fastforce
  show ?case
  proof (cases "data = []")
    case True
    then show ?thesis by (subst adler_chunks.simps) (simp add: adler_ref_def)
  next
    case False
    let ?blk = "take ADLER_NMAX data"
    obtain a' b' where s: "byte_sums (a, b) ?blk = (a', b')" by fastforce
    have n: "length ?blk \<le> 5552" by (simp add: ADLER_NMAX_def)
    have "2 * b' \<le> 2 * b + 2 * length ?blk * a + 255 * (length ?blk * (length ?blk + 1))"
      "a' \<le> a + 255 * length ?blk"
      using byte_sums_bound [OF s refl] by simp_all
    moreover have "length ?blk * a \<le> 5552 * 65520"
      using 1(2) n by (intro mult_le_mono) (auto simp: ab ADLER_MOD_def)
    moreover have "length ?blk * (length ?blk + 1) \<le> 5552 * 5553"
      using n by (intro mult_le_mono) simp_all
    ultimately have lt: "a' < 2 ^ 32" "b' < 2 ^ 32"
      using 1(2,3) n by (simp_all add: ab ADLER_MOD_def)
    have r: "adler_ref (a, b) ?blk = (a' mod ADLER_MOD, b' mod ADLER_MOD)"
      using adler_ref_sums [OF s] 1(2,3) by (simp add: ab)
    have "adler_chunks avx2 data (a, b) =
        adler_chunks avx2 (drop ADLER_NMAX data) (a' mod ADLER_MOD, b' mod ADLER_MOD)"
      using False adler_block_sums [OF s lt] by (subst adler_chunks.simps) simp
    also have "\<dots> = Some (adler_ref (a' mod ADLER_MOD, b' mod ADLER_MOD) (drop ADLER_NMAX data))"
      using 1(1) [OF False, of _ a' b'] adler_block_sums [OF s lt] by (simp add: ab ADLER_MOD_def)
    also have "\<dots> = Some (adler_ref (a, b) data)"
      unfolding r [symmetric] adler_ref_append [symmetric] by simp
    finally show ?thesis by (simp add: ab)
  qed
qed

text \<open>
  C23: on every checksum state the deferred-reduction feed, with or without the vector path,
  never overflows its 32-bit sums and computes the byte-by-byte Adler-32; feeding zeros has
  the closed form of \<open>adler32_zeros\<close>.
\<close>

theorem adler32_feed_correct:
  assumes "adler_parts st = (a, b)" and "a < 65521" and "b < 65521"
  shows "adler32_feed avx2 st data = Some (adler_join (adler_ref (a, b) data)) \<and>
    (n < 2 ^ 32 \<longrightarrow> adler32_zeros st n = Some (adler_join (adler_ref (a, b) (replicate n 0))))"
proof
  show "adler32_feed avx2 st data = Some (adler_join (adler_ref (a, b) data))"
    using assms adler_chunks_ref [of "(a, b)" avx2 data] by (simp add: adler32_feed_def ADLER_MOD_def)
  have z: "adler_ref (a, b) (replicate n 0) = (a, (b + a * n) mod ADLER_MOD)"
  proof (induction n)
    case (Suc n)
    have "adler_ref (a, b) (replicate (Suc n) 0) = adler_ref (adler_ref (a, b) (replicate n 0)) [0]"
      by (simp add: adler_ref_append [symmetric] replicate_append_same)
    also have "\<dots> = (a, (b + a * Suc n) mod ADLER_MOD)"
      unfolding Suc using assms(2) by (simp add: adler_ref_def ADLER_MOD_def mod_add_right_eq algebra_simps)
    finally show ?case .
  qed (use assms in \<open>simp add: adler_ref_def ADLER_MOD_def\<close>)
  have p: "unat (st AND 0xFFFF) = a" "unat (drop_bit 16 st) = b"
    using assms(1) by (simp_all add: adler_parts_def)
  have w: "st AND 0xFFFF = word_of_nat a" by (simp flip: p(1))
  show "n < 2 ^ 32 \<longrightarrow> adler32_zeros st n = Some (adler_join (adler_ref (a, b) (replicate n 0)))"
  proof
    assume n: "n < 2 ^ 32"
    have "a * n \<le> 65520 * 2 ^ 32" using assms(2) n by (intro mult_le_mono) simp_all
    then have lt: "b + a * n < 2 ^ 64" using assms(3) by simp
    show "adler32_zeros st n = Some (adler_join (adler_ref (a, b) (replicate n 0)))"
    proof (cases "n = 0")
      case True
      have "push_bit 16 (drop_bit 16 st) OR (st AND 0xFFFF) = st"
      proof (rule bit_word_eqI)
        fix i
        assume "i < LENGTH(32)"
        have "bit (0xFFFF :: u32) i \<longleftrightarrow> i < 16"
          using bit_mask_iff [where 'a = u32, of 16 i] \<open>i < LENGTH(32)\<close> by (simp add: mask_eq_exp_minus_1)
        then show "bit (push_bit 16 (drop_bit 16 st) OR (st AND 0xFFFF)) i = bit st i"
          using \<open>i < LENGTH(32)\<close> by (auto simp: bit_or_iff bit_and_iff bit_push_bit_iff bit_drop_bit_eq)
      qed
      then show ?thesis using True
        by (simp add: adler32_zeros_def adler_join_def adler_ref_def w flip: p(2))
    next
      case False
      then have "adler32_zeros st n =
          Some (push_bit 16 (word_of_nat ((b + a * n) mod ADLER_MOD)) OR (st AND 0xFFFF))"
        using lt by (simp add: adler32_zeros_def p)
      then show ?thesis by (simp add: z adler_join_def w)
    qed
  qed
qed

theorem adler32_feed_correct_witness:
  "adler_parts 1 = (1, 0) \<and>
   adler32_feed True 1 [97, 98, 99] = Some (adler_join (adler_ref (1, 0) [97, 98, 99])) \<and>
   adler32_zeros 1 5 = Some (adler_join (adler_ref (1, 0) (replicate 5 0)))"
proof -
  have p: "adler_parts 1 = (1, 0)" by (simp add: adler_parts_def)
  show ?thesis
    using p adler32_feed_correct [OF p, of True "[97, 98, 99]" 5] by simp
qed

text \<open>Outside the reduced states the closed form keeps the low half as it is.\<close>

lemma adler32_zeros_unreduced:
  "adler32_zeros 65535 1 \<noteq> adler32_feed False 65535 [0]"
  by (simp add: adler32_zeros_def adler32_feed_def adler_parts_def adler_join_def ADLER_MOD_def
      ADLER_NMAX_def adler_chunks.simps adler_block.simps checked_add32_def)

section \<open>CRC-32 is the bitwise division\<close>

definition crc_bitwise :: "u32 \<Rightarrow> bytes \<Rightarrow> u32" where
  "crc_bitwise = foldl (\<lambda>c b. (crc_bit ^^ 8) (c XOR ucast b))"

lemma crc_bit_xor: "crc_bit (x XOR y) = crc_bit x XOR crc_bit y"
proof -
  have o: "(z :: u32) AND 1 \<noteq> 0 \<longleftrightarrow> bit z 0" for z
    using and_exp_eq_0_iff_not_bit [of z 0] by simp
  have "drop_bit 1 (x XOR y) = drop_bit 1 x XOR drop_bit 1 y" by (rule drop_bit_xor)
  then show ?thesis
    unfolding crc_bit_def o bit_xor_iff
    by (cases "bit x 0"; cases "bit y 0")
       (simp_all only: if_True if_False simp_thms xor.assoc xor.commute xor.left_commute
         xor_left_self xor_self_eq xor.right_neutral xor.left_neutral)
qed

lemma crc_steps_xor: "(crc_bit ^^ n) (x XOR y) = (crc_bit ^^ n) x XOR (crc_bit ^^ n) y"
  by (induction n) (simp_all add: crc_bit_xor)

lemma crc_steps_zero [simp]: "(crc_bit ^^ n) 0 = 0"
  by (induction n) (simp_all add: crc_bit_def)

lemma crc_steps_shift:
  "take_bit n x = 0 \<Longrightarrow> (crc_bit ^^ n) x = drop_bit n x"
proof (induction n arbitrary: x)
  case (Suc n)
  have "\<not> bit (take_bit (Suc n) x) 0" using Suc.prems by simp
  then have "\<not> bit x 0" by (simp add: bit_take_bit_iff)
  then have e: "crc_bit x = drop_bit 1 x"
    using and_exp_eq_0_iff_not_bit [of x 0] by (simp add: crc_bit_def)
  have "take_bit n (drop_bit 1 x) = drop_bit 1 (take_bit (Suc n) x)"
    by (simp add: take_bit_drop_bit)
  then have "take_bit n (drop_bit 1 x) = 0" using Suc.prems by simp
  then show ?case using Suc.IH [of "drop_bit 1 x"]
    by (simp add: funpow_Suc_right e drop_bit_drop_bit del: funpow.simps)
qed simp

lemma take_bit_8: "(x :: u32) AND 0xFF = take_bit 8 x"
  by (simp add: take_bit_eq_mask mask_eq_exp_minus_1)

lemma xor_take_drop: "take_bit n x XOR push_bit n (drop_bit n x) = (x :: u32)"
  by (rule bit_word_eqI) (auto simp: bit_xor_iff bit_take_bit_iff bit_push_bit_iff bit_drop_bit_eq)

lemma crc_steps_split:
  "(crc_bit ^^ n) x = drop_bit n x XOR (crc_bit ^^ n) (take_bit n x)"
proof -
  have "take_bit n (push_bit n (drop_bit n x)) = 0" by (simp add: take_bit_push_bit)
  then have "(crc_bit ^^ n) (push_bit n (drop_bit n x)) = drop_bit n (push_bit n (drop_bit n x))"
    by (rule crc_steps_shift)
  also have "\<dots> = drop_bit n x"
    by (rule bit_word_eqI) (auto simp: bit_push_bit_iff bit_drop_bit_eq dest: bit_imp_le_length)
  finally show ?thesis using crc_steps_xor [of n "take_bit n x" "push_bit n (drop_bit n x)"]
    by (simp add: xor_take_drop xor.commute)
qed

lemma crc_table_steps: "crc_table s i = (crc_bit ^^ (8 * (s + 1))) i"
proof (induction s arbitrary: i)
  case (Suc s)
  have "crc_table (Suc s) i = (crc_bit ^^ 8) (crc_table s i)"
    by (simp add: Let_def take_bit_8 crc_steps_split [of 8 "crc_table s i"])
  also have "\<dots> = (crc_bit ^^ (8 + 8 * (s + 1))) i" by (simp only: Suc funpow_add comp_apply)
  finally show ?case by simp
qed simp

declare crc_table.simps [simp del]

lemma crc_byte_steps: "crc_byte c b = (crc_bit ^^ 8) (c XOR ucast b)"
proof -
  have "drop_bit 8 (ucast b :: u32) = 0"
    by (rule bit_word_eqI) (auto simp: bit_drop_bit_eq bit_ucast_iff dest: bit_imp_le_length)
  then have "drop_bit 8 (c XOR ucast b) = drop_bit 8 c" by (simp add: drop_bit_xor)
  then show ?thesis
    using crc_steps_split [of 8 "c XOR ucast b"] by (simp add: crc_byte_def crc_table_steps take_bit_8)
qed

text \<open>The bytes of a word, folded: \<open>crc_bit\<close> is linear and shifts zero low bits out.\<close>

lemma crc_steps_bytes:
  "(crc_bit ^^ (n + 24)) c =
     (crc_bit ^^ (n + 24)) (take_bit 8 c) XOR
     (crc_bit ^^ (n + 16)) (take_bit 8 (drop_bit 8 c)) XOR
     (crc_bit ^^ (n + 8)) (take_bit 8 (drop_bit 16 c)) XOR
     (crc_bit ^^ n) (drop_bit 24 c)"
proof -
  have s: "(crc_bit ^^ (m + 8)) x =
      (crc_bit ^^ (m + 8)) (take_bit 8 x) XOR (crc_bit ^^ m) (drop_bit 8 x)" for m x
    using crc_steps_split [of 8 x] crc_steps_xor [of m]
    by (simp add: funpow_add xor.commute)
  have "(crc_bit ^^ (n + 24)) c = (crc_bit ^^ (n + 24)) (take_bit 8 c) XOR (crc_bit ^^ (n + 16)) (drop_bit 8 c)"
    using s [of "n + 16" c] by (simp add: add.assoc)
  also have "(crc_bit ^^ (n + 16)) (drop_bit 8 c) =
      (crc_bit ^^ (n + 16)) (take_bit 8 (drop_bit 8 c)) XOR (crc_bit ^^ (n + 8)) (drop_bit 16 c)"
    using s [of "n + 8" "drop_bit 8 c"] by (simp add: add.assoc drop_bit_drop_bit)
  also have "(crc_bit ^^ (n + 8)) (drop_bit 16 c) =
      (crc_bit ^^ (n + 8)) (take_bit 8 (drop_bit 16 c)) XOR (crc_bit ^^ n) (drop_bit 24 c)"
    using s [of n "drop_bit 16 c"] by (simp add: drop_bit_drop_bit)
  finally show ?thesis by (simp add: xor.assoc)
qed

lemma crc_fold8_steps: "crc_fold8 c hi = (crc_bit ^^ 32) ((crc_bit ^^ 32) c XOR hi)"
proof -
  have c: "(crc_bit ^^ 64) c = (crc_bit ^^ 64) (take_bit 8 c) XOR (crc_bit ^^ 56) (take_bit 8 (drop_bit 8 c))
      XOR (crc_bit ^^ 48) (take_bit 8 (drop_bit 16 c)) XOR (crc_bit ^^ 40) (drop_bit 24 c)"
    using crc_steps_bytes [of 40 c] by simp
  have h: "(crc_bit ^^ 32) hi = (crc_bit ^^ 32) (take_bit 8 hi) XOR (crc_bit ^^ 24) (take_bit 8 (drop_bit 8 hi))
      XOR (crc_bit ^^ 16) (take_bit 8 (drop_bit 16 hi)) XOR (crc_bit ^^ 8) (drop_bit 24 hi)"
    using crc_steps_bytes [of 8 hi] by simp
  have "crc_fold8 c hi = (crc_bit ^^ 64) c XOR (crc_bit ^^ 32) hi"
    by (simp add: crc_fold8_def crc_table_steps take_bit_8 c h xor.assoc)
  moreover have "(crc_bit ^^ 64) c = (crc_bit ^^ 32) ((crc_bit ^^ 32) c)"
    using funpow_add [of 32 32 crc_bit] by simp
  ultimately show ?thesis by (simp add: crc_steps_xor)
qed

lemma crc_push_byte:
  "k \<le> 3 \<Longrightarrow> (crc_bit ^^ (8 * k)) (push_bit (8 * k) (ucast b)) = (ucast (b :: u8) :: u32)"
proof -
  assume k: "k \<le> 3"
  have "(crc_bit ^^ (8 * k)) (push_bit (8 * k) (ucast b)) = drop_bit (8 * k) (push_bit (8 * k) (ucast b :: u32))"
    by (rule crc_steps_shift) (simp add: take_bit_push_bit)
  also have "\<dots> = ucast b"
    using k by (intro bit_word_eqI) (auto simp: bit_drop_bit_eq bit_push_bit_iff bit_ucast_iff
        dest: bit_imp_le_length)
  finally show ?thesis .
qed

lemma crc_four_bytes:
  "foldl crc_byte c [b0, b1, b2, b3] = (crc_bit ^^ 32) (c XOR le32 b0 b1 b2 b3)"
proof -
  let ?s = "\<lambda>k. crc_bit ^^ k"
  have r: "?s 32 x = ?s 8 (?s 8 (?s 8 (?s 8 x)))" for x
    using funpow_add [of 8 24 crc_bit] funpow_add [of 8 16 crc_bit] funpow_add [of 8 8 crc_bit] by simp
  have p: "?s 8 (push_bit 8 (ucast b1)) = ucast b1"
    "?s 8 (?s 8 (push_bit 16 (ucast b2))) = ucast b2"
    "?s 8 (?s 8 (?s 8 (push_bit 24 (ucast b3)))) = ucast b3"
    using crc_push_byte [of 1 b1] crc_push_byte [of 2 b2] crc_push_byte [of 3 b3]
      funpow_add [of 8 8 crc_bit] funpow_add [of 8 16 crc_bit] by simp_all
  show ?thesis
    by (simp add: crc_byte_steps r le32_def crc_steps_xor p xor.assoc)
qed

text \<open>
  C22: CRC-32 by eight tables at a time is the bitwise division by the reflected polynomial,
  for every state and every input length.
\<close>

theorem crc32_feed_bitwise: "crc32_feed c data = crc_bitwise c data"
proof -
  have b: "foldl crc_byte c xs = crc_bitwise c xs" for c xs
    unfolding crc_bitwise_def by (simp add: crc_byte_steps [abs_def])
  show ?thesis
  proof (induction c data rule: crc32_feed.induct)
    case (1 c b0 b1 b2 b3 b4 b5 b6 b7 rest)
    have "crc_fold8 (c XOR le32 b0 b1 b2 b3) (le32 b4 b5 b6 b7) =
        foldl crc_byte c ([b0, b1, b2, b3] @ [b4, b5, b6, b7])"
      unfolding foldl_append crc_four_bytes crc_fold8_steps ..
    then have "crc32_feed c (b0 # b1 # b2 # b3 # b4 # b5 # b6 # b7 # rest) =
        crc_bitwise (crc_bitwise c ([b0, b1, b2, b3] @ [b4, b5, b6, b7])) rest"
      using 1 by (simp only: b crc32_feed.simps)
    then show ?case by (simp add: crc_bitwise_def)
  qed (simp_all only: b crc32_feed.simps)
qed

section \<open>Leading zeros of a digest\<close>

definition bits_be :: "u32 \<Rightarrow> bool list" where
  "bits_be w = rev (map (bit w) [0..<32])"

definition digest_zeros :: "u32 list \<Rightarrow> nat" where
  "digest_zeros ws = length (takeWhile Not (concat (map bits_be ws)))"

lemma bits_be_zero: "w = 0 \<longleftrightarrow> (\<forall>x \<in> set (bits_be w). \<not> x)"
  unfolding bits_be_def using bit_word_eqI [of w 0] by auto

lemma digest_zeros_Cons:
  "digest_zeros (w # ws) = leading_zeros w + (if w = 0 then digest_zeros ws else 0)"
proof (cases "w = 0")
  case True
  then have "takeWhile Not (bits_be w @ concat (map bits_be ws)) =
      bits_be w @ takeWhile Not (concat (map bits_be ws))"
    using bits_be_zero [of w] by (intro takeWhile_append2) auto
  moreover have "leading_zeros w = length (bits_be w)"
  proof -
    have "takeWhile Not (bits_be w) = bits_be w"
      using True bits_be_zero [of w] takeWhile_eq_all_conv [of Not "bits_be w"] by blast
    then show ?thesis unfolding leading_zeros_def bits_be_def by (rule arg_cong)
  qed
  ultimately show ?thesis using True by (simp add: digest_zeros_def)
next
  case False
  then obtain x where "x \<in> set (bits_be w)" "x" using bits_be_zero [of w] by auto
  then have "takeWhile Not (bits_be w @ concat (map bits_be ws)) = takeWhile Not (bits_be w)"
    by (intro takeWhile_append1) auto
  then show ?thesis using False by (simp add: digest_zeros_def leading_zeros_def bits_be_def)
qed

lemma lz_words_loop_0: "lz_words_loop acc 0 ws = acc"
  by (induction ws) auto

lemma lz_words_loop_1: "lz_words_loop acc 1 ws = acc + digest_zeros ws"
  by (induction ws arbitrary: acc)
     (auto simp: digest_zeros_Cons lz_words_loop_0 digest_zeros_def [of "[]"])

lemma lz_carry_chain_words:
  "lz_carry_chain (map (\<lambda>w. (leading_zeros w, w = 0)) ws) = digest_zeros ws"
proof -
  have "lz_carry_chain_loop acc 1 (map (\<lambda>w. (leading_zeros w, w = 0)) ws) = acc + digest_zeros ws" for acc
    by (induction ws arbitrary: acc) (auto simp: digest_zeros_Cons digest_zeros_def [of "[]"] Let_def)
  from this [of 0] show ?thesis by (simp add: lz_carry_chain_def)
qed

lemma bit_zero_mask16:
  "length v \<le> 16 \<Longrightarrow> bit (zero_mask16 v) i \<longleftrightarrow> i < length v \<and> v ! i = 0"
  unfolding zero_mask16_def bit_horner_sum_bit_iff by auto

lemma lz_group_words:
  assumes "length v = 16" and "g < 2"
  shows "lz_group v g = digest_zeros (take 8 (drop (g * 8) v))"
proof -
  let ?ws = "take 8 (drop (g * 8) v)"
  have b: "bit (ucast (drop_bit (g * 8) (zero_mask16 v)) :: u8) i \<longleftrightarrow> v ! (g * 8 + i) = 0" if "i < 8" for i
    using assms that by (simp add: bit_ucast_iff bit_drop_bit_eq bit_zero_mask16 add.commute)
  have "map (\<lambda>i. (leading_zeros (v ! (g * 8 + i)), bit (ucast (drop_bit (g * 8) (zero_mask16 v)) :: u8) i)) [0..<8]
      = map (\<lambda>i. (leading_zeros (v ! (g * 8 + i)), v ! (g * 8 + i) = 0)) [0..<8]"
    by (rule map_cong) (auto simp: b)
  also have "\<dots> = map (\<lambda>w. (leading_zeros w, w = 0)) (map (\<lambda>i. v ! (g * 8 + i)) [0..<8])" by simp
  also have "map (\<lambda>i. v ! (g * 8 + i)) [0..<8] = ?ws"
    using assms by (intro nth_equalityI) auto
  finally show ?thesis by (simp add: lz_group_def Let_def lz_carry_chain_words)
qed

lemma lz_words_be_digest: "length w = 8 \<Longrightarrow> lz_words_be w = digest_zeros w"
  using lz_words_loop_1 [of 0 w] by (simp add: lz_words_be_def)

lemma lz_batch16_ref_words:
  "length w0 = 8 \<Longrightarrow> length w1 = 8 \<Longrightarrow> lz_batch16_ref w0 w1 = [lz_words_be w0, lz_words_be w1]"
  using lz_group_words [of "w0 @ w1" 0] lz_group_words [of "w0 @ w1" 1]
  by (simp add: lz_batch16_ref_def lz_batch16_def lz_words_be_digest)

text \<open>
  The difficulty of a digest, by the word loop or by the vector batch of two digests, is
  the number of leading zero bits of its 256-bit big-endian value.
\<close>

lemma leading_zero_bits:
  assumes "length w0 = 8" and "length w1 = 8"
  shows "lz_words_be w0 = digest_zeros w0 \<and>
    lz_batch16_ref w0 w1 = [lz_words_be w0, lz_words_be w1]"
  using assms by (simp add: lz_words_be_digest lz_batch16_ref_words)

lemma leading_zero_bits_example:
  "lz_batch16_ref [0, 1, 0, 0, 0, 0, 0, 0] [2 ^ 31, 0, 0, 0, 0, 0, 0, 0] =
   [digest_zeros [0, 1, 0, 0, 0, 0, 0, 0], digest_zeros [2 ^ 31, 0, 0, 0, 0, 0, 0, 0]]"
  using leading_zero_bits [of "[0, 1, 0, 0, 0, 0, 0, 0]" "[2 ^ 31, 0, 0, 0, 0, 0, 0, 0]"]
    leading_zero_bits [of "[2 ^ 31, 0, 0, 0, 0, 0, 0, 0]" "[0, 1, 0, 0, 0, 0, 0, 0]"]
  by (simp del: power_numeral)

end
