(* ===== verification/Blake2b.thy ===== *)
theory Blake2b
  imports Prelude
begin

text \<open>
  The portable BLAKE2b of \<open>crates/core-utils/src/crypto.rs\<close>: constants, mixing, compression,
  the buffered hasher and the variable-length hash of Argon2. The hasher is related to the
  block sequence of RFC 7693, the variable-length hash to the function \<open>H'\<close> of RFC 9106.

  A slice operation out of range, a failed \<open>assert!\<close> and a \<open>usize\<close> subtraction below zero
  are \<^const>\<open>None\<close>.
\<close>

section \<open>Compression\<close>

definition BLAKE2B_IV :: "u64 list" where
  "BLAKE2B_IV = [0x6a09e667f3bcc908, 0xbb67ae8584caa73b, 0x3c6ef372fe94f82b, 0xa54ff53a5f1d36f1,
                 0x510e527fade682d1, 0x9b05688c2b3e6c1f, 0x1f83d9abfb41bd6b, 0x5be0cd19137e2179]"

definition BLAKE2B_SIGMA :: "nat list list" where
  "BLAKE2B_SIGMA = [
    [0, 1, 2, 3, 4, 5, 6, 7, 8, 9, 10, 11, 12, 13, 14, 15],
    [14, 10, 4, 8, 9, 15, 13, 6, 1, 12, 0, 2, 11, 7, 5, 3],
    [11, 8, 12, 0, 5, 2, 15, 13, 10, 14, 3, 6, 7, 1, 9, 4],
    [7, 9, 3, 1, 13, 12, 11, 14, 2, 6, 5, 10, 4, 0, 15, 8],
    [9, 0, 5, 7, 2, 4, 10, 15, 14, 1, 11, 12, 6, 8, 3, 13],
    [2, 12, 6, 10, 0, 11, 8, 3, 4, 13, 7, 5, 15, 14, 1, 9],
    [12, 5, 1, 15, 14, 13, 4, 10, 0, 7, 6, 3, 9, 2, 8, 11],
    [13, 11, 7, 14, 12, 1, 3, 9, 5, 0, 15, 4, 8, 6, 2, 10],
    [6, 15, 14, 9, 11, 3, 0, 8, 12, 2, 13, 7, 1, 4, 10, 5],
    [10, 2, 8, 4, 7, 6, 1, 5, 15, 11, 9, 14, 3, 12, 13, 0],
    [0, 1, 2, 3, 4, 5, 6, 7, 8, 9, 10, 11, 12, 13, 14, 15],
    [14, 10, 4, 8, 9, 15, 13, 6, 1, 12, 0, 2, 11, 7, 5, 3]]"

definition BLAKE2B_G_COLS :: "nat list list" where
  "BLAKE2B_G_COLS = [[0, 4, 8, 12], [1, 5, 9, 13], [2, 6, 10, 14], [3, 7, 11, 15],
                     [0, 5, 10, 15], [1, 6, 11, 12], [2, 7, 8, 13], [3, 4, 9, 14]]"

definition blake2b_g_col ::
  "(u64 \<Rightarrow> u64 \<Rightarrow> u64 \<Rightarrow> u64) \<Rightarrow> u64 list \<Rightarrow> nat \<Rightarrow> nat \<Rightarrow> nat \<Rightarrow> nat \<Rightarrow> u64 \<Rightarrow> u64 \<Rightarrow> u64 list" where
  "blake2b_g_col f v a b c d x y =
     (let v = v[a := f (v ! a) (v ! b) x];
          v = v[d := word_rotr 32 (v ! d XOR v ! a)];
          v = v[c := f (v ! c) (v ! d) 0];
          v = v[b := word_rotr 24 (v ! b XOR v ! c)];
          v = v[a := f (v ! a) (v ! b) y];
          v = v[d := word_rotr 16 (v ! d XOR v ! a)];
          v = v[c := f (v ! c) (v ! d) 0]
      in v[b := word_rotr 63 (v ! b XOR v ! c)])"

definition blake2b_g :: "u64 list \<Rightarrow> nat \<Rightarrow> nat \<Rightarrow> nat \<Rightarrow> nat \<Rightarrow> u64 \<Rightarrow> u64 \<Rightarrow> u64 list" where
  "blake2b_g v a b c d x y = blake2b_g_col (\<lambda>p q m. p + q + m) v a b c d x y"

definition blake2b_round :: "u64 list \<Rightarrow> u64 list \<Rightarrow> nat list \<Rightarrow> u64 list" where
  "blake2b_round m v s =
     (let v = blake2b_g v 0 4 8 12 (m ! (s ! 0)) (m ! (s ! 1));
          v = blake2b_g v 1 5 9 13 (m ! (s ! 2)) (m ! (s ! 3));
          v = blake2b_g v 2 6 10 14 (m ! (s ! 4)) (m ! (s ! 5));
          v = blake2b_g v 3 7 11 15 (m ! (s ! 6)) (m ! (s ! 7));
          v = blake2b_g v 0 5 10 15 (m ! (s ! 8)) (m ! (s ! 9));
          v = blake2b_g v 1 6 11 12 (m ! (s ! 10)) (m ! (s ! 11));
          v = blake2b_g v 2 7 8 13 (m ! (s ! 12)) (m ! (s ! 13))
      in blake2b_g v 3 4 9 14 (m ! (s ! 14)) (m ! (s ! 15)))"

definition blake2b_compress ::
  "u64 list \<Rightarrow> u64 list \<Rightarrow> u64 \<Rightarrow> u64 \<Rightarrow> u64 \<Rightarrow> u64 \<Rightarrow> u64 list" where
  "blake2b_compress h m t0 t1 f0 f1 =
     (let v = h @ BLAKE2B_IV;
          v = v[12 := v ! 12 XOR t0];
          v = v[13 := v ! 13 XOR t1];
          v = v[14 := v ! 14 XOR f0];
          v = v[15 := v ! 15 XOR f1];
          v = foldl (blake2b_round m) v BLAKE2B_SIGMA
      in map (\<lambda>i. h ! i XOR (v ! i XOR v ! (i + 8))) [0..<8])"

definition from_le_bytes64 :: "bytes \<Rightarrow> u64" where
  "from_le_bytes64 bs = word_of_nat (foldr (\<lambda>b n. unat b + 256 * n) bs 0)"

definition to_le_bytes64 :: "u64 \<Rightarrow> bytes" where
  "to_le_bytes64 w = map (\<lambda>i. ucast (drop_bit (8 * i) w)) [0..<8]"


definition le16_words :: "bytes \<Rightarrow> u64 list" where
  "le16_words buf = map (\<lambda>k. from_le_bytes64 (take 8 (drop (k * 8) buf))) [0..<16]"

section \<open>The hasher\<close>


definition blake2b_param :: "nat \<Rightarrow> bytes" where
  "blake2b_param outlen = (replicate 64 0)[0 := word_of_nat outlen, 2 := 1, 3 := 1]"

definition blake2b_init_h :: "nat \<Rightarrow> u64 list" where
  "blake2b_init_h outlen =
     map (\<lambda>i. BLAKE2B_IV ! i XOR from_le_bytes64 (take 8 (drop (i * 8) (blake2b_param outlen)))) [0..<8]"










section \<open>The block sequence\<close>

text \<open>
  Plain block and last block. In RFC 7693 the last block is the one that holds the last byte
  (or the empty block of an empty message); \<open>absorb\<close> is what the buffered hasher does: a block
  is compressed as soon as it is full.
\<close>

definition plain_block :: "u64 list \<Rightarrow> u128 \<Rightarrow> bytes \<Rightarrow> u64 list" where
  "plain_block h t blk = blake2b_compress h (le16_words blk) (ucast t) (ucast (drop_bit 64 t)) 0 0"

definition last_block :: "u64 list \<Rightarrow> u128 \<Rightarrow> bytes \<Rightarrow> u64 list" where
  "last_block h t blk =
     blake2b_compress h (le16_words (blk @ replicate (128 - length blk) 0))
       (ucast t) (ucast (drop_bit 64 t)) (- 1) 0"

function absorb :: "u64 list \<times> u128 \<times> bytes \<Rightarrow> u64 list \<times> u128 \<times> bytes" where
  "absorb (h, t, xs) =
     (if length xs < 128 then (h, t, xs)
      else absorb (plain_block h (t + 128) (take 128 xs), t + 128, drop 128 xs))"
  by pat_completeness auto
termination by (relation "measure (\<lambda>(_, _, xs). length xs)") auto

function rfc_hash :: "u64 list \<Rightarrow> u128 \<Rightarrow> bytes \<Rightarrow> u64 list" where
  "rfc_hash h t xs =
     (if length xs \<le> 128 then last_block h (t + word_of_nat (length xs)) xs
      else rfc_hash (plain_block h (t + 128) (take 128 xs)) (t + 128) (drop 128 xs))"
  by pat_completeness auto
termination by (relation "measure (\<lambda>(_, _, xs). length xs)") auto

declare absorb.simps [simp del] rfc_hash.simps [simp del]

definition digest_of :: "nat \<Rightarrow> u64 list \<Rightarrow> bytes" where
  "digest_of outlen h = take outlen (concat (map to_le_bytes64 h))"

definition rfc_blake2b :: "nat \<Rightarrow> bytes \<Rightarrow> bytes" where
  "rfc_blake2b outlen xs = digest_of outlen (rfc_hash (blake2b_init_h outlen) 0 xs)"



lemma absorb_short: "length xs < 128 \<Longrightarrow> absorb (h, t, xs) = (h, t, xs)"
  by (simp add: absorb.simps)

lemma absorb_block:
  "length blk = 128 \<Longrightarrow> absorb (h, t, blk @ xs) = absorb (plain_block h (t + 128) blk, t + 128, xs)"
  by (subst absorb.simps) simp

lemma absorb_pending: "absorb (h, t, xs) = (h', t', p) \<Longrightarrow> length p < 128"
  by (induction "(h, t, xs)" arbitrary: h t xs rule: absorb.induct)
     (subst (asm) (2) absorb.simps, auto split: if_splits)



section \<open>The hasher and RFC 7693\<close>

definition impl_hash :: "nat \<Rightarrow> bytes \<Rightarrow> bytes" where
  "impl_hash outlen xs =
     (case absorb (blake2b_init_h outlen, 0, xs) of
        (h, t, p) \<Rightarrow> digest_of outlen (last_block h (t + word_of_nat (length p)) p))"








lemma blake2b_aligned_block:
  assumes "length xs = 128"
  shows "impl_hash outlen xs =
      digest_of outlen (last_block (plain_block (blake2b_init_h outlen) 128 xs) 128 [])"
    and "rfc_blake2b outlen xs = digest_of outlen (last_block (blake2b_init_h outlen) 128 xs)"
  using assms absorb_block [of xs "blake2b_init_h outlen" 0 "[]"]
  by (simp_all add: impl_hash_def rfc_blake2b_def rfc_hash.simps absorb_short)


lemma length_last_block [simp]: "length (last_block h t blk) = 8"
  by (simp add: last_block_def blake2b_compress_def Let_def)




section \<open>The variable-length hash of Argon2\<close>







end
