(* ===== verification/Sha256.thy ===== *)
theory Sha256
  imports Prelude
begin

text \<open>
  SHA-256 in \<open>crates/core-utils/src/crypto.rs\<close>: the block function written with the SHA
  extensions of x86-64, one block or two at a time, the dispatch between it and the portable
  block function, the mid-state, the padding and the word conversions. The compiler intrinsics
  are defined by their documented lane semantics; a 128-bit register is its four 32-bit lanes,
  least significant first. The portable block function is the \<open>sha2\<close> crate's and an argument.
\<close>

section \<open>Registers and intrinsics\<close>

type_synonym v4 = "u32 \<times> u32 \<times> u32 \<times> u32"

fun lane :: "v4 \<Rightarrow> nat \<Rightarrow> u32" where
  "lane (a, b, c, d) i = (if i = 0 then a else if i = 1 then b else if i = 2 then c else d)"

fun mm_add_epi32 :: "v4 \<Rightarrow> v4 \<Rightarrow> v4" where
  "mm_add_epi32 (a0, a1, a2, a3) (b0, b1, b2, b3) = (a0 + b0, a1 + b1, a2 + b2, a3 + b3)"

definition mm_set_epi32 :: "u32 \<Rightarrow> u32 \<Rightarrow> u32 \<Rightarrow> u32 \<Rightarrow> v4" where
  "mm_set_epi32 e3 e2 e1 e0 = (e0, e1, e2, e3)"

definition mm_shuffle_epi32 :: "v4 \<Rightarrow> nat \<Rightarrow> v4" where
  "mm_shuffle_epi32 v imm =
     (lane v (imm mod 4), lane v (imm div 4 mod 4), lane v (imm div 16 mod 4), lane v (imm div 64 mod 4))"

text \<open>\<open>alignr\<close> by whole lanes: the concatenation \<open>hi:lo\<close> shifted right.\<close>

fun mm_alignr_epi8 :: "v4 \<Rightarrow> v4 \<Rightarrow> nat \<Rightarrow> v4" where
  "mm_alignr_epi8 (h0, h1, h2, h3) (l0, l1, l2, l3) n =
     (let xs = drop (n div 4) [l0, l1, l2, l3, h0, h1, h2, h3] in (xs ! 0, xs ! 1, xs ! 2, xs ! 3))"

definition blend_half :: "bool \<Rightarrow> bool \<Rightarrow> u32 \<Rightarrow> u32 \<Rightarrow> u32" where
  "blend_half lo hi a b =
     (if lo then if hi then b else (a AND 0xFFFF0000) OR (b AND 0xFFFF)
      else if hi then (b AND 0xFFFF0000) OR (a AND 0xFFFF) else a)"

fun mm_blend_epi16 :: "v4 \<Rightarrow> v4 \<Rightarrow> nat \<Rightarrow> v4" where
  "mm_blend_epi16 (a0, a1, a2, a3) (b0, b1, b2, b3) imm =
     (blend_half (odd imm) (odd (imm div 2)) a0 b0,
      blend_half (odd (imm div 4)) (odd (imm div 8)) a1 b1,
      blend_half (odd (imm div 16)) (odd (imm div 32)) a2 b2,
      blend_half (odd (imm div 64)) (odd (imm div 128)) a3 b3)"

definition sha_ch :: "u32 \<Rightarrow> u32 \<Rightarrow> u32 \<Rightarrow> u32" where
  "sha_ch e f g = (e AND f) XOR (NOT e AND g)"

definition sha_maj :: "u32 \<Rightarrow> u32 \<Rightarrow> u32 \<Rightarrow> u32" where
  "sha_maj a b c = (a AND b) XOR (a AND c) XOR (b AND c)"

definition big_sigma0 :: "u32 \<Rightarrow> u32" where
  "big_sigma0 a = word_rotr 2 a XOR word_rotr 13 a XOR word_rotr 22 a"

definition big_sigma1 :: "u32 \<Rightarrow> u32" where
  "big_sigma1 e = word_rotr 6 e XOR word_rotr 11 e XOR word_rotr 25 e"

definition small_sigma0 :: "u32 \<Rightarrow> u32" where
  "small_sigma0 w = word_rotr 7 w XOR word_rotr 18 w XOR drop_bit 3 w"

definition small_sigma1 :: "u32 \<Rightarrow> u32" where
  "small_sigma1 w = word_rotr 17 w XOR word_rotr 19 w XOR drop_bit 10 w"

text \<open>\<open>_mm_sha256rnds2_epu32(cdgh, abef, wk)\<close>: two rounds with \<open>wk\<close> lanes 0 and 1.\<close>

fun mm_sha256rnds2_epu32 :: "v4 \<Rightarrow> v4 \<Rightarrow> v4 \<Rightarrow> v4" where
  "mm_sha256rnds2_epu32 (h0, g0, d0, c0) (f0, e0, b0, a0) (wk0, wk1, _, _) =
     (let a1 = sha_ch e0 f0 g0 + big_sigma1 e0 + wk0 + h0 + sha_maj a0 b0 c0 + big_sigma0 a0;
          e1 = sha_ch e0 f0 g0 + big_sigma1 e0 + wk0 + h0 + d0;
          a2 = sha_ch e1 e0 f0 + big_sigma1 e1 + wk1 + g0 + sha_maj a1 a0 b0 + big_sigma0 a1;
          e2 = sha_ch e1 e0 f0 + big_sigma1 e1 + wk1 + g0 + c0
      in (e1, e2, a1, a2))"

fun mm_sha256msg1_epu32 :: "v4 \<Rightarrow> v4 \<Rightarrow> v4" where
  "mm_sha256msg1_epu32 (w0, w1, w2, w3) (w4, _, _, _) =
     (w0 + small_sigma0 w1, w1 + small_sigma0 w2, w2 + small_sigma0 w3, w3 + small_sigma0 w4)"

fun mm_sha256msg2_epu32 :: "v4 \<Rightarrow> v4 \<Rightarrow> v4" where
  "mm_sha256msg2_epu32 (t0, t1, t2, t3) (_, _, w14, w15) =
     (let w16 = t0 + small_sigma1 w14; w17 = t1 + small_sigma1 w15;
          w18 = t2 + small_sigma1 w16; w19 = t3 + small_sigma1 w17
      in (w16, w17, w18, w19))"

definition le_lane :: "u8 \<Rightarrow> u8 \<Rightarrow> u8 \<Rightarrow> u8 \<Rightarrow> u32" where
  "le_lane b0 b1 b2 b3 =
     word_of_nat (unat b0 + 256 * (unat b1 + 256 * (unat b2 + 256 * unat b3)))"

definition lanes_of_bytes :: "bytes \<Rightarrow> v4" where
  "lanes_of_bytes bs =
     (le_lane (bs ! 0) (bs ! 1) (bs ! 2) (bs ! 3), le_lane (bs ! 4) (bs ! 5) (bs ! 6) (bs ! 7),
      le_lane (bs ! 8) (bs ! 9) (bs ! 10) (bs ! 11), le_lane (bs ! 12) (bs ! 13) (bs ! 14) (bs ! 15))"

text \<open>\<open>_mm_set_epi64x(hi, lo)\<close> as bytes; \<open>_mm_shuffle_epi8\<close> for masks below 16.\<close>

definition mask_bytes :: "nat \<Rightarrow> nat \<Rightarrow> nat list" where
  "mask_bytes hi lo =
     map (\<lambda>i. lo div 256 ^ i mod 256) [0..<8] @ map (\<lambda>i. hi div 256 ^ i mod 256) [0..<8]"

section \<open>The block function\<close>

definition K32 :: "u32 list" where
  "K32 = concat [
    [0x428a2f98, 0x71374491, 0xb5c0fbcf, 0xe9b5dba5], [0x3956c25b, 0x59f111f1, 0x923f82a4, 0xab1c5ed5],
    [0xd807aa98, 0x12835b01, 0x243185be, 0x550c7dc3], [0x72be5d74, 0x80deb1fe, 0x9bdc06a7, 0xc19bf174],
    [0xe49b69c1, 0xefbe4786, 0x0fc19dc6, 0x240ca1cc], [0x2de92c6f, 0x4a7484aa, 0x5cb0a9dc, 0x76f988da],
    [0x983e5152, 0xa831c66d, 0xb00327c8, 0xbf597fc7], [0xc6e00bf3, 0xd5a79147, 0x06ca6351, 0x14292967],
    [0x27b70a85, 0x2e1b2138, 0x4d2c6dfc, 0x53380d13], [0x650a7354, 0x766a0abb, 0x81c2c92e, 0x92722c85],
    [0xa2bfe8a1, 0xa81a664b, 0xc24b8b70, 0xc76c51a3], [0xd192e819, 0xd6990624, 0xf40e3585, 0x106aa070],
    [0x19a4c116, 0x1e376c08, 0x2748774c, 0x34b0bcb5], [0x391c0cb3, 0x4ed8aa4a, 0x5b9cca4f, 0x682e6ff3],
    [0x748f82ee, 0x78a5636f, 0x84c87814, 0x8cc70208], [0x90befffa, 0xa4506ceb, 0xbef9a3f7, 0xc67178f2]]"

definition H0 :: "u32 list" where
  "H0 = [0x6a09e667, 0xbb67ae85, 0x3c6ef372, 0xa54ff53a, 0x510e527f, 0x9b05688c, 0x1f83d9ab, 0x5be0cd19]"

definition load_be :: "bytes \<Rightarrow> nat \<Rightarrow> nat list \<Rightarrow> v4" where
  "load_be block off msk = lanes_of_bytes (map (\<lambda>k. take 16 (drop off block) ! k) msk)"

definition state_in :: "u32 list \<Rightarrow> v4 \<times> v4" where
  "state_in s =
     (let dcba = (s ! 0, s ! 1, s ! 2, s ! 3);
          efgh = (s ! 4, s ! 5, s ! 6, s ! 7);
          cdab = mm_shuffle_epi32 dcba 0xB1;
          efgh = mm_shuffle_epi32 efgh 0x1B;
          abef = mm_alignr_epi8 cdab efgh 8;
          cdgh = mm_blend_epi16 efgh cdab 0xF0
      in (abef, cdgh))"

definition state_out :: "v4 \<Rightarrow> v4 \<Rightarrow> v4 \<Rightarrow> v4 \<Rightarrow> u32 list" where
  "state_out abef cdgh abef_save cdgh_save =
     (let abef = mm_add_epi32 abef abef_save;
          cdgh = mm_add_epi32 cdgh cdgh_save;
          feba = mm_shuffle_epi32 abef 0x1B;
          dchg = mm_shuffle_epi32 cdgh 0xB1;
          dcba = mm_blend_epi16 feba dchg 0xF0;
          hgef = mm_alignr_epi8 dchg feba 8
      in [lane dcba 0, lane dcba 1, lane dcba 2, lane dcba 3,
          lane hgef 0, lane hgef 1, lane hgef 2, lane hgef 3])"

definition schedule :: "v4 \<Rightarrow> v4 \<Rightarrow> v4 \<Rightarrow> v4 \<Rightarrow> v4" where
  "schedule v0 v1 v2 v3 =
     (let t1 = mm_sha256msg1_epu32 v0 v1;
          t2 = mm_alignr_epi8 v3 v2 4;
          t3 = mm_add_epi32 t1 t2
      in mm_sha256msg2_epu32 t3 v3)"

definition rounds4 :: "v4 \<times> v4 \<Rightarrow> v4 \<Rightarrow> nat \<Rightarrow> v4 \<times> v4" where
  "rounds4 s rest i =
     (case s of (abef, cdgh) \<Rightarrow>
        let kv = mm_set_epi32 (K32 ! (i * 4 + 3)) (K32 ! (i * 4 + 2)) (K32 ! (i * 4 + 1)) (K32 ! (i * 4));
            t1 = mm_add_epi32 rest kv;
            cdgh = mm_sha256rnds2_epu32 cdgh abef t1;
            t2 = mm_shuffle_epi32 t1 0x0E;
            abef = mm_sha256rnds2_epu32 abef cdgh t2
        in (abef, cdgh))"

definition sha256_block_ni :: "u32 list \<Rightarrow> bytes \<Rightarrow> u32 list" where
  "sha256_block_ni state block =
     (let msk = mask_bytes 0x0C0D0E0F08090A0B 0x0405060700010203;
          s = state_in state; save = s;
          w0 = load_be block 0 msk;
          w1 = load_be block 16 msk;
          w2 = load_be block 32 msk;
          w3 = load_be block 48 msk;
          s = rounds4 s w0 0;
          s = rounds4 s w1 1;
          s = rounds4 s w2 2;
          s = rounds4 s w3 3;
          w4 = schedule w0 w1 w2 w3; s = rounds4 s w4 4;
          w0 = schedule w1 w2 w3 w4; s = rounds4 s w0 5;
          w1 = schedule w2 w3 w4 w0; s = rounds4 s w1 6;
          w2 = schedule w3 w4 w0 w1; s = rounds4 s w2 7;
          w3 = schedule w4 w0 w1 w2; s = rounds4 s w3 8;
          w4 = schedule w0 w1 w2 w3; s = rounds4 s w4 9;
          w0 = schedule w1 w2 w3 w4; s = rounds4 s w0 10;
          w1 = schedule w2 w3 w4 w0; s = rounds4 s w1 11;
          w2 = schedule w3 w4 w0 w1; s = rounds4 s w2 12;
          w3 = schedule w4 w0 w1 w2; s = rounds4 s w3 13;
          w4 = schedule w0 w1 w2 w3; s = rounds4 s w4 14;
          w0 = schedule w1 w2 w3 w4; s = rounds4 s w0 15
      in state_out (fst s) (snd s) (fst save) (snd save))"

definition sha256_block_ni_2x ::
  "u32 list \<Rightarrow> u32 list \<Rightarrow> bytes \<Rightarrow> bytes \<Rightarrow> u32 list \<times> u32 list" where
  "sha256_block_ni_2x state0 state1 block0 block1 =
     (let msk = mask_bytes 0x0C0D0E0F08090A0B 0x0405060700010203;
          s0 = state_in state0; s1 = state_in state1;
          save0 = s0; save1 = s1;
          w00 = load_be block0 0 msk; w01 = load_be block0 16 msk;
          w02 = load_be block0 32 msk; w03 = load_be block0 48 msk;
          w10 = load_be block1 0 msk; w11 = load_be block1 16 msk;
          w12 = load_be block1 32 msk; w13 = load_be block1 48 msk;
          s0 = rounds4 s0 w00 0; s1 = rounds4 s1 w10 0;
          s0 = rounds4 s0 w01 1; s1 = rounds4 s1 w11 1;
          s0 = rounds4 s0 w02 2; s1 = rounds4 s1 w12 2;
          s0 = rounds4 s0 w03 3; s1 = rounds4 s1 w13 3;
          w04 = schedule w00 w01 w02 w03; s0 = rounds4 s0 w04 4;
          w14 = schedule w10 w11 w12 w13; s1 = rounds4 s1 w14 4;
          w00 = schedule w01 w02 w03 w04; s0 = rounds4 s0 w00 5;
          w10 = schedule w11 w12 w13 w14; s1 = rounds4 s1 w10 5;
          w01 = schedule w02 w03 w04 w00; s0 = rounds4 s0 w01 6;
          w11 = schedule w12 w13 w14 w10; s1 = rounds4 s1 w11 6;
          w02 = schedule w03 w04 w00 w01; s0 = rounds4 s0 w02 7;
          w12 = schedule w13 w14 w10 w11; s1 = rounds4 s1 w12 7;
          w03 = schedule w04 w00 w01 w02; s0 = rounds4 s0 w03 8;
          w13 = schedule w14 w10 w11 w12; s1 = rounds4 s1 w13 8;
          w04 = schedule w00 w01 w02 w03; s0 = rounds4 s0 w04 9;
          w14 = schedule w10 w11 w12 w13; s1 = rounds4 s1 w14 9;
          w00 = schedule w01 w02 w03 w04; s0 = rounds4 s0 w00 10;
          w10 = schedule w11 w12 w13 w14; s1 = rounds4 s1 w10 10;
          w01 = schedule w02 w03 w04 w00; s0 = rounds4 s0 w01 11;
          w11 = schedule w12 w13 w14 w10; s1 = rounds4 s1 w11 11;
          w02 = schedule w03 w04 w00 w01; s0 = rounds4 s0 w02 12;
          w12 = schedule w13 w14 w10 w11; s1 = rounds4 s1 w12 12;
          w03 = schedule w04 w00 w01 w02; s0 = rounds4 s0 w03 13;
          w13 = schedule w14 w10 w11 w12; s1 = rounds4 s1 w13 13;
          w04 = schedule w00 w01 w02 w03; s0 = rounds4 s0 w04 14;
          w14 = schedule w10 w11 w12 w13; s1 = rounds4 s1 w14 14;
          w00 = schedule w01 w02 w03 w04; s0 = rounds4 s0 w00 15;
          w10 = schedule w11 w12 w13 w14; s1 = rounds4 s1 w10 15
      in (state_out (fst s0) (snd s0) (fst save0) (snd save0),
          state_out (fst s1) (snd s1) (fst save1) (snd save1)))"

section \<open>The standard\<close>

definition be_word :: "bytes \<Rightarrow> nat \<Rightarrow> u32" where
  "be_word block i =
     le_lane (block ! (4 * i + 3)) (block ! (4 * i + 2)) (block ! (4 * i + 1)) (block ! (4 * i))"

fun sha_w :: "bytes \<Rightarrow> nat \<Rightarrow> u32" where
  "sha_w block t =
     (if t < 16 then be_word block t
      else small_sigma1 (sha_w block (t - 2)) + sha_w block (t - 7) +
           small_sigma0 (sha_w block (t - 15)) + sha_w block (t - 16))"

declare sha_w.simps [simp del]

type_synonym sha_regs = "u32 \<times> u32 \<times> u32 \<times> u32 \<times> u32 \<times> u32 \<times> u32 \<times> u32"

fun sha_round :: "u32 \<Rightarrow> sha_regs \<Rightarrow> sha_regs" where
  "sha_round kw (a, b, c, d, e, f, g, h) =
     (let t1 = h + big_sigma1 e + sha_ch e f g + kw; t2 = big_sigma0 a + sha_maj a b c
      in (t1 + t2, a, b, c, d + t1, e, f, g))"

fun sha_rounds :: "bytes \<Rightarrow> sha_regs \<Rightarrow> nat \<Rightarrow> sha_regs" where
  "sha_rounds block s 0 = s"
| "sha_rounds block s (Suc t) = sha_round (K32 ! t + sha_w block t) (sha_rounds block s t)"

definition sha_regs_of :: "u32 list \<Rightarrow> sha_regs" where
  "sha_regs_of s = (s ! 0, s ! 1, s ! 2, s ! 3, s ! 4, s ! 5, s ! 6, s ! 7)"

fun sha_add :: "sha_regs \<Rightarrow> sha_regs \<Rightarrow> u32 list" where
  "sha_add (a, b, c, d, e, f, g, h) (a', b', c', d', e', f', g', h') =
     [a + a', b + b', c + c', d + d', e + e', f + f', g + g', h + h']"

definition sha256_compress :: "u32 list \<Rightarrow> bytes \<Rightarrow> u32 list" where
  "sha256_compress s block = sha_add (sha_rounds block (sha_regs_of s) 64) (sha_regs_of s)"

text \<open>How the working variables sit in the two registers.\<close>

fun packed :: "sha_regs \<Rightarrow> v4 \<times> v4" where
  "packed (a, b, c, d, e, f, g, h) = ((f, e, b, a), (h, g, d, c))"

definition quad :: "bytes \<Rightarrow> nat \<Rightarrow> v4" where
  "quad block i = (sha_w block (4 * i), sha_w block (4 * i + 1), sha_w block (4 * i + 2), sha_w block (4 * i + 3))"

lemma state_in_packed: "state_in s = packed (sha_regs_of s)"
  by (simp add: state_in_def sha_regs_of_def mm_shuffle_epi32_def Let_def blend_half_def)

lemma state_out_add:
  "state_out (fst (packed r)) (snd (packed r)) (fst (packed q)) (snd (packed q)) = sha_add r q"
  by (cases r rule: packed.cases; cases q rule: packed.cases)
     (simp add: state_out_def mm_shuffle_epi32_def Let_def blend_half_def)

lemma mask_bytes_be: "mask_bytes 0x0C0D0E0F08090A0B 0x0405060700010203 =
    [3, 2, 1, 0, 7, 6, 5, 4, 11, 10, 9, 8, 15, 14, 13, 12]"
  by (simp add: mask_bytes_def upt_rec)

lemma load_be_quad:
  assumes "length block = 64" and "i < 4"
  shows "load_be block (16 * i) (mask_bytes 0x0C0D0E0F08090A0B 0x0405060700010203) = quad block i"
proof -
  have "i * 16 \<le> length block" using assms by simp
  then have n: "drop (i * 16) block ! k = block ! (i * 16 + k)" for k by (rule nth_drop)
  have w: "sha_w block (4 * i + k) = be_word block (4 * i + k)" if "k < 4" for k
    using assms(2) that by (subst sha_w.simps) simp
  show ?thesis
    using w [of 0] w [of 1] w [of 2] w [of 3]
    by (simp add: load_be_def mask_bytes_be lanes_of_bytes_def n quad_def be_word_def algebra_simps)
qed

lemma schedule_quad:
  assumes "j = i + 1" "k = i + 2" "l = i + 3" "m = i + 4"
  shows "schedule (quad block i) (quad block j) (quad block k) (quad block l) = quad block m"
proof -
  let ?w = "sha_w block"
  have r: "?w (4 * m + n) = small_sigma1 (?w (4 * m + n - 2)) + ?w (4 * m + n - 7) +
      small_sigma0 (?w (4 * m + n - 15)) + ?w (4 * m + n - 16)" for n
    using assms by (subst sha_w.simps) simp
  show ?thesis
    using r [of 0] r [of 1] r [of 2] r [of 3]
    by (simp add: schedule_def quad_def assms Let_def add.commute add.left_commute)
qed

lemma rnds2_round:
  "mm_sha256rnds2_epu32 (snd (packed r)) (fst (packed r)) (x, y, u, v) =
     fst (packed (sha_round y (sha_round x r)))"
  "snd (packed (sha_round y (sha_round x r))) = fst (packed r)"
  by (cases r rule: packed.cases; simp add: Let_def add_ac)+

lemma rounds4_packed:
  "rounds4 (packed (sha_rounds block s (4 * i))) (quad block i) i =
     packed (sha_rounds block s (4 * (i + 1)))"
proof -
  let ?r = "sha_rounds block s (4 * i)"
  define kw where "kw = (\<lambda>n. K32 ! (4 * i + n) + sha_w block (4 * i + n))"
  let ?r2 = "sha_round (kw 1) (sha_round (kw 0) ?r)"
  let ?r4 = "sha_round (kw 3) (sha_round (kw 2) ?r2)"
  have r4: "sha_rounds block s (4 * (i + 1)) = ?r4"
    by (simp add: kw_def eval_nat_numeral)
  have t: "mm_add_epi32 (quad block i) (mm_set_epi32 (K32 ! (i * 4 + 3)) (K32 ! (i * 4 + 2)) (K32 ! (i * 4 + 1)) (K32 ! (i * 4)))
      = (kw 0, kw 1, kw 2, kw 3)"
    by (simp add: quad_def mm_set_epi32_def kw_def mult.commute add.commute)
  have sh: "mm_shuffle_epi32 (kw 0, kw 1, kw 2, kw 3) 0x0E = (kw 2, kw 3, kw 0, kw 0)"
    by (simp add: mm_shuffle_epi32_def)
  obtain abef cdgh where p: "packed ?r = (abef, cdgh)" by (rule prod.exhaust)
  have c: "mm_sha256rnds2_epu32 cdgh abef (kw 0, kw 1, kw 2, kw 3) = fst (packed ?r2)"
    using rnds2_round(1) [of ?r] p by simp
  have ab: "abef = snd (packed ?r2)" using rnds2_round(2) [of "kw 1" "kw 0" ?r] p by simp
  have "mm_sha256rnds2_epu32 abef (fst (packed ?r2)) (kw 2, kw 3, kw 0, kw 0) = fst (packed ?r4)"
    unfolding ab by (rule rnds2_round(1))
  moreover have "fst (packed ?r2) = snd (packed ?r4)" using rnds2_round(2) [of "kw 3" "kw 2" ?r2] by simp
  ultimately show ?thesis
    unfolding rounds4_def p prod.case Let_def t c sh r4 by simp
qed

lemma rounds4_steps:
  fixes s :: sha_regs and block :: bytes
  defines "p \<equiv> \<lambda>i. packed (sha_rounds block s (4 * i))"
  shows "rounds4 (p 0) (quad block 0) 0 = p 1" "rounds4 (p 1) (quad block 1) 1 = p 2"
    "rounds4 (p 2) (quad block 2) 2 = p 3" "rounds4 (p 3) (quad block 3) 3 = p 4"
    "rounds4 (p 4) (quad block 4) 4 = p 5" "rounds4 (p 5) (quad block 5) 5 = p 6"
    "rounds4 (p 6) (quad block 6) 6 = p 7" "rounds4 (p 7) (quad block 7) 7 = p 8"
    "rounds4 (p 8) (quad block 8) 8 = p 9" "rounds4 (p 9) (quad block 9) 9 = p 10"
    "rounds4 (p 10) (quad block 10) 10 = p 11" "rounds4 (p 11) (quad block 11) 11 = p 12"
    "rounds4 (p 12) (quad block 12) 12 = p 13" "rounds4 (p 13) (quad block 13) 13 = p 14"
    "rounds4 (p 14) (quad block 14) 14 = p 15" "rounds4 (p 15) (quad block 15) 15 = p 16"
  using rounds4_packed [of block s 0] rounds4_packed [of block s 1] rounds4_packed [of block s 2]
    rounds4_packed [of block s 3] rounds4_packed [of block s 4] rounds4_packed [of block s 5]
    rounds4_packed [of block s 6] rounds4_packed [of block s 7] rounds4_packed [of block s 8]
    rounds4_packed [of block s 9] rounds4_packed [of block s 10] rounds4_packed [of block s 11]
    rounds4_packed [of block s 12] rounds4_packed [of block s 13] rounds4_packed [of block s 14]
    rounds4_packed [of block s 15]
  unfolding p_def by simp_all

lemma schedule_steps:
  "schedule (quad b 0) (quad b 1) (quad b 2) (quad b 3) = quad b 4"
  "schedule (quad b 1) (quad b 2) (quad b 3) (quad b 4) = quad b 5"
  "schedule (quad b 2) (quad b 3) (quad b 4) (quad b 5) = quad b 6"
  "schedule (quad b 3) (quad b 4) (quad b 5) (quad b 6) = quad b 7"
  "schedule (quad b 4) (quad b 5) (quad b 6) (quad b 7) = quad b 8"
  "schedule (quad b 5) (quad b 6) (quad b 7) (quad b 8) = quad b 9"
  "schedule (quad b 6) (quad b 7) (quad b 8) (quad b 9) = quad b 10"
  "schedule (quad b 7) (quad b 8) (quad b 9) (quad b 10) = quad b 11"
  "schedule (quad b 8) (quad b 9) (quad b 10) (quad b 11) = quad b 12"
  "schedule (quad b 9) (quad b 10) (quad b 11) (quad b 12) = quad b 13"
  "schedule (quad b 10) (quad b 11) (quad b 12) (quad b 13) = quad b 14"
  "schedule (quad b 11) (quad b 12) (quad b 13) (quad b 14) = quad b 15"
  by (rule schedule_quad, simp_all)+

lemma load_be_steps:
  assumes "length b = 64"
  shows "load_be b 0 (mask_bytes 0x0C0D0E0F08090A0B 0x0405060700010203) = quad b 0"
    "load_be b 16 (mask_bytes 0x0C0D0E0F08090A0B 0x0405060700010203) = quad b 1"
    "load_be b 32 (mask_bytes 0x0C0D0E0F08090A0B 0x0405060700010203) = quad b 2"
    "load_be b 48 (mask_bytes 0x0C0D0E0F08090A0B 0x0405060700010203) = quad b 3"
  using load_be_quad [OF assms, of 0] load_be_quad [OF assms, of 1] load_be_quad [OF assms, of 2]
    load_be_quad [OF assms, of 3] by simp_all

lemma state_in_start: "state_in s = packed (sha_rounds b (sha_regs_of s) (4 * 0))"
  by (simp add: state_in_packed)

lemma state_out_finish:
  "state_out (fst (packed (sha_rounds b (sha_regs_of s) (4 * 16)))) (snd (packed (sha_rounds b (sha_regs_of s) (4 * 16))))
     (fst (packed (sha_rounds b (sha_regs_of s) (4 * 0)))) (snd (packed (sha_rounds b (sha_regs_of s) (4 * 0)))) =
   sha256_compress s b"
  unfolding state_out_add sha256_compress_def by simp

lemma block_ni_compress: "length b = 64 \<Longrightarrow> sha256_block_ni s b = sha256_compress s b"
  unfolding sha256_block_ni_def state_in_start [of s b]
  by (simp only: Let_def load_be_steps schedule_steps rounds4_steps state_out_finish)

lemma block_ni_2x_compress:
  "length b0 = 64 \<Longrightarrow> length b1 = 64 \<Longrightarrow>
   sha256_block_ni_2x s0 s1 b0 b1 = (sha256_compress s0 b0, sha256_compress s1 b1)"
  unfolding sha256_block_ni_2x_def state_in_start [of s0 b0] state_in_start [of s1 b1]
  by (simp only: Let_def load_be_steps schedule_steps rounds4_steps state_out_finish)

text \<open>
  C21: the SHA-NI block function, and both lanes of the interleaved one, compute the
  compression function of FIPS 180-4: the register packing, the big-endian load, the message
  schedule and the 64 rounds with their constants.
\<close>

theorem sha256_block_ni_fips:
  assumes "length block = 64" and "length block' = 64"
  shows "sha256_block_ni state block = sha256_compress state block \<and>
    sha256_block_ni_2x state state' block block' =
      (sha256_compress state block, sha256_compress state' block')"
  using assms by (simp add: block_ni_compress block_ni_2x_compress)

theorem sha256_block_ni_fips_witness:
  "sha256_block_ni H0 (replicate 64 0) = sha256_compress H0 (replicate 64 0)"
  using sha256_block_ni_fips [of "replicate 64 0" "replicate 64 0" H0 H0] by simp

end
