(* ===== verification/Sha_Stream.thy ===== *)
theory Sha_Stream
  imports Sha256
begin

text \<open>
  What \<open>crates/core-utils/src/crypto.rs\<close> builds on the SHA-256 block function: the dispatch
  between the SHA-NI code and the portable function, eight lanes at a time, the mid-state of a
  message, the padding of its tail, and the conversions between words and bytes. The portable
  function (\<open>sha2::block_api::compress256\<close>) is the argument \<open>soft\<close>; \<open>soft_ok\<close> states that it
  is the compression function.
\<close>

section \<open>Dispatch and lanes\<close>

definition sha256_block :: "bool \<Rightarrow> (u32 list \<Rightarrow> bytes \<Rightarrow> u32 list) \<Rightarrow> u32 list \<Rightarrow> bytes \<Rightarrow> u32 list" where
  "sha256_block cpu_sha soft state block =
     (if cpu_sha then sha256_block_ni state block else soft state block)"

definition compress8 ::
  "bool \<Rightarrow> (u32 list \<Rightarrow> bytes \<Rightarrow> u32 list) \<Rightarrow> u32 list list \<Rightarrow> bytes list \<Rightarrow> u32 list list" where
  "compress8 cpu_sha soft st blocks =
     (if cpu_sha
      then foldl (\<lambda>st k.
             let a = k * 2;
                 (sa, sb) = sha256_block_ni_2x (st ! a) (st ! (a + 1)) (blocks ! a) (blocks ! (a + 1))
             in st[a := sa, a + 1 := sb]) st [0..<4]
      else map (\<lambda>(s, b). soft s b) (zip st blocks))"

definition soft_ok :: "(u32 list \<Rightarrow> bytes \<Rightarrow> u32 list) \<Rightarrow> bool" where
  "soft_ok soft \<longleftrightarrow> (\<forall>s b. length s = 8 \<longrightarrow> length b = 64 \<longrightarrow> soft s b = sha256_compress s b)"

section \<open>Words, padding and the mid-state\<close>

definition to_be_bytes32 :: "u32 \<Rightarrow> bytes" where
  "to_be_bytes32 w = map (\<lambda>i. ucast (drop_bit (8 * i) w)) [3, 2, 1, 0]"

definition to_be_bytes64 :: "u64 \<Rightarrow> bytes" where
  "to_be_bytes64 w = map (\<lambda>i. ucast (drop_bit (8 * i) w)) [7, 6, 5, 4, 3, 2, 1, 0]"

definition be32_words :: "bytes \<Rightarrow> u32 list" where
  "be32_words digest = map (be_word digest) [0..<8]"

definition words_be32 :: "u32 list \<Rightarrow> bytes" where
  "words_be32 ws = concat (map to_be_bytes32 ws)"

definition digest_bytes :: "u32 list \<Rightarrow> bytes" where
  "digest_bytes state = concat (map to_be_bytes32 state)"

definition state_of :: "bytes \<Rightarrow> u32 list" where
  "state_of digest = be32_words digest"

text \<open>
  \<open>sha_tail_pad\<close> panics when the slice ranges leave the buffer or start after they end.
\<close>

definition sha_tail_pad :: "bytes \<Rightarrow> nat \<Rightarrow> u64 \<Rightarrow> bytes option" where
  "sha_tail_pad dst at bit_len =
     (let e = (if at < 56 then 64 else 128)
      in if at < length dst \<and> at + 1 \<le> e - 8 \<and> e \<le> length dst
         then Some (take at dst @ [0x80] @ replicate (e - 8 - (at + 1)) 0 @ to_be_bytes64 bit_len @ drop e dst)
         else None)"

definition sha256_midstate ::
  "(u32 list \<Rightarrow> bytes \<Rightarrow> u32 list) \<Rightarrow> u32 list \<Rightarrow> bytes \<Rightarrow> u32 list \<times> bytes \<times> nat" where
  "sha256_midstate blockf prefix data =
     (let nfull = length data div 64;
          prefix = foldl (\<lambda>p i. blockf p (take 64 (drop (i * 64) data))) prefix [0..<nfull];
          tail_len = length data mod 64
      in (prefix, drop (length data - tail_len) data @ replicate (63 - tail_len) 0, tail_len))"

section \<open>The standard digest\<close>

function blocks64 :: "bytes \<Rightarrow> bytes list" where
  "blocks64 xs = (if xs = [] then [] else take 64 xs # blocks64 (drop 64 xs))"
  by pat_completeness auto
termination by (relation "measure length") auto

declare blocks64.simps [simp del]

text \<open>
  \<open>sha_finish st n tail\<close>: the digest when \<open>n\<close> bytes (a whole number of blocks) have been
  compressed into \<open>st\<close> and \<open>tail\<close> is the rest of the message.
\<close>

definition sha_pad :: "nat \<Rightarrow> bytes \<Rightarrow> bytes" where
  "sha_pad tot tail =
     tail @ [0x80] @ replicate ((119 - length tail mod 64) mod 64) 0 @ to_be_bytes64 (word_of_nat tot * 8)"

definition sha_finish :: "u32 list \<Rightarrow> nat \<Rightarrow> bytes \<Rightarrow> bytes" where
  "sha_finish st n tail =
     words_be32 (foldl sha256_compress st (blocks64 (sha_pad (n + length tail) tail)))"

definition sha256_digest :: "bytes \<Rightarrow> bytes" where
  "sha256_digest msg = sha_finish H0 0 msg"

lemma sha256_block_compress:
  "soft_ok soft \<Longrightarrow> length s = 8 \<Longrightarrow> length b = 64 \<Longrightarrow> sha256_block cpu soft s b = sha256_compress s b"
  by (simp add: sha256_block_def soft_ok_def block_ni_compress)

lemma length_sha_add: "length (sha_add r q) = 8"
  by (cases r rule: packed.cases; cases q rule: packed.cases) simp

lemma length_compress [simp]: "length (sha256_compress s b) = 8"
  by (simp add: sha256_compress_def length_sha_add)

lemma list8_eq:
  assumes "length xs = 8" and "length ys = 8" and "\<And>i. i < 8 \<Longrightarrow> xs ! i = ys ! i"
  shows "xs = ys"
  using assms by (simp add: list_eq_iff_nth_eq)

lemma list8:
  assumes "length v = 8"
  obtains a b c d e f g h where "v = [a, b, c, d, e, f, g, h]"
proof -
  have "\<exists>a b c d e f g h. v = [a, b, c, d, e, f, g, h]"
    using assms by (auto simp: numeral_eq_Suc length_Suc_conv)
  then show ?thesis using that by blast
qed

lemma compress8_map:
  assumes "soft_ok soft" and "length st = 8" and "length bs = 8"
    and "\<forall>s \<in> set st. length s = 8" and "\<forall>b \<in> set bs. length b = 64"
  shows "compress8 cpu soft st bs = map (\<lambda>(s, b). sha256_compress s b) (zip st bs)"
proof (cases cpu)
  case False
  then show ?thesis using assms(1,4,5)
    by (auto simp: compress8_def soft_ok_def) (meson set_zip_leftD set_zip_rightD)
next
  case True
  obtain s0 s1 s2 s3 s4 s5 s6 s7 where s: "st = [s0, s1, s2, s3, s4, s5, s6, s7]"
    using list8 [OF assms(2)] by blast
  obtain b0 b1 b2 b3 b4 b5 b6 b7 where b: "bs = [b0, b1, b2, b3, b4, b5, b6, b7]"
    using list8 [OF assms(3)] by blast
  have l: "length b0 = 64" "length b1 = 64" "length b2 = 64" "length b3 = 64"
    "length b4 = 64" "length b5 = 64" "length b6 = 64" "length b7 = 64"
    using assms(5) by (simp_all add: b)
  show ?thesis using True
    by (simp add: compress8_def s b upt_rec Let_def block_ni_2x_compress l)
qed

lemma blocks64_append:
  "64 dvd length xs \<Longrightarrow> blocks64 (xs @ ys) = blocks64 xs @ blocks64 ys"
proof (induction xs rule: blocks64.induct)
  case (1 xs)
  show ?case
  proof (cases "xs = []")
    case True
    then show ?thesis by (simp add: blocks64.simps [of "[]"])
  next
    case False
    then have l: "64 \<le> length xs" using 1(2) by (auto dest: dvd_imp_le)
    then have "blocks64 (drop 64 xs @ ys) = blocks64 (drop 64 xs) @ blocks64 ys"
      using 1 False by (simp add: dvd_minus_self)
    then show ?thesis using False l
      by (subst blocks64.simps, subst (2) blocks64.simps) simp
  qed
qed

lemma blocks64_one: "length xs = 64 \<Longrightarrow> blocks64 xs = [xs]"
  by (subst blocks64.simps) (auto simp: blocks64.simps [of "[]"])

lemma blocks64_map:
  "length xs = 64 * n \<Longrightarrow> blocks64 xs = map (\<lambda>i. take 64 (drop (i * 64) xs)) [0..<n]"
proof (induction n arbitrary: xs)
  case 0
  then show ?case by (simp add: blocks64.simps)
next
  case (Suc n)
  have "blocks64 xs = take 64 xs # blocks64 (drop 64 xs)"
    using Suc.prems by (subst blocks64.simps) auto
  also have "blocks64 (drop 64 xs) = map (\<lambda>i. take 64 (drop (i * 64) (drop 64 xs))) [0..<n]"
    using Suc.prems by (intro Suc.IH) simp
  also have "\<dots> = map (\<lambda>i. take 64 (drop (Suc i * 64) xs)) [0..<n]" by (simp add: add.commute)
  also have "take 64 xs # \<dots> = map (\<lambda>i. take 64 (drop (i * 64) xs)) [0..<Suc n]"
    by (simp add: upt_conv_Cons map_Suc_upt [symmetric] del: upt_Suc)
  finally show ?case .
qed

lemma length_foldl_compress: "length st = 8 \<Longrightarrow> length (foldl sha256_compress st bs) = 8"
  by (induction bs arbitrary: st) auto

lemma sha_finish_append:
  assumes "64 dvd length xs"
  shows "sha_finish st n (xs @ ys) = sha_finish (foldl sha256_compress st (blocks64 xs)) (n + length xs) ys"
proof -
  have "length (xs @ ys) mod 64 = length ys mod 64"
    using assms by (simp add: mod_add_left_eq [symmetric])
  then have "sha_pad (n + length (xs @ ys)) (xs @ ys) = xs @ sha_pad (n + length xs + length ys) ys"
    by (simp add: sha_pad_def add.assoc)
  then show ?thesis using assms by (simp add: sha_finish_def blocks64_append add.assoc)
qed

lemma midstate_blocks:
  assumes "soft_ok soft" and "length p = 8"
    and "sha256_midstate (sha256_block cpu soft) p data = (st, tail, n)"
  shows "st = foldl sha256_compress p (blocks64 (take (length data - n) data))"
    and "n = length data mod 64" and "take n tail = drop (length data - n) data"
    and "length st = 8" and "length tail = 63"
proof -
  let ?k = "length data div 64"
  have d: "st = foldl (\<lambda>p i. sha256_block cpu soft p (take 64 (drop (i * 64) data))) p [0..<?k]"
    "n = length data mod 64" "tail = drop (length data - n) data @ replicate (63 - n) 0"
    using assms(3) by (auto simp: sha256_midstate_def Let_def)
  have nk: "length data = 64 * ?k + n" using d(2) by simp
  then have l: "length (take (length data - n) data) = 64 * ?k" by simp
  have f: "foldl (\<lambda>p i. sha256_block cpu soft p (take 64 (drop (i * 64) data))) p [0..<m] =
      foldl sha256_compress p (map (\<lambda>i. take 64 (drop (i * 64) data)) [0..<m])" if "m \<le> ?k" for m
    using that
  proof (induction m)
    case (Suc m)
    have "length (take 64 (drop (m * 64) data)) = 64" using Suc.prems nk by auto
    then show ?case
      using Suc sha256_block_compress [OF assms(1)] length_foldl_compress [OF assms(2)] by simp
  qed simp
  have e: "map (\<lambda>i. take 64 (drop (i * 64) data)) [0..<?k] =
      map (\<lambda>i. take 64 (drop (i * 64) (take (length data - n) data))) [0..<?k]"
    using nk by (intro map_cong refl) (simp add: drop_take)
  then show "st = foldl sha256_compress p (blocks64 (take (length data - n) data))"
    unfolding blocks64_map [OF l] e [symmetric] using d(1) f [of ?k] by simp
  then show "length st = 8" using length_foldl_compress assms(2) by simp
  show "n = length data mod 64" by (rule d(2))
  have "length (drop (length data - n) data) = n" using nk by simp
  moreover have "n \<le> 63" using d(2) by simp
  ultimately show "take n tail = drop (length data - n) data" "length tail = 63"
    unfolding d(3) by simp_all
qed

end
