(* ===== verification/Pow_Scan.thy ===== *)
theory Pow_Scan
  imports Sha_Stream Checksum Math_Util
begin

text \<open>
  The nonce search of \<open>crates/challenge-solver/src/scan.rs\<close> and its contexts in
  \<open>pow.rs\<close>, \<open>hmac.rs\<close> and \<open>chain.rs\<close>: splitting a digit width into jobs, framing the message
  tail with room for the digits, stepping eight decimal counters, hashing eight lanes and
  checking their difficulty, and the scalar loop that finishes a range.

  Nonces (\<open>u64\<close>, below \<open>10^19\<close>) and positions are natural numbers. A trait object
  \<open>BatchCtx\<close> is the record \<open>batch_ctx\<close> of its methods. A slice operation that would panic is
  \<^const>\<open>None\<close>.
\<close>

section \<open>Digits\<close>

definition bytes_of :: "string \<Rightarrow> bytes" where
  "bytes_of s = map (\<lambda>c. word_of_nat (ord c)) s"

definition digits_of :: "nat \<Rightarrow> string \<Rightarrow> nat \<Rightarrow> string" where
  "digits_of n buf width = u64_digits_fixed_into (word_of_nat n) buf width"

fun incr_dec :: "string \<Rightarrow> nat \<Rightarrow> nat \<Rightarrow> string" where
  "incr_dec buf 0 carry = buf"
| "incr_dec buf (Suc i) carry =
     (if 0 < carry
      then let cur = (ord (buf ! i) - 48) + carry; over = 10 \<le> cur
           in incr_dec (buf[i := chr (48 + cur - (if over then 10 else 0))]) i (if over then 1 else 0)
      else buf)"

section \<open>Jobs\<close>

definition div_ceil :: "nat \<Rightarrow> nat \<Rightarrow> nat" where
  "div_ceil a b = (a + b - 1) div b"

definition chunk_and_jobs :: "nat \<Rightarrow> nat \<Rightarrow> nat \<Rightarrow> nat \<Rightarrow> nat \<Rightarrow> nat \<Rightarrow> nat \<times> nat" where
  "chunk_and_jobs base limit threads jobs_mult min_chunk cap =
     (let range = limit - base;
          target_jobs = threads * jobs_mult;
          chunk = div_ceil range target_jobs;
          chunk = (if chunk < min_chunk then min_chunk else chunk);
          chunk = (chunk + 7) div 8 * 8;
          chunk = (if cap < chunk then cap else chunk);
          n_jobs = div_ceil range chunk
      in (chunk, max n_jobs 1))"

definition width_range :: "nat \<Rightarrow> nat \<times> nat" where
  "width_range width = ((if width = 1 then 0 else 10 ^ (width - 1)), 10 ^ width)"

definition jobs_of :: "nat \<Rightarrow> nat \<Rightarrow> nat \<Rightarrow> nat \<Rightarrow> nat \<Rightarrow> (nat \<times> nat \<times> nat) list" where
  "jobs_of threads jobs_mult min_chunk cap width =
     (let (base, limit) = width_range width;
          (chunk, n_jobs) = chunk_and_jobs base limit threads jobs_mult min_chunk cap
      in map (\<lambda>j. (width, base + j * chunk, min (base + j * chunk + chunk) limit)) [0..<n_jobs])"

section \<open>Framing\<close>

record scan_plan =
  sp_width :: nat
  sp_block1 :: bytes
  sp_block2 :: bytes
  sp_single :: bool

definition frame_blocks :: "bytes \<Rightarrow> nat \<Rightarrow> nat \<Rightarrow> (bytes \<times> bytes \<times> bool) option" where
  "frame_blocks tail width tot =
     (let pos = length tail + width
      in if 128 < pos then None
         else case sha_tail_pad (tail @ replicate width 48 @ replicate (128 - pos) 0) pos
                     (word_of_nat tot * 8) of
                None \<Rightarrow> None
              | Some buf \<Rightarrow> Some (take 64 buf, drop 64 buf, pos \<le> 55))"

definition scan_plan_build :: "nat \<Rightarrow> bytes \<Rightarrow> nat \<Rightarrow> scan_plan option" where
  "scan_plan_build width tail tot =
     map_option (\<lambda>(b1, b2, single).
       \<lparr>sp_width = width, sp_block1 = b1, sp_block2 = b2, sp_single = single\<rparr>)
       (frame_blocks tail width tot)"

definition overwrite :: "'a list \<Rightarrow> nat \<Rightarrow> 'a list \<Rightarrow> 'a list" where
  "overwrite xs off ys = take off xs @ ys @ drop (off + length ys) xs"

definition patch_digit_at :: "bytes \<times> bytes \<Rightarrow> nat \<Rightarrow> nat \<Rightarrow> string \<Rightarrow> bytes \<times> bytes" where
  "patch_digit_at b off width digits =
     (case b of (b1, b2) \<Rightarrow>
        if off + width \<le> 64 then (overwrite b1 off (bytes_of (take width digits)), b2)
        else foldl (\<lambda>(b1, b2) w.
               let p = off + w; d = word_of_nat (ord (digits ! w))
               in if p < 64 then (b1[p := d], b2) else (b1, b2[p - 64 := d])) (b1, b2) [0..<width])"

record tail_ctx =
  tc_prefix :: "u32 list"
  tc_tail :: bytes
  tc_total :: nat

type_synonym soft_block = "u32 list \<Rightarrow> bytes \<Rightarrow> u32 list"

definition hash_framed :: "bool \<Rightarrow> soft_block \<Rightarrow> u32 list \<Rightarrow> bytes \<times> bytes \<Rightarrow> bool \<Rightarrow> u32 list" where
  "hash_framed cpu soft prefix b single =
     (let st = sha256_block cpu soft prefix (fst b)
      in if single then st else sha256_block cpu soft st (snd b))"

definition tail_digest :: "bool \<Rightarrow> soft_block \<Rightarrow> tail_ctx \<Rightarrow> nat \<Rightarrow> nat \<Rightarrow> bytes option" where
  "tail_digest cpu soft ctx nonce width =
     (case frame_blocks (tc_tail ctx) width (tc_total ctx) of
        None \<Rightarrow> None
      | Some (b1, b2, single) \<Rightarrow>
          let digits = digits_of nonce zeros20 width;
              b = patch_digit_at (b1, b2) (length (tc_tail ctx)) width digits
          in Some (words_be32 (hash_framed cpu soft (tc_prefix ctx) b single)))"

section \<open>Checks and loops\<close>

definition need_bits_of :: "nat \<Rightarrow> nat" where
  "need_bits_of difficulty = difficulty * 4"

definition digest_hit :: "nat \<Rightarrow> bytes \<Rightarrow> bool" where
  "digest_hit need h =
     (if need \<le> 32 then need \<le> leading_zeros (be_word h 0)
      else need \<le> lz_words_be (be32_words h))"

text \<open>The closure of the scalar loop carries its buffers from call to call.\<close>

function scalar_scan :: "nat \<Rightarrow> nat \<Rightarrow> nat \<Rightarrow> ('s \<Rightarrow> nat \<Rightarrow> bytes \<times> 's) \<Rightarrow> 's \<Rightarrow> (nat \<times> bytes) option" where
  "scalar_scan n e need digest s =
     (if n < e
      then case digest s n of (h, s) \<Rightarrow>
             if digest_hit need h then Some (n, h) else scalar_scan (n + 1) e need digest s
      else None)"
  by pat_completeness auto
termination by (relation "measure (\<lambda>(n, e, _). e - n)") auto

declare scalar_scan.simps [simp del]

definition trailing_zeros :: "u32 \<Rightarrow> nat" where
  "trailing_zeros w = length (takeWhile Not (map (bit w) [0..<32]))"

definition head_hits :: "nat \<Rightarrow> u32 list list \<Rightarrow> u32" where
  "head_hits need st = horner_sum of_bool 2 (map (\<lambda>s. need \<le> leading_zeros (s ! 0)) st)"

fun check_pairs :: "nat \<Rightarrow> u32 list list \<Rightarrow> nat list \<Rightarrow> nat option" where
  "check_pairs need st [] = None"
| "check_pairs need st (pair # ps) =
     (let k0 = pair * 2; k1 = pair * 2 + 1; r = lz_batch16_ref (st ! k0) (st ! k1)
      in if need \<le> r ! 0 then Some k0
         else if need \<le> r ! 1 then Some k1
         else check_pairs need st ps)"

fun check_words :: "nat \<Rightarrow> nat \<Rightarrow> u32 list list \<Rightarrow> nat option" where
  "check_words need k [] = None"
| "check_words need k (s # st) =
     (if need \<le> lz_words_be s then Some k else check_words need (k + 1) st)"

definition check8 :: "u32 list list \<Rightarrow> nat \<Rightarrow> bool \<Rightarrow> nat option" where
  "check8 st need avx512 =
     (if need \<le> 32
      then let hits = head_hits need st in if hits = 0 then None else Some (trailing_zeros hits)
      else if avx512 then check_pairs need st [0..<4]
      else check_words need 0 st)"

record batch_ctx =
  bc_off :: nat
  bc_prefix :: "u32 list"
  bc_need :: nat
  bc_avx :: bool
  bc_plan :: "nat \<Rightarrow> scan_plan option"
  bc_mid_one :: "u32 list \<Rightarrow> bytes"
  bc_init :: "bytes list \<Rightarrow> bytes list"
  bc_step :: "u32 list list \<Rightarrow> bytes list \<Rightarrow> u32 list list \<times> bytes list"

definition scan_digest ::
  "bool \<Rightarrow> soft_block \<Rightarrow> batch_ctx \<Rightarrow> scan_plan \<Rightarrow> string \<times> bytes \<times> bytes \<Rightarrow> nat \<Rightarrow>
   bytes \<times> string \<times> bytes \<times> bytes" where
  "scan_digest cpu soft ctx plan s n =
     (case s of (digits, b) \<Rightarrow>
        let digits = digits_of n digits (sp_width plan);
            b = patch_digit_at b (bc_off ctx) (sp_width plan) digits;
            st = hash_framed cpu soft (bc_prefix ctx) b (sp_single plan)
        in (bc_mid_one ctx st, digits, b))"

definition scalar_scan_plan ::
  "bool \<Rightarrow> soft_block \<Rightarrow> batch_ctx \<Rightarrow> scan_plan \<Rightarrow> nat \<Rightarrow> nat \<Rightarrow> (nat \<times> bytes) option" where
  "scalar_scan_plan cpu soft ctx plan base e =
     scalar_scan base e (bc_need ctx) (scan_digest cpu soft ctx plan)
       (zeros20, sp_block1 plan, sp_block2 plan)"

definition nonce_digits_new :: "nat \<Rightarrow> nat \<Rightarrow> string list" where
  "nonce_digits_new base width = map (\<lambda>k. digits_of (base + k) zeros20 width) [0..<8]"

definition nonce_digits_patch :: "string list \<Rightarrow> bytes list \<Rightarrow> nat \<Rightarrow> nat \<Rightarrow> bytes list" where
  "nonce_digits_patch d blocks off width =
     map (\<lambda>(bk, dk). overwrite bk off (bytes_of (take width dk))) (zip blocks d)"

definition nonce_digits_bump :: "string list \<Rightarrow> nat \<Rightarrow> string list" where
  "nonce_digits_bump d width = map (\<lambda>dk. incr_dec dk width 8) d"

function batch8_loop ::
  "bool \<Rightarrow> soft_block \<Rightarrow> batch_ctx \<Rightarrow> scan_plan \<Rightarrow> nat \<Rightarrow> string list \<Rightarrow> bytes list \<Rightarrow> bytes list \<Rightarrow>
   nat \<Rightarrow> (nat \<times> bytes) option" where
  "batch8_loop cpu soft ctx plan e nd b1 blocks cur =
     (if cur + 8 \<le> e
      then let b1 = nonce_digits_patch nd b1 (bc_off ctx) (sp_width plan);
               st = compress8 cpu soft (replicate 8 (bc_prefix ctx)) b1;
               st = (if sp_single plan then st
                     else compress8 cpu soft st (replicate 8 (sp_block2 plan)));
               (st, blocks) = bc_step ctx st blocks
           in case check8 st (bc_need ctx) (bc_avx ctx) of
                Some k \<Rightarrow> Some (cur + k, words_be32 (st ! k))
              | None \<Rightarrow>
                  batch8_loop cpu soft ctx plan e (nonce_digits_bump nd (sp_width plan)) b1 blocks (cur + 8)
      else scalar_scan_plan cpu soft ctx plan cur e)"
  by pat_completeness auto
termination by (relation "measure (\<lambda>(_, _, _, _, e, _, _, _, cur). e - cur)") auto

declare batch8_loop.simps [simp del]

definition batch8 ::
  "bool \<Rightarrow> soft_block \<Rightarrow> batch_ctx \<Rightarrow> scan_plan \<Rightarrow> nat \<Rightarrow> nat \<Rightarrow> (nat \<times> bytes) option" where
  "batch8 cpu soft ctx plan base e =
     (if 64 < bc_off ctx + sp_width plan then scalar_scan_plan cpu soft ctx plan base e
      else batch8_loop cpu soft ctx plan e (nonce_digits_new base (sp_width plan))
             (replicate 8 (sp_block1 plan)) (bc_init ctx (replicate 8 (replicate 64 0))) base)"

section \<open>The contexts\<close>

record pow_ctx =
  pw_prefix :: "u32 list"
  pw_tail :: bytes
  pw_tail_len :: nat
  pw_data_len :: nat
  pw_need :: nat
  pw_avx :: bool

definition pow_new :: "bool \<Rightarrow> soft_block \<Rightarrow> bool \<Rightarrow> bytes \<Rightarrow> nat \<Rightarrow> pow_ctx" where
  "pow_new cpu soft avx data difficulty =
     (case sha256_midstate (sha256_block cpu soft) H0 data of
        (prefix, tail, tail_len) \<Rightarrow>
          \<lparr>pw_prefix = prefix, pw_tail = tail, pw_tail_len = tail_len, pw_data_len = length data,
           pw_need = need_bits_of difficulty, pw_avx = avx\<rparr>)"

definition pow_digest :: "bool \<Rightarrow> soft_block \<Rightarrow> pow_ctx \<Rightarrow> nat \<Rightarrow> nat \<Rightarrow> bytes option" where
  "pow_digest cpu soft c nonce width =
     tail_digest cpu soft
       \<lparr>tc_prefix = pw_prefix c, tc_tail = take (pw_tail_len c) (pw_tail c), tc_total = pw_data_len c + width\<rparr>
       nonce width"

definition pow_batch :: "bool \<Rightarrow> soft_block \<Rightarrow> pow_ctx \<Rightarrow> batch_ctx" where
  "pow_batch cpu soft c =
     \<lparr>bc_off = pw_tail_len c, bc_prefix = pw_prefix c, bc_need = pw_need c, bc_avx = pw_avx c,
      bc_plan = (\<lambda>width. scan_plan_build width (take (pw_tail_len c) (pw_tail c)) (pw_data_len c + width)),
      bc_mid_one = words_be32, bc_init = (\<lambda>b. b), bc_step = (\<lambda>st b. (st, b))\<rparr>"

record hmac_ctx =
  hm_inner_prefix :: "u32 list"
  hm_msg_tail :: bytes
  hm_msg_tail_len :: nat
  hm_msg_len :: nat
  hm_outer_prefix :: "u32 list"
  hm_outer_tail :: bytes
  hm_need :: nat
  hm_avx :: bool

definition pad64 :: "bytes \<Rightarrow> nat \<Rightarrow> nat \<Rightarrow> bytes option" where
  "pad64 block at tot = sha_tail_pad block at (word_of_nat tot * 8)"

text \<open>\<open>sha\<close> stands for \<open>core_utils::sha256\<close>, the crate's one-shot digest.\<close>

definition hmac_key_norm :: "(bytes \<Rightarrow> bytes) \<Rightarrow> bytes \<Rightarrow> bytes" where
  "hmac_key_norm sha key =
     (if 64 < length key then overwrite (replicate 64 0) 0 (sha key)
      else overwrite (replicate 64 0) 0 key)"

definition hmac_new ::
  "bool \<Rightarrow> soft_block \<Rightarrow> (bytes \<Rightarrow> bytes) \<Rightarrow> bool \<Rightarrow> bytes \<Rightarrow> bytes \<Rightarrow> nat \<Rightarrow> hmac_ctx option" where
  "hmac_new cpu soft sha avx key msg difficulty =
     (let key_norm = hmac_key_norm sha key;
          ipad = map (\<lambda>b. 0x36 XOR b) key_norm;
          opad = map (\<lambda>b. 0x5c XOR b) key_norm;
          inner_prefix = sha256_block cpu soft H0 ipad;
          (inner_prefix, msg_tail, tail_len) = sha256_midstate (sha256_block cpu soft) inner_prefix msg;
          outer_prefix = sha256_block cpu soft H0 opad
      in case pad64 (replicate 64 0) 32 96 of
           None \<Rightarrow> None
         | Some outer_blk \<Rightarrow>
             Some \<lparr>hm_inner_prefix = inner_prefix, hm_msg_tail = msg_tail, hm_msg_tail_len = tail_len,
                   hm_msg_len = length msg, hm_outer_prefix = outer_prefix,
                   hm_outer_tail = drop 32 outer_blk, hm_need = need_bits_of difficulty, hm_avx = avx\<rparr>)"

definition hmac_total_of :: "hmac_ctx \<Rightarrow> nat \<Rightarrow> nat" where
  "hmac_total_of c width = 64 + hm_msg_len c + width"

definition outer_round :: "bool \<Rightarrow> soft_block \<Rightarrow> hmac_ctx \<Rightarrow> bytes \<Rightarrow> bytes" where
  "outer_round cpu soft c inner =
     words_be32 (sha256_block cpu soft (hm_outer_prefix c) (inner @ hm_outer_tail c))"

definition hmac_digest :: "bool \<Rightarrow> soft_block \<Rightarrow> hmac_ctx \<Rightarrow> nat \<Rightarrow> nat \<Rightarrow> bytes option" where
  "hmac_digest cpu soft c nonce width =
     map_option (outer_round cpu soft c)
       (tail_digest cpu soft
         \<lparr>tc_prefix = hm_inner_prefix c, tc_tail = take (hm_msg_tail_len c) (hm_msg_tail c),
          tc_total = hmac_total_of c width\<rparr> nonce width)"

definition hmac_batch :: "bool \<Rightarrow> soft_block \<Rightarrow> hmac_ctx \<Rightarrow> batch_ctx" where
  "hmac_batch cpu soft c =
     \<lparr>bc_off = hm_msg_tail_len c, bc_prefix = hm_inner_prefix c, bc_need = hm_need c, bc_avx = hm_avx c,
      bc_plan = (\<lambda>width. scan_plan_build width (take (hm_msg_tail_len c) (hm_msg_tail c)) (hmac_total_of c width)),
      bc_mid_one = (\<lambda>st. outer_round cpu soft c (words_be32 st)),
      bc_init = map (\<lambda>ok. overwrite ok 32 (hm_outer_tail c)),
      bc_step = (\<lambda>st blocks.
        let blocks = map (\<lambda>(b, stk). overwrite b 0 (words_be32 stk)) (zip blocks st);
            st = map (\<lambda>_. hm_outer_prefix c) st
        in (compress8 cpu soft st blocks, blocks))\<rparr>"

record chain_ctx =
  ch_first :: pow_ctx
  ch_rounds :: nat

definition chain_new :: "bool \<Rightarrow> soft_block \<Rightarrow> bool \<Rightarrow> bytes \<Rightarrow> nat \<Rightarrow> nat \<Rightarrow> chain_ctx" where
  "chain_new cpu soft avx salt rounds difficulty =
     \<lparr>ch_first = pow_new cpu soft avx salt difficulty, ch_rounds = max rounds 1\<rparr>"

text \<open>\<open>pad64(out, 32, 32)\<close> stays in the block; its result is taken apart as the code's writes.\<close>

definition chain_block :: "bytes \<Rightarrow> bytes \<Rightarrow> bytes" where
  "chain_block h out =
     (case pad64 (overwrite out 0 h) 32 32 of Some b \<Rightarrow> b | None \<Rightarrow> overwrite out 0 h)"

definition chained :: "bool \<Rightarrow> soft_block \<Rightarrow> bytes \<Rightarrow> bytes" where
  "chained cpu soft h = words_be32 (sha256_block cpu soft H0 (chain_block h (replicate 64 0)))"

definition chain_digest :: "bool \<Rightarrow> soft_block \<Rightarrow> chain_ctx \<Rightarrow> nat \<Rightarrow> nat \<Rightarrow> bytes option" where
  "chain_digest cpu soft c nonce width =
     map_option (chained cpu soft ^^ (ch_rounds c - 1)) (pow_digest cpu soft (ch_first c) nonce width)"

definition chain_round :: "bool \<Rightarrow> soft_block \<Rightarrow> u32 list list \<times> bytes list \<Rightarrow> u32 list list \<times> bytes list" where
  "chain_round cpu soft sb =
     (case sb of (st, blocks) \<Rightarrow>
        let blocks = map (\<lambda>(b, stk). chain_block (words_be32 stk) b) (zip blocks st);
            st = map (\<lambda>_. H0) st
        in (compress8 cpu soft st blocks, blocks))"

definition chain_batch :: "bool \<Rightarrow> soft_block \<Rightarrow> chain_ctx \<Rightarrow> batch_ctx" where
  "chain_batch cpu soft c =
     (pow_batch cpu soft (ch_first c))
       \<lparr>bc_mid_one := (\<lambda>st. (chained cpu soft ^^ (ch_rounds c - 1)) (words_be32 st)),
        bc_step := (\<lambda>st blocks. (chain_round cpu soft ^^ (ch_rounds c - 1)) (st, blocks))\<rparr>"

section \<open>Difficulty of a lane\<close>

lemma unat_byte_of: "unat (ucast (w :: u32) :: u8) = unat w mod 256"
  by (simp add: unsigned_ucast_eq take_bit_eq_mod)

lemma le_lane_bytes:
  "le_lane (ucast w) (ucast (drop_bit 8 w)) (ucast (drop_bit 16 w)) (ucast (drop_bit 24 w)) = w"
proof -
  let ?n = "unat w"
  have "?n div 16777216 < 256" using unat_less_pow(3) [of w] by (simp add: div_less_iff_less_mult)
  then have "?n mod 256 + 256 * (?n div 256 mod 256 + 256 * (?n div 65536 mod 256 + 256 * (?n div 16777216 mod 256))) = ?n"
    using mod_mult2_eq [of ?n 256 256] mod_mult2_eq [of ?n 65536 256] mult_div_mod_eq [of 16777216 ?n]
    by simp
  moreover have "unat (ucast (drop_bit 8 w) :: u8) = ?n div 256 mod 256"
    "unat (ucast (drop_bit 16 w) :: u8) = ?n div 65536 mod 256"
    "unat (ucast (drop_bit 24 w) :: u8) = ?n div 16777216 mod 256"
    by (simp_all add: unat_byte_of unat_drop_bit)
  ultimately show ?thesis unfolding le_lane_def unat_byte_of [of w] by simp
qed

lemma to_be_bytes32_list:
  "to_be_bytes32 w = [ucast (drop_bit 24 w), ucast (drop_bit 16 w), ucast (drop_bit 8 w), ucast w]"
  by (simp add: to_be_bytes32_def)

lemma be32_words_be32:
  assumes "length s = 8"
  shows "be32_words (words_be32 s) = s"
proof -
  obtain a b c d e f g h where s: "s = [a, b, c, d, e, f, g, h]" using list8 [OF assms] by blast
  show ?thesis
    by (simp add: s words_be32_def to_be_bytes32_list be32_words_def be_word_def upt_rec le_lane_bytes)
qed

lemma length_words_be32 [simp]: "length (words_be32 s) = 4 * length s"
  unfolding words_be32_def by (induction s) (simp_all add: to_be_bytes32_list)

lemma leading_zeros_0 [simp]: "leading_zeros 0 = 32"
  using digest_zeros_Cons [of 0 "[]"]
  by (simp add: digest_zeros_def bits_be_def takeWhile_eq_all_conv [THEN iffD2])

lemma lz_words_head:
  "length s = 8 \<Longrightarrow> need \<le> 32 \<Longrightarrow> need \<le> lz_words_be s \<longleftrightarrow> need \<le> leading_zeros (s ! 0)"
  using digest_zeros_Cons [of "hd s" "tl s"] lz_words_loop_1 [of 0 s]
  by (cases s) (auto simp: lz_words_be_def)

lemma digest_hit_words:
  assumes "length s = 8"
  shows "digest_hit need (words_be32 s) \<longleftrightarrow> need \<le> lz_words_be s"
proof -
  have "be_word (words_be32 s) 0 = be32_words (words_be32 s) ! 0" by (simp add: be32_words_def)
  then show ?thesis
    using lz_words_head [OF assms, of need] be32_words_be32 [OF assms] by (simp add: digest_hit_def)
qed

definition first_lane :: "(nat \<Rightarrow> bool) \<Rightarrow> nat option \<Rightarrow> bool" where
  "first_lane P r \<longleftrightarrow>
     (case r of None \<Rightarrow> (\<forall>k < 8. \<not> P k) | Some k \<Rightarrow> k < 8 \<and> P k \<and> (\<forall>j < k. \<not> P j))"

lemma bit_head_hits:
  "length st = 8 \<Longrightarrow> bit (head_hits need st) k \<longleftrightarrow> k < 8 \<and> need \<le> leading_zeros (st ! k ! 0)"
  unfolding head_hits_def bit_horner_sum_bit_iff by auto

lemma takeWhile_first:
  assumes "k = length (takeWhile Not (map f [0..<n]))"
  shows "k < n \<Longrightarrow> f k" and "j < k \<Longrightarrow> \<not> f j"
proof -
  show "k < n \<Longrightarrow> f k" using nth_length_takeWhile [of Not "map f [0..<n]"] assms by auto
  show "j < k \<Longrightarrow> \<not> f j"
    using assms takeWhile_nth [of j Not "map f [0..<n]"] length_takeWhile_le [of Not "map f [0..<n]"]
      nth_mem [of j "takeWhile Not (map f [0..<n])"] set_takeWhileD
    by (metis length_map length_upt diff_zero nth_map_upt add_0 less_le_trans)
qed

lemma check_words_first:
  "(case check_words need b st of None \<Rightarrow> (\<forall>k < length st. \<not> need \<le> lz_words_be (st ! k))
    | Some m \<Rightarrow> \<exists>k < length st. m = b + k \<and> need \<le> lz_words_be (st ! k) \<and> (\<forall>j < k. \<not> need \<le> lz_words_be (st ! j)))"
proof (induction need b st rule: check_words.induct)
  case (2 need b s st)
  have all: "(\<forall>j < Suc k. P j) \<longleftrightarrow> P 0 \<and> (\<forall>j < k. P (Suc j))" for P k
    by (auto simp: less_Suc_eq_0_disj)
  show ?case
  proof (cases "need \<le> lz_words_be s")
    case True
    then show ?thesis by auto
  next
    case False
    then show ?thesis using 2
      by (auto simp: all [of _ "\<lambda>k. \<not> need \<le> lz_words_be ((s # st) ! k)"] split: option.splits)
  qed
qed simp

lemma first_lane_chain:
  "first_lane P
     (if P 0 then Some 0 else if P 1 then Some 1 else if P 2 then Some 2 else if P 3 then Some 3
      else if P 4 then Some 4 else if P 5 then Some 5 else if P 6 then Some 6 else if P 7 then Some 7
      else None)"
  by (simp add: first_lane_def numeral_eq_Suc All_less_Suc)

lemma check8_first:
  assumes "length st = 8" and "\<forall>s \<in> set st. length s = 8"
  shows "first_lane (\<lambda>k. need \<le> lz_words_be (st ! k)) (check8 st need avx)"
proof -
  have l: "length (st ! k) = 8" if "k < 8" for k using assms that by simp
  consider (head) "need \<le> 32" | (avx) "\<not> need \<le> 32" "avx" | (words) "\<not> need \<le> 32" "\<not> avx" by blast
  then show ?thesis
  proof cases
    case head
    have h: "bit (head_hits need st) k \<longleftrightarrow> k < 8 \<and> need \<le> lz_words_be (st ! k)" for k
      using bit_head_hits [OF assms(1), of need k] lz_words_head [OF l head, of k] by auto
    show ?thesis
    proof (cases "head_hits need st = 0")
      case True
      then show ?thesis using h head by (auto simp: check8_def first_lane_def)
    next
      case False
      let ?k = "trailing_zeros (head_hits need st)"
      obtain i where i: "bit (head_hits need st) i" using False bit_word_eqI [of "head_hits need st" 0] by auto
      note t = takeWhile_first [OF trailing_zeros_def [of "head_hits need st"]]
      have "\<not> i < ?k" using i t(2) by blast
      moreover have "i < 8" using h i by blast
      ultimately have "?k < 32" by simp
      then have "bit (head_hits need st) ?k" by (rule t(1))
      then show ?thesis using h t(2) head False \<open>\<not> i < ?k\<close> by (auto simp: check8_def first_lane_def Let_def)
    qed
  next
    case avx
    have r: "lz_batch16_ref (st ! k) (st ! j) = [lz_words_be (st ! k), lz_words_be (st ! j)]"
      if "k < 8" "j < 8" for k j
      using l that by (simp add: lz_batch16_ref_words)
    have u: "[0..<4] = [0, 1, 2, 3 :: nat]" by (simp add: upt_rec)
    have c: "check_pairs need st (k # ps) =
        (if need \<le> lz_words_be (st ! (k * 2)) then Some (k * 2)
         else if need \<le> lz_words_be (st ! (k * 2 + 1)) then Some (k * 2 + 1) else check_pairs need st ps)"
      if "k < 4" for k ps
      using that by (simp add: r)
    have "check8 st need avx =
        (if need \<le> lz_words_be (st ! 0) then Some 0 else if need \<le> lz_words_be (st ! 1) then Some 1
         else if need \<le> lz_words_be (st ! 2) then Some 2 else if need \<le> lz_words_be (st ! 3) then Some 3
         else if need \<le> lz_words_be (st ! 4) then Some 4 else if need \<le> lz_words_be (st ! 5) then Some 5
         else if need \<le> lz_words_be (st ! 6) then Some 6 else if need \<le> lz_words_be (st ! 7) then Some 7
         else None)"
      using avx by (simp only: check8_def u c check_pairs.simps(1) if_True if_False) simp
    then show ?thesis using first_lane_chain [of "\<lambda>k. need \<le> lz_words_be (st ! k)"] by simp
  next
    case words
    then show ?thesis using check_words_first [where need = need and b = 0 and st = st] assms(1)
      by (auto simp: check8_def first_lane_def split: option.splits)
  qed
qed

section \<open>Decimal counters\<close>

fun fixed_dec :: "nat \<Rightarrow> nat \<Rightarrow> string" where
  "fixed_dec 0 n = []"
| "fixed_dec (Suc w) n = fixed_dec w (n div 10) @ [chr (48 + n mod 10)]"

lemma length_fixed_dec [simp]: "length (fixed_dec w n) = w"
  by (induction w arbitrary: n) auto

lemma fixed_loop_dec:
  "w \<le> length buf \<Longrightarrow> fixed_digits_loop w n buf = fixed_dec w (unat n) @ drop w buf"
proof (induction w arbitrary: n buf)
  case (Suc w)
  have "fixed_digits_loop (Suc w) n buf =
      fixed_dec w (unat n div 10) @ drop w (buf[w := chr (48 + unat n mod 10)])"
    using Suc by (simp add: Let_def digit_char_eq unat_div10_magic)
  also have "drop w (buf[w := chr (48 + unat n mod 10)]) = chr (48 + unat n mod 10) # drop (Suc w) buf"
    using Suc.prems by (simp add: drop_nth_Cons)
  finally show ?case by simp
qed simp

lemma digits_of_dec:
  assumes "w \<le> length buf" and "n < 2 ^ 64"
  shows "digits_of n buf w = fixed_dec w n @ drop w buf"
proof -
  have "unat (word_of_nat n :: u64) = n" using assms(2) by (simp add: unat_of_nat)
  then show ?thesis using assms(1) by (simp add: digits_of_def u64_digits_fixed_into_def fixed_loop_dec)
qed

lemma ord_digit: "ord (chr (48 + n mod 10)) = 48 + n mod 10"
  by (rule ord_chr) simp

lemma dec_step:
  fixes n c :: nat
  assumes "c \<le> 10"
  shows "(n + c) mod 10 = n mod 10 + c - (if 10 \<le> n mod 10 + c then 10 else 0)"
    and "(n + c) div 10 = n div 10 + (if 10 \<le> n mod 10 + c then 1 else 0)"
proof -
  define r where "r = n mod 10"
  define q where "q = n div 10"
  have n: "n = 10 * q + r" and r: "r < 10" by (simp_all add: r_def q_def)
  show "(n + c) mod 10 = n mod 10 + c - (if 10 \<le> n mod 10 + c then 10 else 0)"
    unfolding n using r assms by (auto simp: mod_if [of "r + c"] add.assoc)
  show "(n + c) div 10 = n div 10 + (if 10 \<le> n mod 10 + c then 1 else 0)"
    unfolding n using r assms by (auto simp: div_if [of 10 "r + c"] add.assoc)
qed

lemma incr_dec_add:
  "c \<le> 10 \<Longrightarrow> incr_dec (fixed_dec w n @ rest) w c = fixed_dec w (n + c) @ rest"
proof (induction w arbitrary: n c rest)
  case (Suc w)
  show ?case
  proof (cases "c = 0")
    case False
    let ?cur = "n mod 10 + c"
    let ?c' = "if 10 \<le> ?cur then 1 else 0 :: nat"
    have m: "(n + c) mod 10 = ?cur - (if 10 \<le> ?cur then 10 else 0)" and d: "(n + c) div 10 = n div 10 + ?c'"
      using dec_step [OF Suc.prems, of n] by simp_all
    have nth: "(fixed_dec (Suc w) n @ rest) ! w = chr (48 + n mod 10)" by (simp add: nth_append)
    have upd: "(fixed_dec (Suc w) n @ rest)[w := x] = fixed_dec w (n div 10) @ x # rest" for x
      by (simp add: list_update_append)
    have "incr_dec (fixed_dec (Suc w) n @ rest) (Suc w) c =
        incr_dec (fixed_dec w (n div 10) @ chr (48 + (n + c) mod 10) # rest) w ?c'"
      unfolding incr_dec.simps(2) nth upd Let_def using False by (simp add: ord_digit m del: fixed_dec.simps)
    also have "\<dots> = fixed_dec w (n div 10 + ?c') @ chr (48 + (n + c) mod 10) # rest"
      by (rule Suc.IH) simp
    finally show ?thesis by (simp add: d)
  qed simp
qed simp

section \<open>Framed messages\<close>

lemma length_overwrite [simp]: "off + length ys \<le> length xs \<Longrightarrow> length (overwrite xs off ys) = length xs"
  by (simp add: overwrite_def)

lemma overwrite_nil [simp]: "overwrite xs off [] = xs"
  by (simp add: overwrite_def)

lemma overwrite_middle:
  "off = length a \<Longrightarrow> length ys = length b \<Longrightarrow> overwrite (a @ b @ c) off ys = a @ ys @ c"
  by (simp add: overwrite_def)

lemma overwrite_twice:
  "length ys = length zs \<Longrightarrow> off + length ys \<le> length xs \<Longrightarrow>
   overwrite (overwrite xs off ys) off zs = overwrite xs off zs"
  by (simp add: overwrite_def)

lemma overwrite_snoc:
  "off + length ys < length xs \<Longrightarrow>
   overwrite xs off (ys @ [d]) = (overwrite xs off ys)[off + length ys := d]"
  by (simp add: overwrite_def list_update_append drop_nth_Cons)

lemma length_bytes_of [simp]: "length (bytes_of s) = length s"
  by (simp add: bytes_of_def)

text \<open>Patching writes the digits over the framed message, in one block or across both.\<close>

lemma patch_digit_at_overwrite:
  assumes "length b1 = 64" and "off + w \<le> 64 + length b2" and "w \<le> length ds"
  shows "\<exists>c1 c2. patch_digit_at (b1, b2) off w ds = (c1, c2) \<and> length c1 = 64 \<and> length c2 = length b2 \<and>
    c1 @ c2 = overwrite (b1 @ b2) off (bytes_of (take w ds))"
proof (cases "off + w \<le> 64")
  case True
  then show ?thesis using assms by (simp add: patch_digit_at_def overwrite_def)
next
  case False
  let ?f = "\<lambda>(b1, b2) i. let p = off + i; d = word_of_nat (ord (ds ! i))
    in if p < 64 then (b1[p := d], b2) else (b1, b2[p - 64 := d])"
  have "\<exists>c1 c2. foldl ?f (b1, b2) [0..<m] = (c1, c2) \<and> length c1 = 64 \<and> length c2 = length b2 \<and>
      c1 @ c2 = overwrite (b1 @ b2) off (bytes_of (take m ds))" if "m \<le> w" for m
    using that
  proof (induction m)
    case 0
    then show ?case using assms(1) by (simp add: bytes_of_def)
  next
    case (Suc m)
    then obtain c1 c2 where c: "foldl ?f (b1, b2) [0..<m] = (c1, c2)" "length c1 = 64" "length c2 = length b2"
      "c1 @ c2 = overwrite (b1 @ b2) off (bytes_of (take m ds))" by auto
    have t: "bytes_of (take (Suc m) ds) = bytes_of (take m ds) @ [word_of_nat (ord (ds ! m))]"
      using Suc.prems assms(3) by (simp add: bytes_of_def take_Suc_conv_app_nth)
    have "overwrite (b1 @ b2) off (bytes_of (take (Suc m) ds)) = (c1 @ c2)[off + m := word_of_nat (ord (ds ! m))]"
      unfolding t c(4) using Suc.prems assms by (subst overwrite_snoc) simp_all
    then show ?case using c(1,2,3) by (simp add: Let_def list_update_append)
  qed
  from this [of w] show ?thesis using False by (simp add: patch_digit_at_def)
qed

lemma length_be64 [simp]: "length (to_be_bytes64 w) = 8"
  by (simp add: to_be_bytes64_def)

lemma take_pre: "length a = n \<Longrightarrow> take n (a @ b) = a"
  by simp

definition frame_end :: "nat \<Rightarrow> nat" where
  "frame_end pos = (if pos < 56 then 64 else 128)"

definition frame_core :: "nat \<Rightarrow> nat \<Rightarrow> bytes" where
  "frame_core pos tot =
     [0x80] @ replicate (frame_end pos - 8 - (pos + 1)) 0 @ to_be_bytes64 (word_of_nat tot * 8)"

definition frame_post :: "nat \<Rightarrow> nat \<Rightarrow> bytes" where
  "frame_post pos tot = frame_core pos tot @ replicate (128 - frame_end pos) 0"

lemma length_frame_core: "pos < 83 \<Longrightarrow> length (frame_core pos tot) = frame_end pos - pos"
  unfolding frame_core_def frame_end_def by (cases "pos < 56") simp_all

lemma frame_end_bounds: "pos < 83 \<Longrightarrow> pos + 9 \<le> frame_end pos" "frame_end pos \<le> 128"
  unfolding frame_end_def by simp_all

lemma frame_zeros: "pos < 83 \<Longrightarrow> frame_end pos - 8 - (pos + 1) = (119 - pos mod 64) mod 64"
proof (cases "pos < 64")
  case True
  then show ?thesis by (cases "pos < 56") (simp_all add: frame_end_def mod_if)
next
  case False
  assume "pos < 83"
  then have "pos mod 64 = pos - 64" using False by (simp add: mod_if)
  then show ?thesis using False \<open>pos < 83\<close> by (simp add: frame_end_def mod_if)
qed

lemma frame_take:
  assumes "length m = pos" and "pos < 83"
  shows "take (frame_end pos) (m @ frame_post pos tot) = sha_pad tot m"
proof -
  have "length (m @ frame_core pos tot) = frame_end pos"
    using assms length_frame_core [of pos tot] frame_end_bounds(1) [of pos] by simp
  from take_pre [OF this, of "replicate (128 - frame_end pos) 0"]
  have "take (frame_end pos) (m @ frame_post pos tot) = m @ frame_core pos tot"
    unfolding frame_post_def by (simp only: append_assoc)
  also have "\<dots> = sha_pad tot m"
    using frame_zeros [OF assms(2)] assms(1) unfolding frame_core_def sha_pad_def by simp
  finally show ?thesis .
qed

lemma frame_pad:
  assumes "length m = pos" and "pos < 83"
  shows "sha_tail_pad (m @ replicate (128 - pos) 0) pos (word_of_nat tot * 8) = Some (m @ frame_post pos tot)"
proof -
  let ?e = "frame_end pos"
  have "drop ?e (m @ replicate (128 - pos) (0 :: u8)) = replicate (128 - ?e) 0"
    using assms frame_end_bounds [of pos] by simp
  moreover have "take pos (m @ replicate (128 - pos) (0 :: u8)) = m" using assms(1) by simp
  moreover have "pos < length (m @ replicate (128 - pos) (0 :: u8)) \<and> pos + 1 \<le> ?e - 8 \<and>
      ?e \<le> length (m @ replicate (128 - pos) (0 :: u8))"
    using assms frame_end_bounds [of pos] by simp
  ultimately show ?thesis
    unfolding sha_tail_pad_def frame_end_def [symmetric] Let_def frame_post_def frame_core_def
    by (simp only: if_True append_assoc simp_thms)
qed

lemma frame_blocks_frame:
  assumes "length tail < 64" and "width \<le> 19"
  shows "\<exists>b1 b2. frame_blocks tail width tot = Some (b1, b2, length tail + width \<le> 55) \<and>
    length b1 = 64 \<and> length b2 = 64 \<and>
    b1 @ b2 = tail @ replicate width 48 @ frame_post (length tail + width) tot"
proof -
  let ?pos = "length tail + width"
  let ?msg = "tail @ replicate width 48 @ frame_post ?pos tot"
  have pos: "?pos < 83" using assms by simp
  have "length ?msg = 128"
    using length_frame_core [OF pos, of tot] frame_end_bounds(1) [OF pos] frame_end_bounds(2) [of ?pos]
    by (simp add: frame_post_def)
  moreover have "frame_blocks tail width tot = Some (take 64 ?msg, drop 64 ?msg, ?pos \<le> 55)"
    using frame_pad [of "tail @ replicate width 48" ?pos tot] pos by (simp add: frame_blocks_def Let_def del: take_append drop_append)
  ultimately show ?thesis
    by (intro exI [of _ "take 64 ?msg"] exI [of _ "drop 64 ?msg"]) (simp del: take_append drop_append)
qed

end
