(* ===== verification/Pow_Digest.thy ===== *)
theory Pow_Digest
  imports Pow_Scan
begin

text \<open>
  What the contexts of \<open>pow.rs\<close>, \<open>hmac.rs\<close> and \<open>chain.rs\<close> compute for one nonce: the digests
  of \<^const>\<open>pow_digest\<close>, \<^const>\<open>hmac_digest\<close> and \<^const>\<open>chain_digest\<close> are SHA-256, HMAC-SHA-256
  and iterated SHA-256 of the data followed by the decimal digits of the nonce.
\<close>

section \<open>One message tail\<close>

lemma bytes_of_append [simp]: "bytes_of (a @ b) = bytes_of a @ bytes_of b"
  by (simp add: bytes_of_def)

lemma hash_framed_blocks:
  assumes "soft_ok soft" and "length st = 8" and "length b1 = 64" and "length b2 = 64"
  shows "hash_framed cpu soft st (b1, b2) single =
    foldl sha256_compress st (blocks64 (take (if single then 64 else 128) (b1 @ b2)))"
proof -
  have "blocks64 (b1 @ b2) = [b1, b2]"
    using blocks64_append [of b1 b2] blocks64_one assms(3,4) by simp
  then show ?thesis using assms
    by (simp add: hash_framed_def Let_def sha256_block_compress blocks64_one)
qed

text \<open>The framed buffers after the digits are patched in.\<close>

lemma patched_frame:
  assumes "frame_blocks tail width tot = Some (b1, b2, single)"
    and "length tail < 64" and "width \<le> 19" and "width \<le> length ds"
    and "patch_digit_at (b1, b2) (length tail) width ds = (c1, c2)"
  shows "length c1 = 64" "length c2 = 64"
    "take (if single then 64 else 128) (c1 @ c2) = sha_pad tot (tail @ bytes_of (take width ds))"
proof -
  have f: "length b1 = 64" "length b2 = 64" "single = (length tail + width \<le> 55)"
    "b1 @ b2 = tail @ replicate width 48 @ frame_post (length tail + width) tot"
    using frame_blocks_frame [OF assms(2,3), of tot] assms(1) by auto
  have c: "length c1 = 64" "length c2 = 64" "c1 @ c2 = overwrite (b1 @ b2) (length tail) (bytes_of (take width ds))"
    using patch_digit_at_overwrite [OF f(1), of "length tail" width b2 ds] assms(2-5) f(2) by auto
  have "c1 @ c2 = (tail @ bytes_of (take width ds)) @ frame_post (length tail + width) tot"
    unfolding c(3) f(4) using overwrite_middle [of "length tail" tail "bytes_of (take width ds)"
        "replicate width 48"] assms(4) by simp
  moreover have "(if single then 64 else 128) = frame_end (length tail + width)"
    unfolding f(3) frame_end_def by auto
  ultimately show "length c1 = 64" "length c2 = 64"
    "take (if single then 64 else 128) (c1 @ c2) = sha_pad tot (tail @ bytes_of (take width ds))"
    using c(1,2) frame_take [of "tail @ bytes_of (take width ds)" "length tail + width" tot] assms(2-4)
    by simp_all
qed

lemma hash_patched:
  assumes "soft_ok soft" and "length st = 8"
    and "frame_blocks tail width (n0 + length tail + width) = Some (b1, b2, single)"
    and "length tail < 64" and "width \<le> 19" and "width \<le> length ds"
  shows "words_be32 (hash_framed cpu soft st (patch_digit_at (b1, b2) (length tail) width ds) single) =
    sha_finish st n0 (tail @ bytes_of (take width ds))"
proof -
  obtain c1 c2 where c: "patch_digit_at (b1, b2) (length tail) width ds = (c1, c2)" by fastforce
  note p = patched_frame [OF assms(3-6) c]
  have "n0 + length (tail @ bytes_of (take width ds)) = n0 + length tail + width" using assms(6) by simp
  then show ?thesis
    unfolding sha_finish_def c hash_framed_blocks [OF assms(1,2) p(1,2)] p(3) by (simp add: add.assoc)
qed

lemma length_zeros20 [simp]: "length zeros20 = 20"
  by (simp add: zeros20_def)

lemma tail_digest_finish:
  assumes "soft_ok soft" and "length (tc_prefix ctx) = 8" and "length (tc_tail ctx) < 64"
    and "width \<le> 19" and "nonce < 2 ^ 64" and "tc_total ctx = n0 + length (tc_tail ctx) + width"
  shows "tail_digest cpu soft ctx nonce width =
    Some (sha_finish (tc_prefix ctx) n0 (tc_tail ctx @ bytes_of (fixed_dec width nonce)))"
proof -
  obtain b1 b2 single where f: "frame_blocks (tc_tail ctx) width (tc_total ctx) = Some (b1, b2, single)"
    using frame_blocks_frame [OF assms(3,4)] by blast
  have "digits_of nonce zeros20 width = fixed_dec width nonce @ drop width zeros20"
    using assms(4,5) by (intro digits_of_dec) simp_all
  then show ?thesis
    using hash_patched [OF assms(1,2) f [unfolded assms(6)] assms(3,4), of "digits_of nonce zeros20 width"] assms(4) f
    by (simp add: tail_digest_def Let_def)
qed

section \<open>Plain, keyed and chained digests\<close>

lemma take_drop_len: "take (length d - k) d @ drop (length d - k) d = d"
  by (rule append_take_drop_id)

lemma length_H0 [simp]: "length H0 = 8"
  by (simp add: H0_def)

text \<open>A context split off \<open>n\<close> bytes of tail; finishing from the midstate is hashing from the start.\<close>

lemma midstate_finish:
  assumes "soft_ok soft" and "length p = 8"
    and "sha256_midstate (sha256_block cpu soft) p data = (st, tail, n)"
  shows "sha_finish st (n0 + (length data - n)) (take n tail @ ys) = sha_finish p n0 (data @ ys)"
proof -
  note m = midstate_blocks [OF assms]
  let ?xs = "take (length data - n) data"
  have "64 dvd length ?xs" using m(2) by (simp add: minus_mod_eq_mult_div)
  then have "sha_finish p n0 (?xs @ drop (length data - n) data @ ys) =
      sha_finish (foldl sha256_compress p (blocks64 ?xs)) (n0 + length ?xs) (drop (length data - n) data @ ys)"
    by (rule sha_finish_append)
  moreover have "length ?xs = length data - n" by simp
  ultimately show ?thesis unfolding m(1,3)
    by (metis append.assoc append_take_drop_id)
qed

lemma midstate_tail:
  assumes "soft_ok soft" and "length p = 8"
    and "sha256_midstate (sha256_block cpu soft) p data = (st, tail, n)"
  shows "length (take n tail) = n" "n < 64" "n \<le> length data"
  using midstate_blocks [OF assms] by simp_all

lemma pow_digest_spec:
  assumes "soft_ok soft" and "width \<le> 19" and "nonce < 2 ^ 64"
  shows "pow_digest cpu soft (pow_new cpu soft avx data difficulty) nonce width =
    Some (sha256_digest (data @ bytes_of (fixed_dec width nonce)))"
proof -
  obtain st tail n where m: "sha256_midstate (sha256_block cpu soft) H0 data = (st, tail, n)"
    by (metis prod_cases3)
  note b = midstate_blocks [OF assms(1) length_H0 m] and t = midstate_tail [OF assms(1) length_H0 m]
  let ?ctx = "\<lparr>tc_prefix = st, tc_tail = take n tail, tc_total = length data + width\<rparr>"
  have "tc_total ?ctx = (length data - n) + length (tc_tail ?ctx) + width" using t(1,3) by simp
  then have "tail_digest cpu soft ?ctx nonce width =
      Some (sha_finish st (length data - n) (take n tail @ bytes_of (fixed_dec width nonce)))"
    using tail_digest_finish [OF assms(1), of ?ctx width nonce "length data - n"] assms(2,3) b(4) t(1,2) by simp
  moreover have "sha_finish st (length data - n) (take n tail @ bytes_of (fixed_dec width nonce)) =
      sha256_digest (data @ bytes_of (fixed_dec width nonce))"
    using midstate_finish [OF assms(1) length_H0 m, of 0] by (simp add: sha256_digest_def)
  moreover have "pow_digest cpu soft (pow_new cpu soft avx data difficulty) nonce width =
      tail_digest cpu soft ?ctx nonce width"
    by (simp add: pow_digest_def pow_new_def m)
  ultimately show ?thesis by simp
qed

text \<open>The keyed digest of RFC 2104.\<close>

definition hmac_pad :: "bytes \<Rightarrow> u8 \<Rightarrow> bytes" where
  "hmac_pad key x =
     (let k = (if 64 < length key then sha256_digest key else key)
      in map (\<lambda>b. b XOR x) (k @ replicate (64 - length k) 0))"

definition hmac_sha256_spec :: "bytes \<Rightarrow> bytes \<Rightarrow> bytes" where
  "hmac_sha256_spec key msg =
     sha256_digest (hmac_pad key 0x5c @ sha256_digest (hmac_pad key 0x36 @ msg))"

lemma length_sha_finish: "length st = 8 \<Longrightarrow> length (sha_finish st n xs) = 32"
  by (simp add: sha_finish_def length_foldl_compress)

lemma length_sha256_digest [simp]: "length (sha256_digest xs) = 32"
  by (simp add: sha256_digest_def length_sha_finish)

lemma length_hmac_pad [simp]: "length (hmac_pad key x) = 64"
  by (auto simp: hmac_pad_def Let_def)

lemma hmac_key_norm_pad: "map (\<lambda>b. x XOR b) (hmac_key_norm sha256_digest key) = hmac_pad key x"
  by (simp add: hmac_key_norm_def hmac_pad_def overwrite_def xor.commute Let_def)

text \<open>The second block of the outer hash: a digest, its padding and the length of both blocks.\<close>

lemma pad64_digest:
  assumes "length h = 32" and "length blk = 64" and "take 32 blk = h"
  shows "pad64 blk 32 tot = Some (h @ [0x80] @ replicate 23 0 @ to_be_bytes64 (word_of_nat tot * 8))"
  using assms by (simp add: pad64_def sha_tail_pad_def Let_def)

lemma sha_pad_digest:
  "length h = 32 \<Longrightarrow> sha_pad tot h = h @ [0x80] @ replicate 23 0 @ to_be_bytes64 (word_of_nat tot * 8)"
  by (simp add: sha_pad_def)

lemma second_block_finish:
  assumes "length h = 32" and "length st = 8" and "64 dvd n"
  shows "words_be32 (sha256_compress st (sha_pad (n + 32) h)) = sha_finish st n h"
proof -
  have "length (sha_pad (n + 32) h) = 64" using assms(1) by (simp add: sha_pad_digest)
  then show ?thesis using assms(1) by (simp add: sha_finish_def blocks64_one)
qed

lemma hmac_new_fields:
  assumes "soft_ok soft"
    and "sha256_midstate (sha256_block cpu soft) (sha256_compress H0 (hmac_pad key 0x36)) msg = (st, tail, n)"
  shows "hmac_new cpu soft sha256_digest avx key msg difficulty =
    Some \<lparr>hm_inner_prefix = st, hm_msg_tail = tail, hm_msg_tail_len = n, hm_msg_len = length msg,
      hm_outer_prefix = sha256_compress H0 (hmac_pad key 0x5c),
      hm_outer_tail = [0x80] @ replicate 23 0 @ to_be_bytes64 (word_of_nat 96 * 8),
      hm_need = need_bits_of difficulty, hm_avx = avx\<rparr>"
proof -
  have "pad64 (replicate 64 0) 32 96 =
      Some (replicate 32 0 @ [0x80] @ replicate 23 0 @ to_be_bytes64 (word_of_nat 96 * 8))"
    by (rule pad64_digest) simp_all
  then show ?thesis using assms(2)
    by (simp add: hmac_new_def Let_def hmac_key_norm_pad sha256_block_compress [OF assms(1)])
qed

lemma outer_round_spec:
  assumes "soft_ok soft" and "length h = 32"
    and "hm_outer_prefix c = sha256_compress H0 (hmac_pad key 0x5c)"
    and "hm_outer_tail c = [0x80] @ replicate 23 0 @ to_be_bytes64 (word_of_nat 96 * 8)"
  shows "outer_round cpu soft c h = sha256_digest (hmac_pad key 0x5c @ h)"
proof -
  have "sha_pad (64 + 32) h = h @ hm_outer_tail c"
    unfolding assms(4) sha_pad_digest [OF assms(2)] by simp
  moreover have "length (h @ hm_outer_tail c) = 64" unfolding assms(4) using assms(2) by simp
  moreover have "blocks64 (hmac_pad key 0x5c) = [hmac_pad key 0x5c]" by (rule blocks64_one) simp
  then have "sha256_digest (hmac_pad key 0x5c @ h) = sha_finish (sha256_compress H0 (hmac_pad key 0x5c)) 64 h"
    using sha_finish_append [of "hmac_pad key 0x5c" H0 0 h] by (simp add: sha256_digest_def)
  ultimately show ?thesis
    using second_block_finish [OF assms(2), of "sha256_compress H0 (hmac_pad key 0x5c)" 64] assms(3)
    by (simp add: outer_round_def sha256_block_compress [OF assms(1)])
qed

lemma hmac_digest_lemma:
  assumes "soft_ok soft" and "width \<le> 19" and "nonce < 2 ^ 64"
  shows "\<exists>c. hmac_new cpu soft sha256_digest avx key msg difficulty = Some c \<and>
    hmac_digest cpu soft c nonce width = Some (hmac_sha256_spec key (msg @ bytes_of (fixed_dec width nonce)))"
proof -
  let ?ip = "hmac_pad key 0x36" and ?ds = "bytes_of (fixed_dec width nonce)"
  have lp: "length (sha256_compress H0 ?ip) = 8" by simp
  obtain st tail n where m: "sha256_midstate (sha256_block cpu soft) (sha256_compress H0 ?ip) msg = (st, tail, n)"
    by (metis prod_cases3)
  note b = midstate_blocks [OF assms(1) lp m] and t = midstate_tail [OF assms(1) lp m]
  obtain c where c: "hmac_new cpu soft sha256_digest avx key msg difficulty = Some c"
    "hm_inner_prefix c = st" "hm_msg_tail c = tail" "hm_msg_tail_len c = n" "hm_msg_len c = length msg"
    "hm_outer_prefix c = sha256_compress H0 (hmac_pad key 0x5c)"
    "hm_outer_tail c = [0x80] @ replicate 23 0 @ to_be_bytes64 (word_of_nat 96 * 8)"
    unfolding hmac_new_fields [OF assms(1) m] by simp
  let ?ctx = "\<lparr>tc_prefix = st, tc_tail = take n tail, tc_total = hmac_total_of c width\<rparr>"
  have "tc_total ?ctx = (64 + (length msg - n)) + length (tc_tail ?ctx) + width"
    using t(1,3) c(5) by (simp add: hmac_total_of_def)
  then have "tail_digest cpu soft ?ctx nonce width = Some (sha_finish st (64 + (length msg - n)) (take n tail @ ?ds))"
    using tail_digest_finish [OF assms(1), of ?ctx width nonce "64 + (length msg - n)"] assms(2,3) b(4) t(1,2)
    by simp
  moreover have "sha_finish st (64 + (length msg - n)) (take n tail @ ?ds) = sha256_digest (?ip @ msg @ ?ds)"
    using midstate_finish [OF assms(1) lp m, of 64] sha_finish_append [of ?ip H0 0 "msg @ ?ds"]
      blocks64_one [of ?ip] by (simp add: sha256_digest_def)
  moreover have "outer_round cpu soft c h = sha256_digest (hmac_pad key 0x5c @ h)" if "length h = 32" for h
    using outer_round_spec [OF assms(1) that c(6,7)] .
  ultimately show ?thesis using c(1-4) by (simp add: hmac_digest_def hmac_sha256_spec_def)
qed

lemma chained_spec:
  assumes "soft_ok soft" and "length h = 32"
  shows "chained cpu soft h = sha256_digest h"
proof -
  have "pad64 (overwrite (replicate 64 0) 0 h) 32 32 =
      Some (h @ [0x80] @ replicate 23 0 @ to_be_bytes64 (word_of_nat 32 * 8))"
    using assms(2) by (intro pad64_digest) (simp_all add: overwrite_def)
  then have "chain_block h (replicate 64 0) = sha_pad (0 + 32) h"
    by (simp add: chain_block_def sha_pad_digest [OF assms(2)])
  moreover have "length (sha_pad (0 + 32) h) = 64" using assms(2) by (simp add: sha_pad_digest)
  ultimately show ?thesis
    using second_block_finish [OF assms(2), of H0 0]
    by (simp add: chained_def sha256_block_compress [OF assms(1)] sha256_digest_def)
qed

lemma chained_iter:
  assumes "soft_ok soft" and "length h = 32"
  shows "(chained cpu soft ^^ k) h = (sha256_digest ^^ k) h" and "length ((sha256_digest ^^ k) h) = 32"
proof -
  have "(chained cpu soft ^^ k) h = (sha256_digest ^^ k) h \<and> length ((sha256_digest ^^ k) h) = 32"
    by (induction k) (simp_all add: assms chained_spec)
  then show "(chained cpu soft ^^ k) h = (sha256_digest ^^ k) h" "length ((sha256_digest ^^ k) h) = 32" by auto
qed

lemma chain_digest_lemma:
  assumes "soft_ok soft" and "width \<le> 19" and "nonce < 2 ^ 64"
  shows "chain_digest cpu soft (chain_new cpu soft avx salt rounds difficulty) nonce width =
    Some ((sha256_digest ^^ max rounds 1) (salt @ bytes_of (fixed_dec width nonce)))"
proof -
  let ?m = "salt @ bytes_of (fixed_dec width nonce)"
  have "max rounds 1 = Suc (max rounds 1 - 1)" by simp
  then have "(sha256_digest ^^ max rounds 1) ?m = (sha256_digest ^^ (max rounds 1 - 1)) (sha256_digest ?m)"
    by (metis funpow_Suc_right comp_apply)
  then show ?thesis
    using pow_digest_spec [OF assms, of cpu avx salt difficulty]
    by (simp add: chain_digest_def chain_new_def chained_iter [OF assms(1)])
qed

end
