(* ===== verification/Pow_Batch.thy ===== *)
theory Pow_Batch
  imports Pow_Digest
begin

text \<open>
  The search loops of \<open>scan.rs\<close>: for every context that keeps the contract of the trait
  \<open>BatchCtx\<close> (the locale \<open>batch_lanes\<close>), the eight-lane loop finds the least nonce of its range
  whose digest is hard enough. The contexts of \<open>pow.rs\<close>, \<open>hmac.rs\<close> and \<open>chain.rs\<close> are shown to
  keep the contract.
\<close>

section \<open>The least hit of a range\<close>

definition least_hit :: "(nat \<Rightarrow> bytes) \<Rightarrow> nat \<Rightarrow> nat \<Rightarrow> nat \<Rightarrow> (nat \<times> bytes) option \<Rightarrow> bool" where
  "least_hit D need base e r \<longleftrightarrow>
     (case r of
        None \<Rightarrow> (\<forall>n \<in> {base..<e}. \<not> digest_hit need (D n))
      | Some (n, h) \<Rightarrow> base \<le> n \<and> n < e \<and> h = D n \<and> digest_hit need h \<and>
          (\<forall>m \<in> {base..<n}. \<not> digest_hit need (D m)))"

lemma least_hit_skip:
  assumes "least_hit D need c e r" and "b \<le> c" and "\<forall>n \<in> {b..<c}. \<not> digest_hit need (D n)"
  shows "least_hit D need b e r"
  using assms by (fastforce simp: least_hit_def not_less split: option.splits)

lemma scalar_scan_least:
  assumes "\<And>s n h s'. I s \<Longrightarrow> base \<le> n \<Longrightarrow> n < e \<Longrightarrow> digest s n = (h, s') \<Longrightarrow> I s' \<and> h = D n"
    and "I s" and "base \<le> n"
  shows "least_hit D need n e (scalar_scan n e need digest s)"
  using assms(2,3)
proof (induction "e - n" arbitrary: n s)
  case 0
  then show ?case by (simp add: scalar_scan.simps [of n] least_hit_def)
next
  case (Suc k)
  then have n: "n < e" by simp
  obtain h s' where d: "digest s n = (h, s')" by fastforce
  have s': "I s'" "h = D n" using assms(1) [OF Suc.prems n d] by auto
  show ?case
  proof (cases "digest_hit need h")
    case True
    then show ?thesis using n d s' by (simp add: scalar_scan.simps [of n] least_hit_def)
  next
    case False
    have "least_hit D need (n + 1) e (scalar_scan (n + 1) e need digest s')"
      using Suc.hyps(2) Suc.prems s'(1) by (intro Suc.hyps(1)) simp_all
    moreover have "\<forall>m \<in> {n..<n + 1}. \<not> digest_hit need (D m)" using False s'(2) by auto
    ultimately have "least_hit D need n e (scalar_scan (n + 1) e need digest s')"
      using least_hit_skip [of D need "n + 1" e _ n] by simp
    then show ?thesis using n d False by (simp add: scalar_scan.simps [of n])
  qed
qed

section \<open>Framed buffers\<close>

definition framed :: "bytes \<Rightarrow> nat \<Rightarrow> nat \<Rightarrow> bytes \<Rightarrow> bytes \<times> bytes \<Rightarrow> bool" where
  "framed tail width tot ds b \<longleftrightarrow>
     length (fst b) = 64 \<and> length (snd b) = 64 \<and> length ds = width \<and>
     fst b @ snd b = tail @ ds @ frame_post (length tail + width) tot"

lemma framed_patch:
  assumes "framed tail width tot ds b" and "length tail < 64" and "width \<le> 19" and "width \<le> length digits"
  shows "framed tail width tot (bytes_of (take width digits)) (patch_digit_at b (length tail) width digits)"
proof -
  obtain b1 b2 where b: "b = (b1, b2)" by fastforce
  have f: "length b1 = 64" "length b2 = 64" "length ds = width"
    "b1 @ b2 = tail @ ds @ frame_post (length tail + width) tot"
    using assms(1) by (simp_all add: framed_def b)
  obtain c1 c2 where c: "patch_digit_at (b1, b2) (length tail) width digits = (c1, c2)" "length c1 = 64"
    "length c2 = length b2" "c1 @ c2 = overwrite (b1 @ b2) (length tail) (bytes_of (take width digits))"
    using patch_digit_at_overwrite [OF f(1), of "length tail" width b2 digits] assms(2-4) f(2) by auto
  have "c1 @ c2 = tail @ bytes_of (take width digits) @ frame_post (length tail + width) tot"
    unfolding c(4) f(4) using f(3) assms(4) by (intro overwrite_middle) simp_all
  then show ?thesis using c f(2) assms(4) by (simp add: framed_def b)
qed

lemma framed_hash:
  assumes "soft_ok soft" and "length st = 8" and "length tail < 64" and "width \<le> 19"
    and "framed tail width (n0 + length tail + width) ds b"
  shows "words_be32 (hash_framed cpu soft st b (length tail + width \<le> 55)) = sha_finish st n0 (tail @ ds)"
proof -
  obtain b1 b2 where b: "b = (b1, b2)" by fastforce
  have f: "length b1 = 64" "length b2 = 64" "length ds = width"
    "b1 @ b2 = (tail @ ds) @ frame_post (length tail + width) (n0 + length tail + width)"
    using assms(5) by (simp_all add: framed_def b)
  have e: "(if length tail + width \<le> 55 then 64 else 128) = frame_end (length tail + width)"
    by (auto simp: frame_end_def)
  have "take (frame_end (length tail + width)) (b1 @ b2) = sha_pad (n0 + length tail + width) (tail @ ds)"
    unfolding f(4) using assms(3,4) f(3) by (intro frame_take) simp_all
  then show ?thesis using f(3) unfolding b hash_framed_blocks [OF assms(1,2) f(1,2)] e
    by (simp add: sha_finish_def add.assoc)
qed

lemma length_hash_framed:
  assumes "soft_ok soft" and "length st = 8" and "framed tail width tot ds b"
  shows "length (hash_framed cpu soft st b single) = 8"
  using assms by (simp add: hash_framed_def framed_def Let_def sha256_block_compress)

lemma framed_build:
  assumes "length tail < 64" and "width \<le> 19"
  obtains b1 b2 where
    "scan_plan_build width tail tot =
       Some \<lparr>sp_width = width, sp_block1 = b1, sp_block2 = b2, sp_single = (length tail + width \<le> 55)\<rparr>"
    "framed tail width tot (replicate width 48) (b1, b2)"
  using frame_blocks_frame [OF assms, of tot] by (auto simp: scan_plan_build_def framed_def)

section \<open>Eight lanes\<close>

definition lanes :: "u32 list list \<Rightarrow> bool" where
  "lanes st \<longleftrightarrow> length st = 8 \<and> (\<forall>k < 8. length (st ! k) = 8)"

lemma lanes_set: "lanes st \<longleftrightarrow> length st = 8 \<and> (\<forall>s \<in> set st. length s = 8)"
  by (auto simp: lanes_def all_set_conv_all_nth)

lemma compress8_lanes:
  assumes "soft_ok soft" and "lanes st" and "length bs = 8" and "\<forall>k < 8. length (bs ! k) = 64"
  shows "lanes (compress8 cpu soft st bs)"
    and "k < 8 \<Longrightarrow> compress8 cpu soft st bs ! k = sha256_block cpu soft (st ! k) (bs ! k)"
proof -
  have "\<forall>b \<in> set bs. length b = 64" using assms(3,4) by (metis in_set_conv_nth)
  then have e: "compress8 cpu soft st bs = map (\<lambda>(s, b). sha256_compress s b) (zip st bs)"
    using assms(2,3) by (intro compress8_map [OF assms(1)]) (simp_all add: lanes_set)
  show "lanes (compress8 cpu soft st bs)" using assms(2,3) by (simp add: e lanes_def)
  show "k < 8 \<Longrightarrow> compress8 cpu soft st bs ! k = sha256_block cpu soft (st ! k) (bs ! k)"
    using assms by (simp add: e lanes_def sha256_block_compress)
qed

definition batch_state :: "bool \<Rightarrow> soft_block \<Rightarrow> u32 list \<Rightarrow> bytes list \<Rightarrow> bytes \<Rightarrow> bool \<Rightarrow> u32 list list" where
  "batch_state cpu soft prefix bs b2 single =
     (let st = compress8 cpu soft (replicate 8 prefix) bs
      in if single then st else compress8 cpu soft st (replicate 8 b2))"

lemma batch_state_hash:
  assumes "soft_ok soft" and "length prefix = 8" and "length bs = 8"
    and "\<forall>k < 8. length (bs ! k) = 64" and "length b2 = 64"
  shows "lanes (batch_state cpu soft prefix bs b2 single)"
    and "k < 8 \<Longrightarrow> batch_state cpu soft prefix bs b2 single ! k = hash_framed cpu soft prefix (bs ! k, b2) single"
proof -
  let ?st = "compress8 cpu soft (replicate 8 prefix) bs"
  have "lanes (replicate 8 prefix)" using assms(2) by (simp add: lanes_def)
  note s = compress8_lanes [where cpu = cpu, OF assms(1) this assms(3,4)]
  have "\<forall>k < 8. length (replicate 8 b2 ! k) = 64" using assms(5) by simp
  note t = compress8_lanes [where cpu = cpu, OF assms(1) s(1) _ this]
  show "lanes (batch_state cpu soft prefix bs b2 single)" using s(1) t(1) by (simp add: batch_state_def Let_def)
  show "batch_state cpu soft prefix bs b2 single ! k = hash_framed cpu soft prefix (bs ! k, b2) single" if "k < 8"
    using s(2) [OF that] t(2) [OF _ that] that by (simp add: batch_state_def hash_framed_def Let_def)
qed

text \<open>The eight decimal counters at a base, and their digits written into the eight blocks.\<close>

definition counters :: "nat \<Rightarrow> nat \<Rightarrow> string list" where
  "counters cur width = map (\<lambda>k. fixed_dec width (cur + k) @ drop width zeros20) [0..<8]"

lemma nonce_digits_new_counters:
  assumes "width \<le> 19" and "base + 8 \<le> 2 ^ 64"
  shows "nonce_digits_new base width = counters base width"
  unfolding nonce_digits_new_def counters_def using assms by (intro map_cong refl digits_of_dec) auto

lemma counters_bump: "nonce_digits_bump (counters cur width) width = counters (cur + 8) width"
  by (simp add: nonce_digits_bump_def counters_def incr_dec_add ac_simps)

definition blocks_framed :: "bytes \<Rightarrow> nat \<Rightarrow> nat \<Rightarrow> bytes list \<Rightarrow> bytes \<Rightarrow> bool" where
  "blocks_framed tail width tot bs b2 \<longleftrightarrow>
     length bs = 8 \<and> (\<forall>k < 8. \<exists>ds. framed tail width tot ds (bs ! k, b2))"

lemma counters_patch:
  assumes "blocks_framed tail width tot bs b2" and "length tail < 64" and "width \<le> 19"
    and "length tail + width \<le> 64"
    and bs'_def: "bs' = nonce_digits_patch (counters cur width) bs (length tail) width"
  shows "length bs' = 8"
    and "k < 8 \<Longrightarrow> framed tail width tot (bytes_of (fixed_dec width (cur + k))) (bs' ! k, b2)"
    and "blocks_framed tail width tot bs' b2"
proof -
  show l: "length bs' = 8" using assms(1) by (simp add: bs'_def nonce_digits_patch_def counters_def blocks_framed_def)
  show f: "framed tail width tot (bytes_of (fixed_dec width (cur + k))) (bs' ! k, b2)" if k: "k < 8" for k
  proof -
    obtain ds where d: "framed tail width tot ds (bs ! k, b2)" using assms(1) k by (auto simp: blocks_framed_def)
    have n: "counters cur width ! k = fixed_dec width (cur + k) @ drop width zeros20"
      using k by (simp add: counters_def)
    have "patch_digit_at (bs ! k, b2) (length tail) width (counters cur width ! k) = (bs' ! k, b2)"
      using k assms(1,4) by (simp add: patch_digit_at_def bs'_def nonce_digits_patch_def blocks_framed_def counters_def)
    then show ?thesis using framed_patch [OF d assms(2,3), of "counters cur width ! k"] assms(3) by (simp add: n)
  qed
  show "blocks_framed tail width tot bs' b2" using l f by (auto simp: blocks_framed_def)
qed

section \<open>The contract of a context\<close>

text \<open>
  \<open>mk p\<close> is the context made of the parameters \<open>p\<close>, \<open>digest p\<close> its digest of one nonce. The
  context frames a message tail, starts from a midstate, and its rounds after the first map
  each lane's state as the single-lane \<open>bc_mid_one\<close> does, \<open>inv\<close> being what they keep of their
  scratch blocks.
\<close>

definition frames :: "batch_ctx \<Rightarrow> nat \<Rightarrow> bytes \<Rightarrow> nat \<Rightarrow> bool" where
  "frames ctx width tail n0 \<longleftrightarrow>
     length tail = bc_off ctx \<and>
     bc_plan ctx width = scan_plan_build width tail (n0 + length tail + width)"

locale batch_lanes =
  fixes mk :: "bool \<Rightarrow> soft_block \<Rightarrow> 'p \<Rightarrow> batch_ctx"
    and digest :: "bool \<Rightarrow> soft_block \<Rightarrow> 'p \<Rightarrow> nat \<Rightarrow> nat \<Rightarrow> bytes option"
    and inv :: "bool \<Rightarrow> soft_block \<Rightarrow> 'p \<Rightarrow> bytes list \<Rightarrow> bool"
  assumes prefix: "soft_ok soft \<Longrightarrow> length (bc_prefix (mk cpu soft p)) = 8"
    and off: "soft_ok soft \<Longrightarrow> bc_off (mk cpu soft p) < 64"
    and plan: "soft_ok soft \<Longrightarrow> width \<le> 19 \<Longrightarrow>
      \<exists>tail n0. frames (mk cpu soft p) width tail n0 \<and>
        (\<forall>nonce < 2 ^ 64. digest cpu soft p nonce width =
           Some (bc_mid_one (mk cpu soft p)
             (be32_words (sha_finish (bc_prefix (mk cpu soft p)) n0 (tail @ bytes_of (fixed_dec width nonce))))))"
    and init: "soft_ok soft \<Longrightarrow> inv cpu soft p (bc_init (mk cpu soft p) (replicate 8 (replicate 64 0)))"
    and step: "soft_ok soft \<Longrightarrow> inv cpu soft p bs \<Longrightarrow> lanes st \<Longrightarrow> bc_step (mk cpu soft p) st bs = (st', bs') \<Longrightarrow>
      inv cpu soft p bs' \<and> lanes st' \<and> (\<forall>k < 8. words_be32 (st' ! k) = bc_mid_one (mk cpu soft p) (st ! k))"
begin

lemma plan_frame:
  assumes "soft_ok soft" and "width \<le> 19" and "bc_plan (mk cpu soft p) width = Some pl"
  obtains tail n0 b1 b2 where "bc_off (mk cpu soft p) = length tail" and "length tail < 64"
    and "pl = \<lparr>sp_width = width, sp_block1 = b1, sp_block2 = b2, sp_single = (length tail + width \<le> 55)\<rparr>"
    and "framed tail width (n0 + length tail + width) (replicate width 48) (b1, b2)"
    and "\<And>nonce. nonce < 2 ^ 64 \<Longrightarrow> digest cpu soft p nonce width =
      Some (bc_mid_one (mk cpu soft p)
        (be32_words (sha_finish (bc_prefix (mk cpu soft p)) n0 (tail @ bytes_of (fixed_dec width nonce)))))"
proof -
  obtain tail n0 where f: "frames (mk cpu soft p) width tail n0"
    and dg: "\<And>nonce. nonce < 2 ^ 64 \<Longrightarrow> digest cpu soft p nonce width =
      Some (bc_mid_one (mk cpu soft p)
        (be32_words (sha_finish (bc_prefix (mk cpu soft p)) n0 (tail @ bytes_of (fixed_dec width nonce)))))"
    using plan [OF assms(1,2)] by blast
  have f': "bc_off (mk cpu soft p) = length tail"
    "scan_plan_build width tail (n0 + length tail + width) = Some pl"
    using f assms(3) by (simp_all add: frames_def)
  have t: "length tail < 64" using off [OF assms(1), of cpu p] f'(1) by simp
  obtain b1 b2 where "scan_plan_build width tail (n0 + length tail + width) =
       Some \<lparr>sp_width = width, sp_block1 = b1, sp_block2 = b2, sp_single = (length tail + width \<le> 55)\<rparr>"
    "framed tail width (n0 + length tail + width) (replicate width 48) (b1, b2)"
    by (rule framed_build [OF t assms(2), of "n0 + length tail + width"])
  then show ?thesis using that f' t dg by simp
qed

lemma scalar_least:
  assumes "soft_ok soft" and "width \<le> 19" and "bc_plan (mk cpu soft p) width = Some pl" and "e \<le> 2 ^ 64"
  shows "least_hit (\<lambda>n. the (digest cpu soft p n width)) (bc_need (mk cpu soft p)) base e
    (scalar_scan_plan cpu soft (mk cpu soft p) pl base e)"
proof -
  let ?c = "mk cpu soft p"
  obtain tail n0 b1 b2 where f: "bc_off ?c = length tail" and t: "length tail < 64"
    and pl: "pl = \<lparr>sp_width = width, sp_block1 = b1, sp_block2 = b2, sp_single = (length tail + width \<le> 55)\<rparr>"
    and fr: "framed tail width (n0 + length tail + width) (replicate width 48) (b1, b2)"
    and dg: "\<And>nonce. nonce < 2 ^ 64 \<Longrightarrow> digest cpu soft p nonce width =
      Some (bc_mid_one ?c (be32_words (sha_finish (bc_prefix ?c) n0 (tail @ bytes_of (fixed_dec width nonce)))))"
    by (rule plan_frame [OF assms(1-3)]) (rule that, assumption+)
  let ?I = "\<lambda>(digits :: string, b). 20 \<le> length digits \<and>
    (\<exists>ds. framed tail width (n0 + length tail + width) ds b)"
  show ?thesis unfolding scalar_scan_plan_def
  proof (rule scalar_scan_least [where I = ?I and base = base])
    fix s n h s'
    assume s: "?I s" and n: "n < e" and d: "scan_digest cpu soft ?c pl s n = (h, s')"
    obtain digits b where sb: "s = (digits, b)" by (cases s)
    let ?d = "digits_of n digits width" and ?f = "fixed_dec width n"
    have dd: "?d = ?f @ drop width digits" using s n assms(2,4) by (intro digits_of_dec) (auto simp: sb)
    obtain ds where "framed tail width (n0 + length tail + width) ds b" using s by (auto simp: sb)
    then have fp: "framed tail width (n0 + length tail + width) (bytes_of ?f) (patch_digit_at b (length tail) width ?d)"
      using framed_patch [of tail width _ ds b ?d] t assms(2) dd by simp
    have "be32_words (sha_finish (bc_prefix ?c) n0 (tail @ bytes_of ?f)) =
        hash_framed cpu soft (bc_prefix ?c) (patch_digit_at b (length tail) width ?d) (length tail + width \<le> 55)"
      using framed_hash [OF assms(1) prefix [OF assms(1)] t assms(2) fp] be32_words_be32 [OF length_hash_framed [OF assms(1) prefix [OF assms(1)] fp]]
      by metis
    then show "?I s' \<and> h = the (digest cpu soft p n width)"
      using d dg [of n] n assms(2,4) fp s dd
      by (auto simp: scan_digest_def sb pl f Let_def)
  next
    show "?I (zeros20, sp_block1 pl, sp_block2 pl)" using fr by (auto simp: pl)
  qed simp
qed

lemma loop_least:
  assumes "soft_ok soft" and "width \<le> 19" and "bc_plan (mk cpu soft p) width = Some pl"
    and "e + 8 \<le> 2 ^ 64" and fit: "length tail + width \<le> 64"
    and f: "bc_off (mk cpu soft p) = length tail" and t: "length tail < 64"
    and pl: "pl = \<lparr>sp_width = width, sp_block1 = b1, sp_block2 = b2, sp_single = (length tail + width \<le> 55)\<rparr>"
    and dg: "\<And>nonce. nonce < 2 ^ 64 \<Longrightarrow> digest cpu soft p nonce width =
      Some (bc_mid_one (mk cpu soft p)
        (be32_words (sha_finish (bc_prefix (mk cpu soft p)) n0 (tail @ bytes_of (fixed_dec width nonce)))))"
  shows "blocks_framed tail width (n0 + length tail + width) bs b2 \<Longrightarrow> inv cpu soft p blocks \<Longrightarrow> cur \<le> e \<Longrightarrow>
    least_hit (\<lambda>n. the (digest cpu soft p n width)) (bc_need (mk cpu soft p)) cur e
      (batch8_loop cpu soft (mk cpu soft p) pl e (counters cur width) bs blocks cur)"
proof (induction "e - cur" arbitrary: cur bs blocks rule: less_induct)
  case less
  let ?c = "mk cpu soft p" and ?D = "\<lambda>n. the (digest cpu soft p n width)"
  let ?tot = "n0 + length tail + width"
  show ?case
  proof (cases "cur + 8 \<le> e")
    case False
    then show ?thesis using scalar_least [OF assms(1-3), of e cur] assms(4) by (simp add: batch8_loop.simps [of _ _ _ _ _ _ _ _ cur])
  next
    case True
    define bs' where "bs' = nonce_digits_patch (counters cur width) bs (length tail) width"
    note c = counters_patch [OF less.prems(1) t assms(2) fit bs'_def]
    have b: "\<forall>k < 8. length (bs' ! k) = 64" "length b2 = 64"
      using c(2) [of 0] c(2) by (auto simp: framed_def)
    define st0 where "st0 = batch_state cpu soft (bc_prefix ?c) bs' b2 (sp_single pl)"
    note s0 = batch_state_hash [where cpu = cpu and single = "sp_single pl", OF assms(1) prefix [OF assms(1), of cpu p] c(1) b,
        folded st0_def]
    obtain st blocks' where st: "bc_step ?c st0 blocks = (st, blocks')" by fastforce
    note s = step [OF assms(1) less.prems(2) s0(1) st]
    have D: "?D (cur + k) = words_be32 (st ! k)" if k: "k < 8" for k
    proof -
      have "be32_words (sha_finish (bc_prefix ?c) n0 (tail @ bytes_of (fixed_dec width (cur + k)))) = st0 ! k"
        using framed_hash [OF assms(1) prefix [OF assms(1)] t assms(2) c(2) [OF k]] s0(2) [OF k] s0(1) k
        by (simp add: pl lanes_def) (metis be32_words_be32)
      moreover have "cur + k < 2 ^ 64" using True assms(4) k by simp
      ultimately show ?thesis using dg [of "cur + k"] s k by simp
    qed
    have hit: "digest_hit (bc_need ?c) (?D (cur + k)) \<longleftrightarrow> bc_need ?c \<le> lz_words_be (st ! k)" if "k < 8" for k
      unfolding D [OF that] using s that by (intro digest_hit_words) (simp add: lanes_def)
    have fl: "first_lane (\<lambda>k. bc_need ?c \<le> lz_words_be (st ! k)) (check8 st (bc_need ?c) (bc_avx ?c))"
      using s by (intro check8_first) (simp_all add: lanes_set)
    have w: "sp_width pl = width" by (simp add: pl)
    have st0': "(if sp_single pl then compress8 cpu soft (replicate 8 (bc_prefix ?c)) bs'
        else compress8 cpu soft (compress8 cpu soft (replicate 8 (bc_prefix ?c)) bs') (replicate 8 (sp_block2 pl))) = st0"
      by (simp add: st0_def batch_state_def pl)
    have unfold: "batch8_loop cpu soft ?c pl e (counters cur width) bs blocks cur =
        (case check8 st (bc_need ?c) (bc_avx ?c) of
           Some k \<Rightarrow> Some (cur + k, words_be32 (st ! k))
         | None \<Rightarrow> batch8_loop cpu soft ?c pl e (counters (cur + 8) width) bs' blocks' (cur + 8))"
      by (subst batch8_loop.simps)
        (simp only: True if_True Let_def f w bs'_def [symmetric] st0' st prod.case counters_bump)
    show ?thesis
    proof (cases "check8 st (bc_need ?c) (bc_avx ?c)")
      case (Some k)
      then have k: "k < 8" "bc_need ?c \<le> lz_words_be (st ! k)" "\<forall>j < k. \<not> bc_need ?c \<le> lz_words_be (st ! j)"
        using fl by (simp_all add: first_lane_def)
      have "\<not> digest_hit (bc_need ?c) (?D m)" if "m \<in> {cur..<cur + k}" for m
      proof -
        have "m - cur < k" "m - cur < 8" "cur + (m - cur) = m" using that k(1) by auto
        then show ?thesis using hit [of "m - cur"] k(3) by simp
      qed
      then show ?thesis using True k(1,2) hit [OF k(1)] D [OF k(1)]
        unfolding unfold Some by (simp add: least_hit_def)
    next
      case None
      have "\<not> digest_hit (bc_need ?c) (?D m)" if "m \<in> {cur..<cur + 8}" for m
      proof -
        have "m - cur < 8" "cur + (m - cur) = m" using that by auto
        then show ?thesis using hit [of "m - cur"] fl None by (simp add: first_lane_def)
      qed
      moreover have "least_hit ?D (bc_need ?c) (cur + 8) e
          (batch8_loop cpu soft ?c pl e (counters (cur + 8) width) bs' blocks' (cur + 8))"
        using True s c(3) by (intro less.hyps) auto
      ultimately show ?thesis using least_hit_skip [of ?D "bc_need ?c" "cur + 8" e _ cur]
        unfolding unfold None by simp
    qed
  qed
qed

lemma batch8_least:
  assumes "soft_ok soft" and "width \<le> 19" and "bc_plan (mk cpu soft p) width = Some pl"
    and "base \<le> e" and "e + 8 \<le> 2 ^ 64"
  shows "least_hit (\<lambda>n. the (digest cpu soft p n width)) (bc_need (mk cpu soft p)) base e
    (batch8 cpu soft (mk cpu soft p) pl base e)"
proof -
  let ?c = "mk cpu soft p"
  obtain tail n0 b1 b2 where f: "bc_off ?c = length tail" and t: "length tail < 64"
    and pl: "pl = \<lparr>sp_width = width, sp_block1 = b1, sp_block2 = b2, sp_single = (length tail + width \<le> 55)\<rparr>"
    and fr: "framed tail width (n0 + length tail + width) (replicate width 48) (b1, b2)"
    and dg: "\<And>nonce. nonce < 2 ^ 64 \<Longrightarrow> digest cpu soft p nonce width =
      Some (bc_mid_one ?c (be32_words (sha_finish (bc_prefix ?c) n0 (tail @ bytes_of (fixed_dec width nonce)))))"
    by (rule plan_frame [OF assms(1-3)]) (rule that, assumption+)
  show ?thesis
  proof (cases "64 < bc_off ?c + sp_width pl")
    case True
    then show ?thesis using scalar_least [OF assms(1-3), of e base] assms(5) by (simp add: batch8_def)
  next
    case False
    then have fit: "length tail + width \<le> 64" by (simp add: f pl)
    have "blocks_framed tail width (n0 + length tail + width) (replicate 8 b1) b2"
      using fr unfolding blocks_framed_def by auto
    then have "least_hit (\<lambda>n. the (digest cpu soft p n width)) (bc_need ?c) base e
        (batch8_loop cpu soft ?c pl e (counters base width) (replicate 8 b1)
          (bc_init ?c (replicate 8 (replicate 64 0))) base)"
      using loop_least [OF assms(1-3,5) fit f t pl dg] init [OF assms(1)] assms(4) by blast
    moreover have "counters base width = nonce_digits_new base width"
      using assms(2,4,5) by (intro nonce_digits_new_counters [symmetric]) simp_all
    ultimately show ?thesis using False unfolding batch8_def by (simp add: pl)
  qed
qed

lemma search:
  assumes "soft_ok soft" and "width \<le> 19" and "base \<le> e" and "e + 8 \<le> 2 ^ 64"
  shows "\<exists>pl. bc_plan (mk cpu soft p) width = Some pl \<and>
    least_hit (\<lambda>n. the (digest cpu soft p n width)) (bc_need (mk cpu soft p)) base e
      (batch8 cpu soft (mk cpu soft p) pl base e)"
proof -
  obtain tail n0 where f: "frames (mk cpu soft p) width tail n0" using plan [OF assms(1,2)] by blast
  then have "length tail < 64" using off [OF assms(1), of cpu p] by (simp add: frames_def)
  then obtain pl where "bc_plan (mk cpu soft p) width = Some pl"
    using f framed_build [OF _ assms(2), of tail "n0 + length tail + width"] unfolding frames_def by metis
  then show ?thesis using batch8_least [OF assms(1,2) _ assms(3,4)] by blast
qed

end

section \<open>The three contexts keep the contract\<close>

type_synonym pow_param = "bool \<times> bytes \<times> nat"

definition pow_mk :: "bool \<Rightarrow> soft_block \<Rightarrow> pow_param \<Rightarrow> batch_ctx" where
  "pow_mk cpu soft p = (case p of (avx, data, difficulty) \<Rightarrow> pow_batch cpu soft (pow_new cpu soft avx data difficulty))"

definition pow_dg :: "bool \<Rightarrow> soft_block \<Rightarrow> pow_param \<Rightarrow> nat \<Rightarrow> nat \<Rightarrow> bytes option" where
  "pow_dg cpu soft p = (case p of (avx, data, difficulty) \<Rightarrow> pow_digest cpu soft (pow_new cpu soft avx data difficulty))"

text \<open>Facts on the state a context starts from.\<close>

lemma words_of_finish [simp]:
  "length st = 8 \<Longrightarrow> words_be32 (be32_words (sha_finish st n xs)) = sha_finish st n xs"
  by (simp add: sha_finish_def be32_words_be32 length_foldl_compress)

text \<open>A context whose tail was split off a message after the prefix \<open>p\<close>.\<close>

lemma frames_midstate:
  assumes "soft_ok soft" and "length p = 8"
    and "sha256_midstate (sha256_block cpu soft) p data = (st, tail, n)"
    and "bc_off ctx = n" and "bc_plan ctx width = scan_plan_build width (take n tail) (k + length data + width)"
  shows "frames ctx width (take n tail) (k + (length data - n))"
    and "sha_finish st (k + (length data - n)) (take n tail @ ys) = sha_finish p k (data @ ys)"
proof -
  note t = midstate_tail [OF assms(1-3)]
  have "k + length data = k + (length data - n) + length (take n tail)" using t by simp
  then show "frames ctx width (take n tail) (k + (length data - n))"
    using t(1,3) assms(4,5) by (simp add: frames_def)
  show "sha_finish st (k + (length data - n)) (take n tail @ ys) = sha_finish p k (data @ ys)"
    by (rule midstate_finish [OF assms(1-3)])
qed

lemma midstate_ex:
  assumes "soft_ok soft" and "length p = 8"
  obtains st tail n where "sha256_midstate (sha256_block cpu soft) p data = (st, tail, n)"
    and "length st = 8" and "n < 64"
proof -
  obtain st tail n where m: "sha256_midstate (sha256_block cpu soft) p data = (st, tail, n)" by (metis prod_cases3)
  from that [OF m] midstate_blocks(4) [OF assms m] midstate_tail(2) [OF assms m] show ?thesis by simp
qed

lemma pow_mk_fields:
  assumes "sha256_midstate (sha256_block cpu soft) H0 data = (st, tail, n)"
  shows "bc_prefix (pow_mk cpu soft (avx, data, d)) = st" "bc_off (pow_mk cpu soft (avx, data, d)) = n"
    "bc_plan (pow_mk cpu soft (avx, data, d)) width = scan_plan_build width (take n tail) (length data + width)"
    "bc_mid_one (pow_mk cpu soft (avx, data, d)) = words_be32"
    "bc_need (pow_mk cpu soft (avx, data, d)) = need_bits_of d"
    "bc_init (pow_mk cpu soft (avx, data, d)) = (\<lambda>b. b)"
    "bc_step (pow_mk cpu soft (avx, data, d)) = (\<lambda>st b. (st, b))"
  by (simp_all add: pow_mk_def pow_batch_def pow_new_def assms)

lemma pow_mk_plan:
  assumes "soft_ok soft" and "width \<le> 19"
  shows "\<exists>tail n0. frames (pow_mk cpu soft (avx, data, d)) width tail n0 \<and>
    (\<forall>nonce < 2 ^ 64. pow_dg cpu soft (avx, data, d) nonce width =
       Some (words_be32 (be32_words (sha_finish (bc_prefix (pow_mk cpu soft (avx, data, d))) n0
         (tail @ bytes_of (fixed_dec width nonce))))))"
proof -
  obtain st tail n where m: "sha256_midstate (sha256_block cpu soft) H0 data = (st, tail, n)" "length st = 8"
    by (rule midstate_ex [OF assms(1) length_H0])
  note f = pow_mk_fields [OF m(1), of avx d]
  note g = frames_midstate [where k = 0, OF assms(1) length_H0 m(1), of "pow_mk cpu soft (avx, data, d)" width]
  show ?thesis
  proof (intro exI conjI allI impI)
    show "frames (pow_mk cpu soft (avx, data, d)) width (take n tail) (0 + (length data - n))"
      by (rule g(1)) (simp_all add: f)
    fix nonce :: nat
    assume "nonce < 2 ^ 64"
    then show "pow_dg cpu soft (avx, data, d) nonce width =
       Some (words_be32 (be32_words (sha_finish (bc_prefix (pow_mk cpu soft (avx, data, d))) (0 + (length data - n))
         (take n tail @ bytes_of (fixed_dec width nonce)))))"
      using pow_digest_spec [OF assms, of nonce cpu avx data d] g(2) m(2)
      by (simp add: pow_dg_def f sha256_digest_def)
  qed
qed

interpretation pow_lanes: batch_lanes pow_mk pow_dg "\<lambda>_ _ _ _. True"
proof (unfold_locales, goal_cases)
  case (1 soft cpu p)
  then show ?case
    by (cases p) (metis midstate_ex length_H0 pow_mk_fields(1))
next
  case (2 soft cpu p)
  then show ?case by (cases p) (metis midstate_ex length_H0 pow_mk_fields(2))
next
  case (3 soft width cpu p)
  obtain avx data d where p: "p = (avx, data, d)" by (cases p)
  obtain st tail n where "sha256_midstate (sha256_block cpu soft) H0 data = (st, tail, n)" by (metis prod_cases3)
  note f = pow_mk_fields(4) [OF this, of avx d]
  show ?case using pow_mk_plan [OF 3, of cpu avx data d] by (simp only: p f)
next
  case (5 soft cpu p bs st st' bs')
  then show ?case by (cases p) (simp add: pow_mk_def pow_batch_def)
qed simp

lemma least_hit_cong:
  assumes "\<And>n. n < e \<Longrightarrow> D n = D' n" and "least_hit D need base e r"
  shows "least_hit D' need base e r"
  using assms(2) unfolding least_hit_def by (auto simp: assms(1) split: option.splits)

type_synonym hmac_param = "bool \<times> bytes \<times> bytes \<times> nat"

definition hmac_mk :: "bool \<Rightarrow> soft_block \<Rightarrow> hmac_param \<Rightarrow> batch_ctx" where
  "hmac_mk cpu soft p = (case p of (avx, key, msg, difficulty) \<Rightarrow>
     hmac_batch cpu soft (the (hmac_new cpu soft sha256_digest avx key msg difficulty)))"

definition hmac_dg :: "bool \<Rightarrow> soft_block \<Rightarrow> hmac_param \<Rightarrow> nat \<Rightarrow> nat \<Rightarrow> bytes option" where
  "hmac_dg cpu soft p = (case p of (avx, key, msg, difficulty) \<Rightarrow>
     hmac_digest cpu soft (the (hmac_new cpu soft sha256_digest avx key msg difficulty)))"

definition outer_tail :: bytes where
  "outer_tail = [0x80] @ replicate 23 0 @ to_be_bytes64 (word_of_nat 96 * 8)"

lemma length_outer_tail [simp]: "length outer_tail = 32"
  by (simp add: outer_tail_def)

definition hmac_inv :: "bytes list \<Rightarrow> bool" where
  "hmac_inv bs \<longleftrightarrow> length bs = 8 \<and> (\<forall>k < 8. length (bs ! k) = 64 \<and> drop 32 (bs ! k) = outer_tail)"

lemma hmac_mk_ctx:
  assumes "soft_ok soft"
    and "sha256_midstate (sha256_block cpu soft) (sha256_compress H0 (hmac_pad key 0x36)) msg = (st, tail, n)"
  obtains c where "hmac_new cpu soft sha256_digest avx key msg d = Some c"
    and "hm_inner_prefix c = st" and "hm_msg_tail c = tail" and "hm_msg_tail_len c = n"
    and "hm_msg_len c = length msg" and "hm_outer_prefix c = sha256_compress H0 (hmac_pad key 0x5c)"
    and "hm_outer_tail c = outer_tail" and "hm_need c = need_bits_of d"
  using hmac_new_fields [OF assms, of avx d] by (simp add: outer_tail_def)

lemma hmac_round:
  assumes "soft_ok soft" and "hmac_inv bs" and "lanes st" and "length (hm_outer_prefix c) = 8"
    and "hm_outer_tail c = outer_tail" and "bc_step (hmac_batch cpu soft c) st bs = (st', bs')"
  shows "hmac_inv bs' \<and> lanes st' \<and>
    (\<forall>k < 8. words_be32 (st' ! k) = outer_round cpu soft c (words_be32 (st ! k)))"
proof -
  have bs': "bs' = map (\<lambda>(b, stk). overwrite b 0 (words_be32 stk)) (zip bs st)"
    and st': "st' = compress8 cpu soft (map (\<lambda>_. hm_outer_prefix c) st) bs'"
    using assms(6) by (auto simp: hmac_batch_def Let_def)
  have b: "bs' ! k = words_be32 (st ! k) @ outer_tail" if "k < 8" for k
    using that assms(2,3) by (simp add: bs' hmac_inv_def lanes_def overwrite_def)
  have l: "length bs' = 8" "\<forall>k < 8. length (bs' ! k) = 64"
    using assms(2,3) b by (simp_all add: bs' hmac_inv_def lanes_def)
  have i: "hmac_inv bs'" using l b assms(3) by (simp add: hmac_inv_def lanes_def)
  have "lanes (map (\<lambda>_. hm_outer_prefix c) st)" using assms(3,4) by (simp add: lanes_def)
  note s = compress8_lanes [where cpu = cpu, OF assms(1) this l, folded st']
  show ?thesis using i s(1) s(2) b assms(3,5) by (simp add: outer_round_def lanes_def)
qed

lemma hmac_mk_plan:
  assumes "soft_ok soft" and "width \<le> 19"
  shows "\<exists>tail n0. frames (hmac_mk cpu soft (avx, key, msg, d)) width tail n0 \<and>
    (\<forall>nonce < 2 ^ 64. hmac_dg cpu soft (avx, key, msg, d) nonce width =
       Some (bc_mid_one (hmac_mk cpu soft (avx, key, msg, d))
         (be32_words (sha_finish (bc_prefix (hmac_mk cpu soft (avx, key, msg, d))) n0
           (tail @ bytes_of (fixed_dec width nonce))))))"
proof -
  have lp: "length (sha256_compress H0 (hmac_pad key 0x36)) = 8" by simp
  obtain st tail n where m: "sha256_midstate (sha256_block cpu soft) (sha256_compress H0 (hmac_pad key 0x36)) msg = (st, tail, n)"
    "length st = 8" "n < 64"
    by (rule midstate_ex [OF assms(1) lp])
  obtain c where c: "hmac_new cpu soft sha256_digest avx key msg d = Some c" "hm_inner_prefix c = st"
    "hm_msg_tail c = tail" "hm_msg_tail_len c = n" "hm_msg_len c = length msg"
    by (rule hmac_mk_ctx [OF assms(1) m(1)]) (rule that, assumption+)
  note g = frames_midstate [where k = 64, OF assms(1) lp m(1), of "hmac_mk cpu soft (avx, key, msg, d)" width]
  note t = midstate_tail [OF assms(1) lp m(1)]
  show ?thesis
  proof (intro exI conjI allI impI)
    show "frames (hmac_mk cpu soft (avx, key, msg, d)) width (take n tail) (64 + (length msg - n))"
      by (rule g(1)) (simp_all add: hmac_mk_def hmac_batch_def c hmac_total_of_def)
    fix nonce :: nat
    assume nonce: "nonce < 2 ^ 64"
    let ?ctx = "\<lparr>tc_prefix = st, tc_tail = take n tail, tc_total = hmac_total_of c width\<rparr>"
    have "tc_total ?ctx = (64 + (length msg - n)) + length (tc_tail ?ctx) + width"
      using t(1,3) c(5) by (simp add: hmac_total_of_def)
    then have "tail_digest cpu soft ?ctx nonce width =
        Some (sha_finish st (64 + (length msg - n)) (take n tail @ bytes_of (fixed_dec width nonce)))"
      using tail_digest_finish [OF assms(1), of ?ctx width nonce "64 + (length msg - n)"] assms(2) nonce m(2) t(1,2)
      by simp
    then show "hmac_dg cpu soft (avx, key, msg, d) nonce width =
       Some (bc_mid_one (hmac_mk cpu soft (avx, key, msg, d))
         (be32_words (sha_finish (bc_prefix (hmac_mk cpu soft (avx, key, msg, d))) (64 + (length msg - n))
           (take n tail @ bytes_of (fixed_dec width nonce)))))"
      using m(2) by (simp add: hmac_dg_def hmac_mk_def hmac_batch_def hmac_digest_def c)
  qed
qed

lemma hmac_mk_obtain:
  assumes "soft_ok soft"
  obtains c where "hmac_mk cpu soft p = hmac_batch cpu soft c" and "length (hm_inner_prefix c) = 8"
    and "hm_msg_tail_len c < 64" and "length (hm_outer_prefix c) = 8" and "hm_outer_tail c = outer_tail"
proof -
  obtain avx key msg d where p: "p = (avx, key, msg, d)" by (cases p)
  have lp: "length (sha256_compress H0 (hmac_pad key 0x36)) = 8" by simp
  obtain st tail n where m: "sha256_midstate (sha256_block cpu soft) (sha256_compress H0 (hmac_pad key 0x36)) msg = (st, tail, n)"
    "length st = 8" "n < 64"
    by (rule midstate_ex [OF assms lp])
  obtain c where c: "hmac_new cpu soft sha256_digest avx key msg d = Some c" "hm_inner_prefix c = st"
    "hm_msg_tail_len c = n" "hm_outer_prefix c = sha256_compress H0 (hmac_pad key 0x5c)" "hm_outer_tail c = outer_tail"
    by (rule hmac_mk_ctx [OF assms m(1)]) (rule that, assumption+)
  show ?thesis by (rule that [of c]) (simp_all add: p hmac_mk_def c m)
qed

interpretation hmac_lanes: batch_lanes hmac_mk hmac_dg "\<lambda>_ _ _. hmac_inv"
proof (unfold_locales, goal_cases)
  case (1 soft cpu p)
  then show ?case by (rule hmac_mk_obtain [of soft cpu p]) (simp add: hmac_batch_def)
next
  case (2 soft cpu p)
  then show ?case by (rule hmac_mk_obtain [of soft cpu p]) (simp add: hmac_batch_def)
next
  case (3 soft width cpu p)
  then show ?case using hmac_mk_plan by (cases p) blast
next
  case (4 soft cpu p)
  then show ?case
    by (rule hmac_mk_obtain [of soft cpu p]) (simp add: hmac_batch_def hmac_inv_def overwrite_def)
next
  case (5 soft cpu p bs st st' bs')
  obtain c where c: "hmac_mk cpu soft p = hmac_batch cpu soft c" "length (hm_outer_prefix c) = 8"
    "hm_outer_tail c = outer_tail"
    by (rule hmac_mk_obtain [OF 5(1), of cpu p])
  have "bc_mid_one (hmac_batch cpu soft c) = (\<lambda>st. outer_round cpu soft c (words_be32 st))"
    by (simp add: hmac_batch_def)
  with hmac_round [OF 5(1-3) c(2,3) 5(4) [unfolded c(1)]] show ?case by (simp add: c(1))
qed

section \<open>Chained digests\<close>

type_synonym chain_param = "bool \<times> bytes \<times> nat \<times> nat"

definition chain_mk :: "bool \<Rightarrow> soft_block \<Rightarrow> chain_param \<Rightarrow> batch_ctx" where
  "chain_mk cpu soft p = (case p of (avx, salt, rounds, difficulty) \<Rightarrow>
     chain_batch cpu soft (chain_new cpu soft avx salt rounds difficulty))"

definition chain_dg :: "bool \<Rightarrow> soft_block \<Rightarrow> chain_param \<Rightarrow> nat \<Rightarrow> nat \<Rightarrow> bytes option" where
  "chain_dg cpu soft p = (case p of (avx, salt, rounds, difficulty) \<Rightarrow>
     chain_digest cpu soft (chain_new cpu soft avx salt rounds difficulty))"

definition blocks8 :: "bytes list \<Rightarrow> bool" where
  "blocks8 bs \<longleftrightarrow> length bs = 8 \<and> (\<forall>k < 8. length (bs ! k) = 64)"

lemma chain_block_pad:
  assumes "length h = 32" and "length out = 64"
  shows "chain_block h out = sha_pad 32 h"
proof -
  have "pad64 (overwrite out 0 h) 32 32 = Some (h @ [0x80] @ replicate 23 0 @ to_be_bytes64 (word_of_nat 32 * 8))"
    using assms by (intro pad64_digest) (simp_all add: overwrite_def)
  then show ?thesis by (simp add: chain_block_def sha_pad_digest [OF assms(1)])
qed

lemma chain_round_lanes:
  assumes "soft_ok soft" and "blocks8 bs" and "lanes st" and "chain_round cpu soft (st, bs) = (st', bs')"
  shows "blocks8 bs' \<and> lanes st' \<and> (\<forall>k < 8. words_be32 (st' ! k) = chained cpu soft (words_be32 (st ! k)))"
proof -
  have bs': "bs' = map (\<lambda>(b, stk). chain_block (words_be32 stk) b) (zip bs st)"
    and st': "st' = compress8 cpu soft (map (\<lambda>_. H0) st) bs'"
    using assms(4) by (auto simp: chain_round_def Let_def)
  have w: "length (words_be32 (st ! k)) = 32" if "k < 8" for k using that assms(3) by (simp add: lanes_def)
  have b: "bs' ! k = chain_block (words_be32 (st ! k)) (replicate 64 0)" if "k < 8" for k
    using that assms(2,3) w by (simp add: bs' blocks8_def lanes_def chain_block_pad)
  have l: "length bs' = 8" "\<forall>k < 8. length (bs' ! k) = 64"
    using assms(2,3) b w by (simp_all add: bs' blocks8_def lanes_def chain_block_pad sha_pad_digest)
  have "lanes (map (\<lambda>_. H0) st)" using assms(3) by (simp add: lanes_def)
  note s = compress8_lanes [where cpu = cpu, OF assms(1) this l, folded st']
  show ?thesis using l s(1) s(2) b assms(3) by (simp add: blocks8_def chained_def lanes_def)
qed

lemma chain_rounds_lanes:
  "soft_ok soft \<Longrightarrow> blocks8 bs \<Longrightarrow> lanes st \<Longrightarrow> (chain_round cpu soft ^^ m) (st, bs) = (st', bs') \<Longrightarrow>
   blocks8 bs' \<and> lanes st' \<and> (\<forall>k < 8. words_be32 (st' ! k) = (chained cpu soft ^^ m) (words_be32 (st ! k)))"
proof (induction m arbitrary: st' bs')
  case (Suc m)
  obtain st1 bs1 where r: "(chain_round cpu soft ^^ m) (st, bs) = (st1, bs1)" by fastforce
  have "chain_round cpu soft (st1, bs1) = (st', bs')" using Suc.prems(4) r by simp
  with Suc.IH [OF Suc.prems(1-3) r] show ?case
    using chain_round_lanes [OF Suc.prems(1), of bs1 st1 cpu st' bs'] by simp
qed simp

lemma chain_mk_fields:
  "bc_prefix (chain_mk cpu soft (avx, salt, r, d)) = bc_prefix (pow_mk cpu soft (avx, salt, d))"
  "bc_off (chain_mk cpu soft (avx, salt, r, d)) = bc_off (pow_mk cpu soft (avx, salt, d))"
  "bc_plan (chain_mk cpu soft (avx, salt, r, d)) = bc_plan (pow_mk cpu soft (avx, salt, d))"
  "bc_need (chain_mk cpu soft (avx, salt, r, d)) = need_bits_of d"
  "bc_init (chain_mk cpu soft (avx, salt, r, d)) bs = bs"
  "bc_mid_one (chain_mk cpu soft (avx, salt, r, d)) st = (chained cpu soft ^^ (max r 1 - 1)) (words_be32 st)"
  "bc_step (chain_mk cpu soft (avx, salt, r, d)) sts bs = (chain_round cpu soft ^^ (max r 1 - 1)) (sts, bs)"
  by (simp_all add: chain_mk_def pow_mk_def chain_batch_def chain_new_def pow_batch_def pow_new_def split: prod.splits)

interpretation chain_lanes: batch_lanes chain_mk chain_dg "\<lambda>_ _ _. blocks8"
proof (unfold_locales, goal_cases)
  case (1 soft cpu p)
  then show ?case by (cases p) (simp add: chain_mk_fields pow_lanes.prefix)
next
  case (2 soft cpu p)
  then show ?case by (cases p) (simp add: chain_mk_fields pow_lanes.off)
next
  case (3 soft width cpu p)
  obtain avx salt r d where p: "p = (avx, salt, r, d)" by (cases p)
  have "chain_dg cpu soft p nonce width =
      map_option (chained cpu soft ^^ (max r 1 - 1)) (pow_dg cpu soft (avx, salt, d) nonce width)" for nonce
    by (simp add: p chain_dg_def pow_dg_def chain_digest_def chain_new_def)
  moreover obtain tail n0 where "frames (pow_mk cpu soft (avx, salt, d)) width tail n0"
    and "\<And>nonce. nonce < 2 ^ 64 \<Longrightarrow> pow_dg cpu soft (avx, salt, d) nonce width =
      Some (words_be32 (be32_words (sha_finish (bc_prefix (pow_mk cpu soft (avx, salt, d))) n0
         (tail @ bytes_of (fixed_dec width nonce)))))"
    using pow_mk_plan [OF 3, of cpu avx salt d] by blast
  ultimately show ?case
    by (intro exI [of _ tail] exI [of _ n0]) (simp add: p chain_mk_fields frames_def)
next
  case (4 soft cpu p)
  show ?case by (cases p) (simp add: chain_mk_fields blocks8_def)
next
  case (5 soft cpu p bs st st' bs')
  obtain avx salt r d where p: "p = (avx, salt, r, d)" by (cases p)
  show ?case using chain_rounds_lanes [where cpu = cpu, OF 5(1-3), of "max r 1 - 1" st' bs'] 5(4)
    by (simp add: p chain_mk_fields)
qed

section \<open>The searches\<close>

text \<open>The portable compression the hypothesis \<^const>\<open>soft_ok\<close> allows: the one of FIPS 180-4.\<close>

lemma soft_ok_compress: "soft_ok sha256_compress"
  by (simp add: soft_ok_def)

lemma pow10_fits: "width \<le> 19 \<Longrightarrow> e \<le> 10 ^ width \<Longrightarrow> e + 8 \<le> 2 ^ 64" for e :: nat
  using power_increasing [of width 19 "10 :: nat"] by simp

text \<open> C1: the eight-lane search of the plain proof of work (\<open>PowCtx\<close>, \<open>batch8\<close>), on every
  processor and below the 55-byte, 64-byte and two-block layouts alike, returns the least nonce
  of its range whose digest SHA-256(data, digits) starts with the required zero bits, with that
  digest, and nothing exactly when there is none.\<close>

theorem pow_batch_least:
  assumes "soft_ok soft" and "width \<le> 19" and "base \<le> e" and "e \<le> 10 ^ width"
  shows "\<exists>pl. bc_plan (pow_batch cpu soft (pow_new cpu soft avx data difficulty)) width = Some pl \<and>
    least_hit (\<lambda>n. sha256_digest (data @ bytes_of (fixed_dec width n))) (4 * difficulty) base e
      (batch8 cpu soft (pow_batch cpu soft (pow_new cpu soft avx data difficulty)) pl base e)"
proof -
  have e: "e + 8 \<le> 2 ^ 64" by (rule pow10_fits [OF assms(2,4)])
  let ?p = "(avx, data, difficulty)"
  have d: "the (pow_dg cpu soft ?p n width) = sha256_digest (data @ bytes_of (fixed_dec width n))" if "n < e" for n
    using pow_digest_spec [OF assms(1,2), of n] that e by (simp add: pow_dg_def)
  have "bc_need (pow_mk cpu soft ?p) = 4 * difficulty"
    by (simp add: pow_mk_def pow_batch_def pow_new_def need_bits_of_def split: prod.splits)
  moreover obtain pl where pl: "bc_plan (pow_mk cpu soft ?p) width = Some pl"
    "least_hit (\<lambda>n. the (pow_dg cpu soft ?p n width)) (bc_need (pow_mk cpu soft ?p)) base e
      (batch8 cpu soft (pow_mk cpu soft ?p) pl base e)"
    using pow_lanes.search [OF assms(1-3) e, of cpu ?p] by blast
  moreover note least_hit_cong [OF d pl(2)]
  ultimately show ?thesis by (auto simp: pow_mk_def)
qed

theorem pow_batch_least_witness:
  "\<exists>pl. bc_plan (pow_batch True sha256_compress (pow_new True sha256_compress False [1, 2] 1)) 1 = Some pl \<and>
    least_hit (\<lambda>n. sha256_digest ([1, 2] @ bytes_of (fixed_dec 1 n))) (4 * 1) 0 10
      (batch8 True sha256_compress (pow_batch True sha256_compress (pow_new True sha256_compress False [1, 2] 1)) pl 0 10)"
  using pow_batch_least [of sha256_compress 1 0 10 True False "[1, 2]" 1] soft_ok_compress by simp

text \<open> C3: the same search of the keyed proof of work (\<open>HmacCtx\<close>) over HMAC-SHA-256 of RFC 2104:
  keys of every length, the inner digest's tail framing and the padded outer block included.\<close>

theorem hmac_batch_least:
  assumes "soft_ok soft" and "width \<le> 19" and "base \<le> e" and "e \<le> 10 ^ width"
  shows "\<exists>c pl. hmac_new cpu soft sha256_digest avx key msg difficulty = Some c \<and>
    bc_plan (hmac_batch cpu soft c) width = Some pl \<and>
    least_hit (\<lambda>n. hmac_sha256_spec key (msg @ bytes_of (fixed_dec width n))) (4 * difficulty) base e
      (batch8 cpu soft (hmac_batch cpu soft c) pl base e)"
proof -
  have e: "e + 8 \<le> 2 ^ 64" by (rule pow10_fits [OF assms(2,4)])
  let ?p = "(avx, key, msg, difficulty)"
  have "length (sha256_compress H0 (hmac_pad key 0x36)) = 8" by simp
  from midstate_ex [OF assms(1) this] hmac_mk_ctx [OF assms(1)]
  obtain c where c: "hmac_new cpu soft sha256_digest avx key msg difficulty = Some c" "hm_need c = need_bits_of difficulty"
    by metis
  have d: "the (hmac_dg cpu soft ?p n width) = hmac_sha256_spec key (msg @ bytes_of (fixed_dec width n))" if "n < e" for n
    using hmac_digest_lemma [OF assms(1,2), of n cpu avx key msg difficulty] that e by (auto simp: hmac_dg_def)
  have "hmac_mk cpu soft ?p = hmac_batch cpu soft c" "bc_need (hmac_batch cpu soft c) = 4 * difficulty"
    by (simp_all add: hmac_mk_def c hmac_batch_def need_bits_of_def)
  moreover obtain pl where pl: "bc_plan (hmac_mk cpu soft ?p) width = Some pl"
    "least_hit (\<lambda>n. the (hmac_dg cpu soft ?p n width)) (bc_need (hmac_mk cpu soft ?p)) base e
      (batch8 cpu soft (hmac_mk cpu soft ?p) pl base e)"
    using hmac_lanes.search [OF assms(1-3) e, of cpu ?p] by blast
  moreover note least_hit_cong [OF d pl(2)]
  ultimately show ?thesis using c(1) by auto
qed

theorem hmac_batch_least_witness:
  "\<exists>c pl. hmac_new False sha256_compress sha256_digest True [3] [1, 2] 1 = Some c \<and>
    bc_plan (hmac_batch False sha256_compress c) 1 = Some pl \<and>
    least_hit (\<lambda>n. hmac_sha256_spec [3] ([1, 2] @ bytes_of (fixed_dec 1 n))) (4 * 1) 0 10
      (batch8 False sha256_compress (hmac_batch False sha256_compress c) pl 0 10)"
  using hmac_batch_least [of sha256_compress 1 0 10 False True "[3]" "[1, 2]" 1] soft_ok_compress by simp

text \<open> C5: the same search of the chained proof of work (\<open>ChainCtx\<close>): SHA-256 iterated
  \<open>rounds\<close> times, with zero rounds read as one.\<close>

theorem chain_batch_least:
  assumes "soft_ok soft" and "width \<le> 19" and "base \<le> e" and "e \<le> 10 ^ width"
  shows "\<exists>pl. bc_plan (chain_batch cpu soft (chain_new cpu soft avx salt rounds difficulty)) width = Some pl \<and>
    least_hit (\<lambda>n. (sha256_digest ^^ max rounds 1) (salt @ bytes_of (fixed_dec width n))) (4 * difficulty) base e
      (batch8 cpu soft (chain_batch cpu soft (chain_new cpu soft avx salt rounds difficulty)) pl base e)"
proof -
  have e: "e + 8 \<le> 2 ^ 64" by (rule pow10_fits [OF assms(2,4)])
  let ?p = "(avx, salt, rounds, difficulty)"
  have d: "the (chain_dg cpu soft ?p n width) = (sha256_digest ^^ max rounds 1) (salt @ bytes_of (fixed_dec width n))"
    if "n < e" for n
    using chain_digest_lemma [OF assms(1,2), of n cpu avx salt rounds difficulty] that e by (simp add: chain_dg_def)
  have "chain_mk cpu soft ?p = chain_batch cpu soft (chain_new cpu soft avx salt rounds difficulty)"
    by (simp add: chain_mk_def)
  moreover have "bc_need (chain_mk cpu soft ?p) = 4 * difficulty"
    by (simp add: chain_mk_fields need_bits_of_def)
  moreover obtain pl where pl: "bc_plan (chain_mk cpu soft ?p) width = Some pl"
    "least_hit (\<lambda>n. the (chain_dg cpu soft ?p n width)) (bc_need (chain_mk cpu soft ?p)) base e
      (batch8 cpu soft (chain_mk cpu soft ?p) pl base e)"
    using chain_lanes.search [OF assms(1-3) e, of cpu ?p] by blast
  moreover note least_hit_cong [OF d pl(2)]
  ultimately show ?thesis by auto
qed

theorem chain_batch_least_witness:
  "\<exists>pl. bc_plan (chain_batch True sha256_compress (chain_new True sha256_compress False [1, 2] 3 1)) 1 = Some pl \<and>
    least_hit (\<lambda>n. (sha256_digest ^^ max 3 1) ([1, 2] @ bytes_of (fixed_dec 1 n))) (4 * 1) 0 10
      (batch8 True sha256_compress (chain_batch True sha256_compress (chain_new True sha256_compress False [1, 2] 3 1)) pl 0 10)"
  using chain_batch_least [of sha256_compress 1 0 10 True False "[1, 2]" 3 1] soft_ok_compress by simp

end
