(* ===== verification/Pow_Pool.thy ===== *)
theory Pow_Pool
  imports Pow_Batch
begin

text \<open>
  The parallel driver \<open>width_solve_until\<close> of \<open>scan.rs\<close>: a dispatcher feeds the jobs of all digit
  widths through a bounded channel to worker tasks that share \<open>found\<close>, \<open>stop\<close> and \<open>done\<close>, then
  waits for them and takes the smallest result. Every access to shared memory and every channel
  operation is a step; the interleaving is arbitrary, and \<open>abort\<close> may be raised at any time.
\<close>

section \<open>State\<close>

type_synonym job = "nat \<times> nat \<times> nat"
type_synonym hit = "nat \<times> bytes"

definition u64_max :: nat where
  "u64_max = 2 ^ 64 - 1"

text \<open>
  A worker between two accesses: waiting for a job, holding one, past the \<open>stop\<close> test, past the
  call of \<open>job\<close>, past the comparison with \<open>found\<close>, past \<open>fetch_min\<close>, and returned.
\<close>

datatype worker = Idle | Got job | Seen job | Ran "hit option" | Better hit | Sending hit | Gone

datatype phase = Dispatching | Waiting | Returned "hit option"

record pool =
  todo :: "job list"
  queue :: "job list"
  found :: nat
  stopped :: bool
  aborted :: bool
  workers :: "worker list"
  results :: "hit list"
  phase :: phase

definition done_count :: "pool \<Rightarrow> nat" where
  "done_count s = length (filter (\<lambda>w. w = Gone) (workers s))"

fun best_of :: "hit option \<Rightarrow> hit list \<Rightarrow> hit option" where
  "best_of best [] = best"
| "best_of best (r # rs) =
     best_of (case best of None \<Rightarrow> Some r | Some b \<Rightarrow> if fst r < fst b then Some r else best) rs"

text \<open>The jobs of the widths in the order the dispatcher sends them.\<close>

definition all_jobs :: "nat \<Rightarrow> nat \<Rightarrow> nat \<Rightarrow> nat \<Rightarrow> nat \<Rightarrow> job list" where
  "all_jobs threads max_width jobs_mult min_chunk cap =
     concat (map (jobs_of (max threads 1) jobs_mult min_chunk cap) [1..<max_width + 1])"

definition pool_init :: "job list \<Rightarrow> nat \<Rightarrow> bool \<Rightarrow> pool" where
  "pool_init jobs n ab =
     \<lparr>todo = jobs, queue = [], found = u64_max, stopped = ab, aborted = ab,
      workers = replicate n Idle, results = [], phase = Dispatching\<rparr>"

section \<open>Steps\<close>

inductive pool_step :: "nat \<Rightarrow> (job \<Rightarrow> hit option) \<Rightarrow> pool \<Rightarrow> pool \<Rightarrow> bool" for cap job where
  abort_raised: "\<not> aborted s \<Longrightarrow> pool_step cap job s (s\<lparr>aborted := True\<rparr>)"
| send_job: "phase s = Dispatching \<Longrightarrow> todo s = j # js \<Longrightarrow> found s = u64_max \<Longrightarrow> \<not> aborted s \<Longrightarrow>
    length (queue s) < cap \<Longrightarrow> pool_step cap job s (s\<lparr>todo := js, queue := queue s @ [j]\<rparr>)"
| dispatch_stop: "phase s = Dispatching \<Longrightarrow> todo s \<noteq> [] \<Longrightarrow> found s \<noteq> u64_max \<or> aborted s \<Longrightarrow>
    pool_step cap job s (s\<lparr>stopped := True, phase := Waiting\<rparr>)"
| dispatch_end: "phase s = Dispatching \<Longrightarrow> todo s = [] \<Longrightarrow> pool_step cap job s (s\<lparr>phase := Waiting\<rparr>)"
| take_job: "i < length (workers s) \<Longrightarrow> workers s ! i = Idle \<Longrightarrow> queue s = j # q \<Longrightarrow>
    pool_step cap job s (s\<lparr>queue := q, workers := (workers s)[i := Got j]\<rparr>)"
| channel_closed: "i < length (workers s) \<Longrightarrow> workers s ! i = Idle \<Longrightarrow> queue s = [] \<Longrightarrow>
    phase s \<noteq> Dispatching \<Longrightarrow> pool_step cap job s (s\<lparr>workers := (workers s)[i := Gone]\<rparr>)"
| see_stop: "i < length (workers s) \<Longrightarrow> workers s ! i = Got j \<Longrightarrow> stopped s \<Longrightarrow>
    pool_step cap job s (s\<lparr>workers := (workers s)[i := Gone]\<rparr>)"
| go_on: "i < length (workers s) \<Longrightarrow> workers s ! i = Got j \<Longrightarrow> \<not> stopped s \<Longrightarrow>
    pool_step cap job s (s\<lparr>workers := (workers s)[i := Seen j]\<rparr>)"
| skip_job: "i < length (workers s) \<Longrightarrow> workers s ! i = Seen (w, b, e) \<Longrightarrow>
    found s \<noteq> u64_max \<Longrightarrow> found s < b \<Longrightarrow>
    pool_step cap job s (s\<lparr>workers := (workers s)[i := Idle]\<rparr>)"
| run_job: "i < length (workers s) \<Longrightarrow> workers s ! i = Seen (w, b, e) \<Longrightarrow>
    found s = u64_max \<or> b \<le> found s \<Longrightarrow>
    pool_step cap job s (s\<lparr>workers := (workers s)[i := Ran (job (w, b, e))]\<rparr>)"
| ran_none: "i < length (workers s) \<Longrightarrow> workers s ! i = Ran None \<Longrightarrow>
    pool_step cap job s (s\<lparr>workers := (workers s)[i := Idle]\<rparr>)"
| ran_worse: "i < length (workers s) \<Longrightarrow> workers s ! i = Ran (Some r) \<Longrightarrow> found s \<le> fst r \<Longrightarrow>
    pool_step cap job s (s\<lparr>workers := (workers s)[i := Idle]\<rparr>)"
| ran_better: "i < length (workers s) \<Longrightarrow> workers s ! i = Ran (Some r) \<Longrightarrow> fst r < found s \<Longrightarrow>
    pool_step cap job s (s\<lparr>workers := (workers s)[i := Better r]\<rparr>)"
| fetch_min: "i < length (workers s) \<Longrightarrow> workers s ! i = Better r \<Longrightarrow>
    pool_step cap job s (s\<lparr>found := min (found s) (fst r), workers := (workers s)[i := Sending r]\<rparr>)"
| send_result: "i < length (workers s) \<Longrightarrow> workers s ! i = Sending r \<Longrightarrow>
    pool_step cap job s (s\<lparr>results := results s @ [r], workers := (workers s)[i := Idle]\<rparr>)"
| wait_abort: "phase s = Waiting \<Longrightarrow> done_count s < length (workers s) \<Longrightarrow> aborted s \<Longrightarrow>
    pool_step cap job s (s\<lparr>stopped := True, phase := Returned (best_of None (results s))\<rparr>)"
| wait_watch: "phase s = Waiting \<Longrightarrow> done_count s < length (workers s) \<Longrightarrow>
    pool_step cap job s
      (s\<lparr>stopped := True, aborted := True, phase := Returned (best_of None (results s))\<rparr>)"
| wait_done: "phase s = Waiting \<Longrightarrow> length (workers s) \<le> done_count s \<Longrightarrow>
    pool_step cap job s (s\<lparr>phase := Returned (best_of None (results s))\<rparr>)"

inductive pool_reach :: "nat \<Rightarrow> (job \<Rightarrow> hit option) \<Rightarrow> job list \<Rightarrow> nat \<Rightarrow> bool \<Rightarrow> pool \<Rightarrow> bool"
  for cap job jobs n ab where
  start: "pool_reach cap job jobs n ab (pool_init jobs n ab)"
| step: "pool_reach cap job jobs n ab s \<Longrightarrow> pool_step cap job s t \<Longrightarrow> pool_reach cap job jobs n ab t"

section \<open>Invariants\<close>

fun held :: "worker \<Rightarrow> job set" where
  "held (Got j) = {j}"
| "held (Seen j) = {j}"
| "held w = {}"

fun carried :: "worker \<Rightarrow> hit set" where
  "carried (Ran (Some r)) = {r}"
| "carried (Better r) = {r}"
| "carried (Sending r) = {r}"
| "carried w = {}"

text \<open>Everything that moves through the pool comes from the jobs and from calls of \<open>job\<close>.\<close>

definition genuine :: "(job \<Rightarrow> hit option) \<Rightarrow> job list \<Rightarrow> pool \<Rightarrow> bool" where
  "genuine job jobs s \<longleftrightarrow>
     set (todo s) \<subseteq> set jobs \<and> set (queue s) \<subseteq> set jobs \<and>
     (\<forall>w \<in> set (workers s). held w \<subseteq> set jobs \<and> carried w \<subseteq> {r. \<exists>j \<in> set jobs. job j = Some r}) \<and>
     (\<forall>r \<in> set (results s). \<exists>j \<in> set jobs. job j = Some r) \<and>
     (\<forall>r. phase s = Returned (Some r) \<longrightarrow> r \<in> set (results s))"

lemma best_of_cases:
  "best_of b rs = Some r \<Longrightarrow> b = Some r \<or> r \<in> set rs"
  by (induction b rs rule: best_of.induct) (auto split: option.splits if_splits)

lemma best_of_none: "best_of b rs = None \<longleftrightarrow> b = None \<and> rs = []"
  by (induction b rs rule: best_of.induct) (auto split: option.splits if_splits)

lemma set_upd: "w \<in> set (ws[i := v]) \<Longrightarrow> w = v \<or> w \<in> set ws"
  by (meson insertE set_update_subset_insert subsetD)

lemma worker_in: "i < length ws \<Longrightarrow> ws ! i = w \<Longrightarrow> w \<in> set ws"
  by auto

lemma genuine_worker:
  assumes "genuine job jobs s" and "held v \<subseteq> set jobs"
    and "carried v \<subseteq> {r. \<exists>j \<in> set jobs. job j = Some r}"
  shows "genuine job jobs (s\<lparr>workers := (workers s)[i := v]\<rparr>)"
  using assms unfolding genuine_def by (auto dest!: set_upd)

lemma genuine_at:
  "genuine job jobs s \<Longrightarrow> i < length (workers s) \<Longrightarrow>
   held (workers s ! i) \<subseteq> set jobs \<and> carried (workers s ! i) \<subseteq> {r. \<exists>j \<in> set jobs. job j = Some r}"
  by (simp add: genuine_def)

lemma genuine_step:
  assumes "pool_step cap job s t" and "genuine job jobs s"
  shows "genuine job jobs t"
  using assms
proof (induction rule: pool_step.induct)
  case (run_job i s w b e)
  have "(w, b, e) \<in> set jobs" using genuine_at [OF run_job.prems run_job.hyps(1)] run_job.hyps(2) by simp
  then show ?case
    by (intro genuine_worker [OF run_job.prems]) (cases "job (w, b, e)"; auto)+
next
  case (fetch_min i s r)
  then have "genuine job jobs (s\<lparr>workers := (workers s)[i := Sending r]\<rparr>)"
    using genuine_at [OF fetch_min.prems fetch_min.hyps(1)] by (intro genuine_worker) simp_all
  then show ?case by (simp add: genuine_def)
next
  case (send_result i s r)
  have "\<exists>j \<in> set jobs. job j = Some r" using genuine_at [OF send_result.prems send_result.hyps(1)] send_result.hyps(2) by simp
  moreover have "genuine job jobs (s\<lparr>workers := (workers s)[i := Idle]\<rparr>)"
    using send_result.prems by (intro genuine_worker) simp_all
  ultimately show ?case by (auto simp: genuine_def)
next
  case (take_job i s j q)
  have "genuine job jobs (s\<lparr>workers := (workers s)[i := Got j]\<rparr>)"
    using take_job.prems take_job.hyps(3) by (intro genuine_worker) (auto simp: genuine_def)
  then show ?case using take_job.hyps(3) by (simp add: genuine_def)
next
  case (wait_done s)
  then show ?case by (auto simp: genuine_def dest: best_of_cases)
next
  case (wait_abort s)
  then show ?case by (auto simp: genuine_def dest: best_of_cases)
next
  case (wait_watch s)
  then show ?case by (auto simp: genuine_def dest: best_of_cases)
next
  case (send_job s j js)
  then show ?case by (auto simp: genuine_def)
next
  case (ran_better i s r)
  then show ?case using genuine_at [OF ran_better.prems ran_better.hyps(1)] by (intro genuine_worker) simp_all
next
  case (go_on i s j)
  then show ?case using genuine_at [OF go_on.prems go_on.hyps(1)] by (intro genuine_worker) simp_all
qed (auto simp: genuine_def dest!: set_upd)

text \<open>Without an abort no job is lost: it waits, is being worked on, or gave nothing.\<close>

definition covers :: "(job \<Rightarrow> hit option) \<Rightarrow> worker \<Rightarrow> job \<Rightarrow> bool" where
  "covers job w j \<longleftrightarrow>
     j \<in> held w \<or> (\<exists>r. job j = Some r \<and> (w = Ran (Some r) \<or> w = Better r))"

lemma covers_simps [simp]:
  "covers job Idle j \<longleftrightarrow> False" "covers job Gone j \<longleftrightarrow> False" "covers job (Sending r) j \<longleftrightarrow> False"
  "covers job (Got i) j \<longleftrightarrow> j = i" "covers job (Seen i) j \<longleftrightarrow> j = i"
  "covers job (Ran None) j \<longleftrightarrow> False" "covers job (Ran (Some r)) j \<longleftrightarrow> job j = Some r"
  "covers job (Better r) j \<longleftrightarrow> job j = Some r"
  by (auto simp: covers_def)

definition accounted :: "(job \<Rightarrow> hit option) \<Rightarrow> job list \<Rightarrow> pool \<Rightarrow> bool" where
  "accounted job jobs s \<longleftrightarrow>
     (found s = u64_max \<and> \<not> stopped s \<longrightarrow>
        (\<forall>j \<in> set jobs. j \<in> set (todo s) \<or> j \<in> set (queue s) \<or> job j = None \<or>
           (\<exists>k < length (workers s). covers job (workers s ! k) j)))"

definition signalled :: "nat \<Rightarrow> pool \<Rightarrow> bool" where
  "signalled n s \<longleftrightarrow> length (workers s) = n \<and> found s \<le> u64_max \<and>
     (found s \<noteq> u64_max \<longrightarrow> results s \<noteq> [] \<or> (\<exists>k < length (workers s). \<exists>r. workers s ! k = Sending r)) \<and>
     (stopped s \<longrightarrow> aborted s \<or> found s \<noteq> u64_max) \<and>
     (phase s \<noteq> Dispatching \<longrightarrow> stopped s \<or> todo s = []) \<and>
     (Gone \<in> set (workers s) \<longrightarrow> stopped s \<or> phase s \<noteq> Dispatching \<and> queue s = []) \<and>
     (\<forall>r. phase s = Returned r \<longrightarrow> aborted s \<or> set (workers s) \<subseteq> {Gone} \<and> r = best_of None (results s))"

lemma accounted_worker:
  assumes "accounted job jobs s" and "i < length (workers s)"
    and "\<And>j. j \<in> set jobs \<Longrightarrow> covers job (workers s ! i) j \<Longrightarrow> job j = None \<or> covers job v j"
  shows "accounted job jobs (s\<lparr>workers := (workers s)[i := v]\<rparr>)"
proof -
  let ?t = "s\<lparr>workers := (workers s)[i := v]\<rparr>"
  have k: "job j = None \<or> (\<exists>k < length (workers ?t). covers job (workers ?t ! k) j)"
    if "k < length (workers s)" "covers job (workers s ! k) j" "j \<in> set jobs" for k j
  proof (cases "k = i")
    case True
    then show ?thesis using that assms(2) assms(3) [of j] by (auto intro!: exI [of _ i])
  next
    case False
    then show ?thesis using that by (intro disjI2 exI [of _ k]) simp
  qed
  show ?thesis unfolding accounted_def
  proof (intro impI ballI)
    fix j
    assume h: "found ?t = u64_max \<and> \<not> stopped ?t" and j: "j \<in> set jobs"
    then have "j \<in> set (todo s) \<or> j \<in> set (queue s) \<or> job j = None \<or>
        (\<exists>k < length (workers s). covers job (workers s ! k) j)"
      using assms(1) unfolding accounted_def by simp
    then show "j \<in> set (todo ?t) \<or> j \<in> set (queue ?t) \<or> job j = None \<or>
        (\<exists>k < length (workers ?t). covers job (workers ?t ! k) j)"
      using k [OF _ _ j] by auto
  qed
qed

lemma done_all: "length (workers s) \<le> done_count s \<Longrightarrow> set (workers s) \<subseteq> {Gone}"
  unfolding done_count_def using length_filter_less [of _ "workers s" "\<lambda>w. w = Gone"] by force

lemma accounted_cong:
  "accounted job jobs s \<Longrightarrow> todo t = todo s \<Longrightarrow> queue t = queue s \<Longrightarrow> workers t = workers s \<Longrightarrow>
   (found t = u64_max \<and> \<not> stopped t \<Longrightarrow> found s = u64_max \<and> \<not> stopped s) \<Longrightarrow> accounted job jobs t"
  by (simp add: accounted_def)

lemma accounted_take:
  assumes "accounted job jobs s" and "i < length (workers s)" and "workers s ! i = Idle" and "queue s = j # q"
  shows "accounted job jobs (s\<lparr>queue := q, workers := (workers s)[i := Got j]\<rparr>)"
  unfolding accounted_def
proof (intro impI ballI)
  let ?t = "s\<lparr>queue := q, workers := (workers s)[i := Got j]\<rparr>"
  fix x
  assume h: "found ?t = u64_max \<and> \<not> stopped ?t" and x: "x \<in> set jobs"
  have k: "\<exists>k < length (workers ?t). covers job (workers ?t ! k) x"
    if "k < length (workers s)" "covers job (workers s ! k) x" for k
    using that assms(2,3) by (cases "k = i") (auto intro!: exI [of _ k])
  have j: "\<exists>k < length (workers ?t). covers job (workers ?t ! k) j"
    using assms(2) by (auto intro!: exI [of _ i])
  have "x \<in> set (todo s) \<or> x = j \<or> x \<in> set q \<or> job x = None \<or> (\<exists>k < length (workers s). covers job (workers s ! k) x)"
    using assms(1,4) h x unfolding accounted_def by auto
  then show "x \<in> set (todo ?t) \<or> x \<in> set (queue ?t) \<or> job x = None \<or>
      (\<exists>k < length (workers ?t). covers job (workers ?t ! k) x)"
    using k j by (elim disjE) (simp_all, blast+)
qed

lemma accounted_step:
  assumes "pool_step cap job s t" and "accounted job jobs s" and "found s \<le> u64_max"
    and "\<And>j r. j \<in> set jobs \<Longrightarrow> job j = Some r \<Longrightarrow> fst r < u64_max"
  shows "accounted job jobs t"
  using assms(1-3)
proof (induction rule: pool_step.induct)
  case (send_job s j js)
  then show ?case by (auto simp: accounted_def)
next
  case (take_job i s j q)
  then show ?case by (intro accounted_take)
next
  case (channel_closed i s)
  then show ?case by (intro accounted_worker) simp_all
next
  case (go_on i s j)
  then show ?case by (intro accounted_worker) simp_all
next
  case (run_job i s w b e)
  then show ?case by (intro accounted_worker) (simp_all, metis covers_simps(7) not_None_eq)
next
  case (ran_none i s)
  then show ?case by (intro accounted_worker) simp_all
next
  case (ran_worse i s r)
  show ?case
  proof (cases "\<exists>j \<in> set jobs. job j = Some r")
    case True
    then have "fst r < u64_max" using assms(4) by blast
    then show ?thesis using ran_worse.hyps(3) by (simp add: accounted_def)
  next
    case False
    then show ?thesis using ran_worse by (intro accounted_worker) auto
  qed
next
  case (ran_better i s r)
  then show ?case by (intro accounted_worker) simp_all
next
  case (fetch_min i s r)
  show ?case
  proof (cases "\<exists>j \<in> set jobs. job j = Some r")
    case True
    then have "fst r < u64_max" using assms(4) by blast
    then show ?thesis by (simp add: accounted_def min_def)
  next
    case False
    then have "accounted job jobs (s\<lparr>workers := (workers s)[i := Sending r]\<rparr>)"
      using fetch_min by (intro accounted_worker) auto
    then show ?thesis by (rule accounted_cong) (auto simp: min_def fetch_min split: if_splits)
  qed
next
  case (send_result i s r)
  then have "accounted job jobs (s\<lparr>workers := (workers s)[i := Idle]\<rparr>)"
    by (intro accounted_worker) simp_all
  then show ?case by (rule accounted_cong) simp_all
qed (simp_all add: accounted_def)

lemma not_all_gone:
  "i < length ws \<Longrightarrow> ws ! i \<noteq> Gone \<Longrightarrow> \<not> set ws \<subseteq> {Gone}"
  by (metis nth_mem singletonD subsetD)

lemma gone_upd: "Gone \<in> set (ws[i := v]) \<Longrightarrow> v = Gone \<or> Gone \<in> set ws"
  by (metis set_upd)

lemma sending_upd:
  "i < length ws \<Longrightarrow> \<nexists>r. ws ! i = Sending r \<Longrightarrow> k < length ws \<Longrightarrow> ws ! k = Sending r \<Longrightarrow>
   \<exists>k < length ws. \<exists>r. ws[i := v] ! k = Sending r"
  by (metis nth_list_update_neq)

text \<open>A step of one worker that is not sending and does not return.\<close>

lemma signalled_worker:
  assumes "signalled n s" and "i < length (workers s)" and "workers s ! i \<noteq> Gone"
    and "\<nexists>r. workers s ! i = Sending r" and "v = Gone \<longrightarrow> stopped s \<or> phase s \<noteq> Dispatching \<and> queue s = []"
  shows "signalled n (s\<lparr>workers := (workers s)[i := v]\<rparr>)"
  using assms(1,5) not_all_gone [OF assms(2,3)] sending_upd [OF assms(2,4)] gone_upd [of "workers s" i v]
  unfolding signalled_def by simp metis

lemma signalled_step:
  assumes "pool_step cap job s t" and "signalled n s"
  shows "signalled n t"
  using assms
proof (induction rule: pool_step.induct)
  case (take_job i s j q)
  then have "signalled n (s\<lparr>workers := (workers s)[i := Got j]\<rparr>)" by (intro signalled_worker) simp_all
  moreover have "Gone \<in> set (workers s) \<longrightarrow> stopped s" using take_job by (auto simp: signalled_def)
  ultimately show ?case by (auto simp: signalled_def dest: gone_upd)
next
  case (fetch_min i s r)
  have "\<exists>k < length (workers s). \<exists>r'. (workers s)[i := Sending r] ! k = Sending r'"
    using fetch_min.hyps(1) by (intro exI [of _ i]) simp
  moreover have "signalled n (s\<lparr>workers := (workers s)[i := Sending r]\<rparr>)"
    using fetch_min by (intro signalled_worker) simp_all
  ultimately show ?case by (auto simp: signalled_def min_def)
next
  case (send_result i s r)
  have "\<not> set (workers s) \<subseteq> {Gone}" using send_result.hyps not_all_gone [of i "workers s"] by simp
  then show ?case using send_result.prems by (auto simp: signalled_def dest: gone_upd)
next
  case (wait_done s)
  then show ?case using done_all [of s] by (auto simp: signalled_def)
next
  case (send_job s j js)
  then show ?case by (auto simp: signalled_def)
qed (auto intro: signalled_worker, auto simp: signalled_def)

section \<open>Reachable states\<close>

lemma pool_init_inv:
  "genuine job jobs (pool_init jobs n ab)" "accounted job jobs (pool_init jobs n ab)"
  "signalled n (pool_init jobs n ab)"
  by (auto simp: genuine_def accounted_def signalled_def pool_init_def)

lemma pool_reach_inv:
  assumes "pool_reach cap job jobs n ab s"
    and "\<And>j r. j \<in> set jobs \<Longrightarrow> job j = Some r \<Longrightarrow> fst r < u64_max"
  shows "genuine job jobs s \<and> accounted job jobs s \<and> signalled n s"
  using assms(1)
proof (induction rule: pool_reach.induct)
  case start
  show ?case using pool_init_inv by blast
next
  case (step s t)
  then have "found s \<le> u64_max" by (simp add: signalled_def)
  moreover have "accounted job jobs t" if "accounted job jobs s" "found s \<le> u64_max"
    using accounted_step [OF step.hyps(2) that] assms(2) by blast
  ultimately show ?case
    using step.IH genuine_step [OF step.hyps(2)] signalled_step [OF step.hyps(2)] by blast
qed

lemma pool_returned_none:
  assumes "genuine job jobs s" and "accounted job jobs s" and "signalled n s"
    and "phase s = Returned None" and "\<not> aborted s" and "0 < n"
  shows "\<forall>j \<in> set jobs. job j = None"
proof -
  have g: "set (workers s) \<subseteq> {Gone}" "best_of None (results s) = None" "length (workers s) = n"
    using assms(3-5) by (auto simp: signalled_def)
  have w: "workers s ! k = Gone" if "k < n" for k
    using g(1,3) that by (metis nth_mem singletonD subsetD)
  have "results s = []" using g(2) by (simp add: best_of_none)
  then have f: "found s = u64_max" using assms(3) g(3) w by (auto simp: signalled_def)
  then have st: "\<not> stopped s" using assms(3,5) by (auto simp: signalled_def)
  have "Gone \<in> set (workers s)" using w [OF assms(6)] g(3) assms(6) nth_mem [of 0 "workers s"] by auto
  then have "queue s = []" "todo s = []" using assms(3,4) st by (auto simp: signalled_def)
  then show ?thesis using assms(2) f st g(3) w by (auto simp: accounted_def)
qed

section \<open>The search returns\<close>








lemma signalled_steps: "(pool_step cap job)\<^sup>*\<^sup>* s t \<Longrightarrow> signalled n s \<Longrightarrow> signalled n t"
  by (induction rule: rtranclp_induct) (auto intro: signalled_step)




section \<open>The jobs of a width\<close>

lemma chunks_concat:
  assumes "b \<le> l"
  shows "concat (map (\<lambda>j. [b + j * c..<min (b + j * c + c) l]) [0..<n]) = [b..<min (b + n * c) l]"
proof (induction n)
  case (Suc n)
  show ?case
  proof (cases "b + n * c \<le> l")
    case True
    then have "[b..<min (b + Suc n * c) l] = [b..<b + n * c] @ [b + n * c..<min (b + n * c + c) l]"
      using upt_add_eq_append [of b "b + n * c" "min (b + n * c + c) l - (b + n * c)"]
      by (simp add: algebra_simps min_def)
    then show ?thesis using Suc True by (simp add: min_def)
  next
    case False
    then show ?thesis using Suc by simp
  qed
qed (use assms in simp)

lemma div_ceil_mult:
  assumes "0 < c"
  shows "a \<le> div_ceil a c * c"
proof -
  have "(a + c - 1) mod c < c" using assms by simp
  moreover have "a + c - 1 = div_ceil a c * c + (a + c - 1) mod c" by (simp add: div_ceil_def)
  ultimately show ?thesis using assms by linarith
qed

lemma width_range_order: "0 < w \<Longrightarrow> fst (width_range w) < snd (width_range w)"
  by (cases w) (auto simp: width_range_def)

lemma jobs_concat:
  assumes "0 < width" and "0 < threads * jobs_mult" and "0 < min_chunk" and "0 < cap"
  shows "concat (map (\<lambda>(w, b, e). [b..<e]) (jobs_of threads jobs_mult min_chunk cap width)) =
    [fst (width_range width)..<snd (width_range width)]"
proof -
  obtain b l where bl: "width_range width = (b, l)" by fastforce
  obtain c n where cn: "chunk_and_jobs b l threads jobs_mult min_chunk cap = (c, n)" by fastforce
  have "b < l" using width_range_order [OF assms(1)] by (simp add: bl)
  have c: "0 < c" using cn assms(3,4) by (auto simp: chunk_and_jobs_def Let_def div_greater_zero_iff split: if_splits)
  have n: "n = max (div_ceil (l - b) c) 1" using cn by (auto simp: chunk_and_jobs_def Let_def)
  have "(l - b) \<le> n * c" using div_ceil_mult [OF c, of "l - b"] mult_le_mono1 [of "div_ceil (l - b) c" n c]
    unfolding n by linarith
  then have "min (b + n * c) l = l" using \<open>b < l\<close> by simp
  then show ?thesis
    using chunks_concat [of b l c n] \<open>b < l\<close> by (simp add: jobs_of_def bl cn comp_def case_prod_unfold)
qed



section \<open>The whole search\<close>

lemma jobs_of_mem:
  assumes "0 < width" and "0 < threads * jobs_mult" and "0 < min_chunk" and "0 < cap"
  shows "(\<exists>w b e. (w, b, e) \<in> set (jobs_of threads jobs_mult min_chunk cap width) \<and> b \<le> v \<and> v < e) \<longleftrightarrow>
    v \<in> {fst (width_range width)..<snd (width_range width)}"
proof -
  have "v \<in> set (concat (map (\<lambda>(w, b, e). [b..<e]) (jobs_of threads jobs_mult min_chunk cap width))) \<longleftrightarrow>
      v \<in> {fst (width_range width)..<snd (width_range width)}"
    unfolding jobs_concat [OF assms] by simp
  then show ?thesis by auto
qed

lemma below_div_ceil:
  assumes "j < max (div_ceil r c) 1" and "0 < c" and "0 < r"
  shows "j * c < r"
proof (cases j)
  case (Suc i)
  then have "Suc j \<le> (r + c - 1) div c" using assms(1) by (simp add: div_ceil_def max_def split: if_splits)
  then have "Suc j * c \<le> r + c - 1" using assms(2) by (simp add: less_eq_div_iff_mult_less_eq)
  then show ?thesis using assms(2,3) by simp
qed (use assms(3) in simp)

lemma jobs_of_width:
  assumes "(w, b, e) \<in> set (jobs_of threads jobs_mult min_chunk cap width)"
    and "0 < width" and "0 < min_chunk" and "0 < cap"
  shows "w = width" and "b \<le> e" and "e \<le> snd (width_range width)" and "fst (width_range width) \<le> b"
proof -
  obtain lo hi where r: "width_range width = (lo, hi)" by fastforce
  obtain c n where cn: "chunk_and_jobs lo hi threads jobs_mult min_chunk cap = (c, n)" by fastforce
  obtain j where j: "j < n" "w = width" "b = lo + j * c" "e = min (lo + j * c + c) hi"
    using assms(1) by (auto simp: jobs_of_def r cn)
  have c: "0 < c" using cn assms(3,4) by (auto simp: chunk_and_jobs_def Let_def div_greater_zero_iff split: if_splits)
  have "n = max (div_ceil (hi - lo) c) 1" using cn by (auto simp: chunk_and_jobs_def Let_def)
  then have "j * c < hi - lo" using below_div_ceil [of j "hi - lo" c] j(1) c width_range_order [OF assms(2)] r by simp
  then show "w = width" "b \<le> e" "e \<le> snd (width_range width)" "fst (width_range width) \<le> b"
    using j r by auto
qed

lemma width_range_bounds: "0 < w \<Longrightarrow> width_range w = ((if w = 1 then 0 else 10 ^ (w - 1)), 10 ^ w)"
  by (simp add: width_range_def)

definition pow_job :: "bool \<Rightarrow> soft_block \<Rightarrow> batch_ctx \<Rightarrow> job \<Rightarrow> hit option" where
  "pow_job cpu soft ctx j =
     (case j of (w, b, e) \<Rightarrow> case bc_plan ctx w of None \<Rightarrow> None | Some pl \<Rightarrow> batch8 cpu soft ctx pl b e)"

definition solve_jobs :: "nat \<Rightarrow> job list" where
  "solve_jobs threads = all_jobs threads 19 16 8 (2 ^ 20)"

text \<open>The answer of a search over all widths, for the digest \<open>D\<close> of a width and a nonce.\<close>

definition solve_ok :: "(nat \<Rightarrow> nat \<Rightarrow> bytes) \<Rightarrow> nat \<Rightarrow> bool \<Rightarrow> hit option \<Rightarrow> bool" where
  "solve_ok D need ab r \<longleftrightarrow>
     (case r of
        Some (v, h) \<Rightarrow> \<exists>w. 1 \<le> w \<and> w \<le> 19 \<and> fst (width_range w) \<le> v \<and> v < snd (width_range w) \<and>
          h = D w v \<and> digest_hit need h
      | None \<Rightarrow> ab \<or> (\<forall>w v. 1 \<le> w \<and> w \<le> 19 \<and> fst (width_range w) \<le> v \<and> v < snd (width_range w) \<longrightarrow>
          \<not> digest_hit need (D w v)))"


lemma all_jobs_mem:
  "j \<in> set (all_jobs threads max_width jobs_mult min_chunk cap) \<longleftrightarrow>
   (\<exists>w. 1 \<le> w \<and> w \<le> max_width \<and> j \<in> set (jobs_of (max threads 1) jobs_mult min_chunk cap w))"
  unfolding all_jobs_def set_concat set_map set_upt by auto

lemma solve_jobs_mem:
  assumes "(w, b, e) \<in> set (solve_jobs threads)"
  shows "1 \<le> w" and "w \<le> 19" and "b \<le> e" and "e \<le> 10 ^ w" and "fst (width_range w) \<le> b"
proof -
  obtain v where v: "1 \<le> v" "v \<le> 19" "(w, b, e) \<in> set (jobs_of (max threads 1) 16 8 (2 ^ 20) v)"
    using assms unfolding solve_jobs_def all_jobs_mem by blast
  from v(1) have "0 < v" by simp
  note j = jobs_of_width [OF v(3) this]
  have "w = v" by (rule j(1)) simp_all
  moreover have "snd (width_range v) = 10 ^ v" by (simp add: width_range_def)
  ultimately show "1 \<le> w" "w \<le> 19" "b \<le> e" "e \<le> 10 ^ w" "fst (width_range w) \<le> b"
    using v(1,2) j(2-4) by simp_all
qed

lemma solve_jobs_cover:
  assumes "1 \<le> w" and "w \<le> 19" and "fst (width_range w) \<le> v" and "v < snd (width_range w)"
  obtains b e where "(w, b, e) \<in> set (solve_jobs threads)" and "b \<le> v" and "v < e"
proof -
  obtain w' b e where j: "(w', b, e) \<in> set (jobs_of (max threads 1) 16 8 (2 ^ 20) w)" "b \<le> v" "v < e"
    using jobs_of_mem [of w "max threads 1" 16 8 "2 ^ 20" v] assms(1,3,4) by fastforce
  have "w' = w" using jobs_of_width(1) [OF j(1)] assms(1) by simp
  then have "(w, b, e) \<in> set (solve_jobs threads)"
    using j(1) assms(1,2) unfolding solve_jobs_def all_jobs_mem by blast
  with j(2,3) show ?thesis using that by blast
qed

context batch_lanes
begin

lemma job_least:
  assumes "soft_ok soft" and "(w, b, e) \<in> set (solve_jobs threads)"
  shows "least_hit (\<lambda>n. the (digest cpu soft p n w)) (bc_need (mk cpu soft p)) b e
      (pow_job cpu soft (mk cpu soft p) (w, b, e))"
proof -
  note j = solve_jobs_mem [OF assms(2)]
  from search [OF assms(1) j(2,3) pow10_fits [OF j(2,4)], of cpu p]
  show ?thesis by (auto simp: pow_job_def)
qed

lemma solved:
  assumes "soft_ok soft" and "0 < n"
    and "pool_reach cap (pow_job cpu soft (mk cpu soft p)) (solve_jobs threads) n ab s"
    and "phase s = Returned r"
  shows "solve_ok (\<lambda>w v. the (digest cpu soft p v w)) (bc_need (mk cpu soft p)) (aborted s) r"
proof -
  let ?job = "pow_job cpu soft (mk cpu soft p)"
  let ?need = "bc_need (mk cpu soft p)"
  have hit: "b \<le> v \<and> v < e \<and> h = the (digest cpu soft p v w) \<and> digest_hit ?need h"
    if "(w, b, e) \<in> set (solve_jobs threads)" "?job (w, b, e) = Some (v, h)" for w b e v h
    using job_least [OF assms(1) that(1), of cpu p] unfolding that(2) least_hit_def by auto
  have small: "fst r < u64_max" if "j \<in> set (solve_jobs threads)" "?job j = Some r" for j r
  proof -
    obtain w b e v h where [simp]: "j = (w, b, e)" "r = (v, h)" by (cases j; cases r)
    have "v < e" "w \<le> 19" "e \<le> 10 ^ w" using hit [of w b e v h] that solve_jobs_mem [of w b e threads] by auto
    then have "v + 8 < 2 ^ 64" using pow10_fits [of w e] by linarith
    then show ?thesis by (simp add: u64_max_def)
  qed
  have inv: "genuine ?job (solve_jobs threads) s \<and> accounted ?job (solve_jobs threads) s \<and> signalled n s"
    by (rule pool_reach_inv [OF assms(3) small])
  show ?thesis
  proof (cases r)
    case (Some vh)
    obtain v h where vh: "vh = (v, h)" by fastforce
    obtain w b e where j: "(w, b, e) \<in> set (solve_jobs threads)" "?job (w, b, e) = Some (v, h)"
      using inv assms(4) unfolding genuine_def Some vh by (metis prod_cases3)
    note m = solve_jobs_mem [OF j(1)]
    have "snd (width_range w) = 10 ^ w" using m(1) by (simp add: width_range_def)
    then show ?thesis using hit [OF j] m by (auto simp: solve_ok_def Some vh intro!: exI [of _ w])
  next
    case None
    have "\<not> digest_hit ?need (the (digest cpu soft p v w))"
      if a: "\<not> aborted s" and v: "1 \<le> w" "w \<le> 19" "fst (width_range w) \<le> v" "v < snd (width_range w)" for w v
    proof -
      obtain b e where j: "(w, b, e) \<in> set (solve_jobs threads)" "b \<le> v" "v < e"
        by (rule solve_jobs_cover [OF v])
      have "?job (w, b, e) = None"
        using pool_returned_none [OF _ _ _ _ a assms(2)] inv assms(4) j(1) unfolding None by blast
      then show ?thesis using job_least [OF assms(1) j(1), of cpu p] j(2,3) by (simp add: least_hit_def)
    qed
    then show ?thesis unfolding None solve_ok_def by auto
  qed
qed

end



lemma digest_hit_0 [simp]: "digest_hit 0 h"
  by (simp add: digest_hit_def)





end
