(* ===== verification/Std_Text.thy ===== *)
theory Std_Text
  imports Text Math_Util
begin

text \<open>
  More of Rust's string methods: \<open>trim\<close> with the Unicode property \<open>White_Space\<close>, the integer
  \<open>FromStr\<close> implementations, and the insertion-ordered map of the \<open>indexmap\<close> crate as an
  association list with distinct keys.
\<close>

section \<open>White space\<close>

text \<open>The UTF-8 encodings of the characters with the property \<open>White_Space\<close>.\<close>

definition white_space :: "string list" where
  "white_space =
     map (\<lambda>b. [chr b]) [9, 10, 11, 12, 13, 32] @
     map (map chr) ([[194, 133], [194, 160], [225, 154, 128]] @
       map (\<lambda>b. [226, 128, b]) [128, 129, 130, 131, 132, 133, 134, 135, 136, 137, 138, 168, 169, 175] @
       [[226, 129, 159], [227, 128, 128]])"

function trim_front :: "string list \<Rightarrow> string \<Rightarrow> string" where
  "trim_front ws s =
     (case find (\<lambda>w. w \<noteq> [] \<and> prefix w s) ws of
        None \<Rightarrow> s
      | Some w \<Rightarrow> trim_front ws (drop (length w) s))"
  by pat_completeness auto
termination
  by (relation "measure (\<lambda>(_, s). length s)") (auto simp: find_Some_iff prefix_def)

declare trim_front.simps [simp del]

definition trim_start_ws :: "string \<Rightarrow> string" where
  "trim_start_ws s = trim_front white_space s"

definition trim_end_ws :: "string \<Rightarrow> string" where
  "trim_end_ws s = rev (trim_front (map rev white_space) (rev s))"

definition trim_ws :: "string \<Rightarrow> string" where
  "trim_ws s = trim_end_ws (trim_start_ws s)"

definition ws_byte :: "char \<Rightarrow> bool" where
  "ws_byte c \<longleftrightarrow> ord c \<in> {9, 10, 11, 12, 13, 32, 128, 129, 130, 131, 132, 133, 134, 135, 136, 137, 138,
     159, 160, 168, 169, 175, 194, 225, 226, 227}"

lemma white_space_bytes: "\<forall>w \<in> set white_space. w \<noteq> [] \<and> ws_byte (hd w) \<and> ws_byte (last w)"
  by (simp add: white_space_def ws_byte_def)

lemma trim_front_id:
  "\<forall>w \<in> set ws. w \<noteq> [] \<and> p (hd w) \<Longrightarrow> s = [] \<or> \<not> p (hd s) \<Longrightarrow> trim_front ws s = s"
proof -
  assume ws: "\<forall>w \<in> set ws. w \<noteq> [] \<and> p (hd w)" and s: "s = [] \<or> \<not> p (hd s)"
  have "\<not> (w \<noteq> [] \<and> prefix w s)" if "w \<in> set ws" for w
    using that ws s by (auto simp: prefix_def)
  then have "find (\<lambda>w. w \<noteq> [] \<and> prefix w s) ws = None" by (auto simp: find_None_iff)
  then show ?thesis by (simp add: trim_front.simps [of ws s])
qed

lemma trim_end_ws_id: "s = [] \<or> \<not> ws_byte (last s) \<Longrightarrow> trim_end_ws s = s"
  using trim_front_id [of "map rev white_space" ws_byte "rev s"] white_space_bytes
  by (simp add: trim_end_ws_def hd_rev)

lemma trim_ws_id: "s = [] \<or> \<not> ws_byte (hd s) \<and> \<not> ws_byte (last s) \<Longrightarrow> trim_ws s = s"
  using trim_front_id [of white_space ws_byte s] white_space_bytes
  by (auto simp: trim_ws_def trim_start_ws_def trim_end_ws_id)

section \<open>Integers\<close>

definition parse_uint :: "nat \<Rightarrow> string \<Rightarrow> nat option" where
  "parse_uint mx s =
     (let d = (if prefix ''+'' s then drop 1 s else s)
      in if d = [] \<or> \<not> list_all is_digit d then None
         else if dec_val d \<le> mx then Some (dec_val d) else None)"

definition parse_int :: "int \<Rightarrow> int \<Rightarrow> string \<Rightarrow> int option" where
  "parse_int lo hi s =
     (let neg = prefix ''-'' s; d = (if prefix ''+'' s \<or> neg then drop 1 s else s)
      in if d = [] \<or> \<not> list_all is_digit d then None
         else let v = (if neg then - int (dec_val d) else int (dec_val d))
              in if lo \<le> v \<and> v \<le> hi then Some v else None)"

definition parse_u32 :: "string \<Rightarrow> nat option" where "parse_u32 = parse_uint (2 ^ 32 - 1)"
definition parse_u16 :: "string \<Rightarrow> nat option" where "parse_u16 = parse_uint (2 ^ 16 - 1)"
definition parse_i64 :: "string \<Rightarrow> int option" where "parse_i64 = parse_int (- (2 ^ 63)) (2 ^ 63 - 1)"

section \<open>Splitting\<close>

lemma split_on_nonempty: "split_on p s \<noteq> []"
  by (induction s) (auto split: list.split)

lemma split_on_append: "\<forall>c \<in> set a. \<not> p c \<Longrightarrow> p d \<Longrightarrow> split_on p (a @ d # b) = a # split_on p b"
  by (induction a) auto

lemma split_on_whole: "\<forall>c \<in> set a. \<not> p c \<Longrightarrow> split_on p a = [a]"
  by (induction a) auto

section \<open>Insertion-ordered maps\<close>

fun im_index :: "'k \<Rightarrow> ('k \<times> 'v) list \<Rightarrow> nat option" where
  "im_index k [] = None"
| "im_index k ((k', v) # m) = (if k' = k then Some 0 else map_option Suc (im_index k m))"

definition im_get_index :: "('k \<times> 'v) list \<Rightarrow> nat \<Rightarrow> ('k \<times> 'v) option" where
  "im_get_index m i = (if i < length m then Some (m ! i) else None)"

definition im_insert :: "'k \<Rightarrow> 'v \<Rightarrow> ('k \<times> 'v) list \<Rightarrow> ('k \<times> 'v) list" where
  "im_insert k v m = (case im_index k m of Some i \<Rightarrow> m[i := (k, v)] | None \<Rightarrow> m @ [(k, v)])"

definition im_shift_remove :: "nat \<Rightarrow> ('k \<times> 'v) list \<Rightarrow> ('k \<times> 'v) list" where
  "im_shift_remove i m = take i m @ drop (Suc i) m"

lemma im_index_Some: "im_index k m = Some i \<Longrightarrow> i < length m \<and> fst (m ! i) = k"
  by (induction k m arbitrary: i rule: im_index.induct) (auto split: if_splits)

lemma im_index_None: "im_index k m = None \<longleftrightarrow> k \<notin> fst ` set m"
  by (induction k m rule: im_index.induct) auto

lemma map_fst_im_insert:
  "map fst (im_insert k v m) = (if k \<in> fst ` set m then map fst m else map fst m @ [k])"
proof (cases "im_index k m")
  case None
  then have "k \<notin> fst ` set m" by (simp add: im_index_None)
  then show ?thesis using None by (simp add: im_insert_def)
next
  case (Some i)
  note im_index_Some [OF this]
  then have "map fst (m[i := (k, v)]) = map fst m" by (metis fst_conv list_update_id map_update nth_map)
  moreover have "k \<in> fst ` set m" using Some im_index_None [of k m] by auto
  ultimately show ?thesis using Some by (simp add: im_insert_def)
qed

lemma map_of_im_insert: "map_of (im_insert k v m) = (map_of m)(k \<mapsto> v)"
proof (induction k m rule: im_index.induct)
  case (2 k k' v' m)
  then show ?case by (cases "im_index k m") (auto simp: im_insert_def)
qed (simp add: im_insert_def)

lemma distinct_im_insert: "distinct (map fst m) \<Longrightarrow> distinct (map fst (im_insert k v m))"
  by (simp add: map_fst_im_insert)

lemma set_map_of: "distinct (map fst m) \<Longrightarrow> set m = {(x, y). map_of m x = Some y}"
  by auto

lemma set_im_insert:
  assumes "distinct (map fst m)"
  shows "set (im_insert k v m) = insert (k, v) {x \<in> set m. fst x \<noteq> k}"
  unfolding set_map_of [OF distinct_im_insert [OF assms]] map_of_im_insert set_map_of [OF assms]
  by (auto split: if_splits)

lemma length_im_insert: "length (im_insert k v m) = (if k \<in> fst ` set m then length m else Suc (length m))"
  using arg_cong [OF map_fst_im_insert [of k v m], of length] by (auto split: if_splits)

end
