(* ===== verification/Cookies.thy ===== *)
theory Cookies
  imports Std_Text Url Calendar "HOL-Library.Product_Lexorder" "HOL-Library.Monad_Syntax"
begin

text \<open>
  The cookie jar of \<open>crates/session-state/src/session.rs\<close>: parsing a \<open>Set-Cookie\<close> line, the
  insertion-ordered map of cookies with its index by name, eviction, look-ups, and the header
  sent for a URL. Milliseconds and sequence numbers are \<open>u64\<close>; \<open>now\<close> is the reading of the
  clock. Positions in the map are below \<open>2^32\<close>, so the cast of the index is the identity.
\<close>

section \<open>State\<close>

definition JAR_CAP :: nat where "JAR_CAP = 512"

type_synonym cookie_key = "string \<times> string \<times> string"

record cookie_entry =
  ce_value :: string
  ce_host_only :: bool
  ce_expires :: u64
  ce_secure :: bool
  ce_seq :: u64

record cookie_jar =
  cj_map :: "(cookie_key \<times> cookie_entry) list"
  cj_by_name :: "string \<rightharpoonup> nat list"
  cj_next :: u64

definition jar_new :: cookie_jar where
  "jar_new = \<lparr>cj_map = [], cj_by_name = (\<lambda>_. None), cj_next = 0\<rparr>"

definition jar_clear :: "cookie_jar \<Rightarrow> cookie_jar" where
  "jar_clear j = j\<lparr>cj_map := [], cj_by_name := (\<lambda>_. None), cj_next := 0\<rparr>"

definition push_index :: "string \<Rightarrow> nat \<Rightarrow> (string \<rightharpoonup> nat list) \<Rightarrow> (string \<rightharpoonup> nat list)" where
  "push_index name i bn = bn(name \<mapsto> (case bn name of Some v \<Rightarrow> v @ [i] | None \<Rightarrow> [i]))"

fun index_names :: "nat \<Rightarrow> (cookie_key \<times> cookie_entry) list \<Rightarrow> (string \<rightharpoonup> nat list) \<Rightarrow> (string \<rightharpoonup> nat list)" where
  "index_names i [] bn = bn"
| "index_names i ((k, _) # m) bn = index_names (i + 1) m (push_index (fst k) i bn)"

definition rebuild_by_name :: "cookie_jar \<Rightarrow> cookie_jar" where
  "rebuild_by_name j = j\<lparr>cj_by_name := index_names 0 (cj_map j) (\<lambda>_. None)\<rparr>"

section \<open>Hosts and paths\<close>

definition host_key :: "string \<Rightarrow> string" where
  "host_key domain =
     (let d = trim_ws domain; d = (case strip_prefix ''.'' d of Some r \<Rightarrow> r | None \<Rightarrow> d)
      in ascii_lower_compact d)"

definition domain_matches :: "string \<Rightarrow> string \<Rightarrow> bool \<Rightarrow> bool" where
  "domain_matches host cookie_domain host_only =
     (if host_only \<or> host = cookie_domain then host = cookie_domain
      else cookie_domain \<noteq> [] \<and> length cookie_domain < length host \<and> suffix cookie_domain host \<and>
        host ! (length host - length cookie_domain - 1) = CHR ''.'')"

definition path_matches :: "string \<Rightarrow> string \<Rightarrow> bool" where
  "path_matches request_path cookie_path =
     (case strip_prefix cookie_path request_path of
        Some rest \<Rightarrow> rest = [] \<or> suffix ''/'' cookie_path \<or> prefix ''/'' rest
      | None \<Rightarrow> False)"

definition parent_path :: "string \<Rightarrow> string" where
  "parent_path url =
     (let path = path_of url;
          q = (case byte_find (\<lambda>c. c = CHR ''?'' \<or> c = CHR ''#'') path of Some i \<Rightarrow> i | None \<Rightarrow> length path);
          path = take q path
      in if path = [] then ''/''
         else case byte_rfind ((=) (CHR ''/'')) path of
                None \<Rightarrow> ''/''
              | Some i \<Rightarrow> if i = 0 then ''/'' else take i path)"

definition url_is_secure :: "string \<Rightarrow> bool" where
  "url_is_secure url = starts_with_ci url ''https:''"

section \<open>Dates\<close>

definition MONTHS :: "string list" where
  "MONTHS = [''jan'', ''feb'', ''mar'', ''apr'', ''may'', ''jun'',
     ''jul'', ''aug'', ''sep'', ''oct'', ''nov'', ''dec'']"

fun month_index :: "string \<Rightarrow> string list \<Rightarrow> nat option" where
  "month_index s [] = None"
| "month_index s (m # ms) = (if eq_ignore_case s m then Some 0 else map_option Suc (month_index s ms))"

definition next_part :: "string list \<Rightarrow> (string \<times> string list) option" where
  "next_part it = (case it of [] \<Rightarrow> None | p # ps \<Rightarrow> Some (p, ps))"

definition http_time :: "string \<Rightarrow> (int \<times> int \<times> int) option" where
  "http_time time =
     (let tp = split_on ((=) (CHR '':'')) time in
      do { (h, tp) \<leftarrow> next_part tp; hour \<leftarrow> parse_i64 h;
           (m, tp) \<leftarrow> next_part tp; minute \<leftarrow> parse_i64 m;
           let second = (case Option.bind (next_part tp) (\<lambda>(s, _). parse_i64 s) of Some s \<Rightarrow> s | None \<Rightarrow> 0);
           if 0 \<le> hour \<and> hour \<le> 23 \<and> 0 \<le> minute \<and> minute \<le> 59 \<and> 0 \<le> second \<and> second \<le> 59
           then Some (hour, minute, second) else None })"

definition http_date_ms :: "string \<Rightarrow> u64 option" where
  "http_date_ms v =
     (let it = filter (\<lambda>p. p \<noteq> []) (split_on (\<lambda>c. c = CHR '' '' \<or> c = CHR '','') v) in
      do { (_, it) \<leftarrow> next_part it;
           (d, it) \<leftarrow> next_part it; day \<leftarrow> parse_u32 d;
           if 1 \<le> day \<and> day \<le> 31 then
             do { (mon_str, it) \<leftarrow> next_part it; mon \<leftarrow> month_index mon_str MONTHS;
                  (y, it) \<leftarrow> next_part it; year \<leftarrow> parse_i64 y;
                  if 1970 \<le> year \<and> year \<le> 9999 then
                    do { (time, _) \<leftarrow> next_part it; (hour, minute, second) \<leftarrow> http_time time;
                         let ms = epoch_ms_from_civil year (int mon + 1) (int day) hour minute second 0;
                         Some (if ms < 0 then 0 else word_of_int ms) }
                  else None }
           else None })"

section \<open>Storing\<close>

definition attr_of :: "string \<Rightarrow> (string \<times> string) option" where
  "attr_of part =
     map_option (\<lambda>eq. (trim_ws (take eq part), trim_ws (drop (eq + 1) part))) (byte_find ((=) (CHR ''='')) part)"

record cookie_attrs =
  ca_domain :: string
  ca_host_only :: bool
  ca_path :: string
  ca_expires :: u64
  ca_max_age_seen :: bool
  ca_secure :: bool

definition saturating_add :: "u64 \<Rightarrow> u64 \<Rightarrow> u64" where
  "saturating_add a b = (if unat a + unat b < 2 ^ 64 then a + b else - 1)"

definition max_age_expires :: "u64 \<Rightarrow> string \<Rightarrow> u64" where
  "max_age_expires now v =
     (case parse_i64 v of
        Some secs \<Rightarrow> if 0 < secs then saturating_add now (word_of_int secs * 1000) else 0
      | None \<Rightarrow> 0)"

definition attr_step :: "u64 \<Rightarrow> string \<Rightarrow> cookie_attrs \<Rightarrow> string \<Rightarrow> cookie_attrs" where
  "attr_step now uhost a part =
     (let part = trim_ws part in
      if part = [] then a
      else case attr_of part of
        None \<Rightarrow> if eq_ignore_case part ''secure'' then a\<lparr>ca_secure := True\<rparr> else a
      | Some (key, v) \<Rightarrow>
          if eq_ignore_case key ''secure'' then a\<lparr>ca_secure := True\<rparr>
          else if eq_ignore_case key ''domain'' \<and> v \<noteq> [] then
            (let d = host_key v
             in if uhost \<noteq> [] \<and> domain_matches uhost d False
                then a\<lparr>ca_domain := d, ca_host_only := False\<rparr> else a)
          else if eq_ignore_case key ''path'' \<and> v \<noteq> [] \<and> prefix ''/'' v then a\<lparr>ca_path := v\<rparr>
          else if eq_ignore_case key ''max-age'' then
            a\<lparr>ca_max_age_seen := True, ca_expires := max_age_expires now v\<rparr>
          else if eq_ignore_case key ''expires'' \<and> \<not> ca_max_age_seen a then
            (case http_date_ms v of Some ms \<Rightarrow> a\<lparr>ca_expires := ms\<rparr> | None \<Rightarrow> a)
          else a)"

definition cookie_pair :: "string \<Rightarrow> (string \<times> string \<times> string) option" where
  "cookie_pair set_cookie =
     (let semi = byte_find ((=) (CHR '';'')) set_cookie;
          first_raw = (case semi of Some i \<Rightarrow> take i set_cookie | None \<Rightarrow> set_cookie);
          attrs_raw = (case semi of Some i \<Rightarrow> drop (i + 1) set_cookie | None \<Rightarrow> '''');
          line = trim_ws first_raw
      in case byte_find ((=) (CHR ''='')) line of
           None \<Rightarrow> None
         | Some eq \<Rightarrow>
             let name = trim_end_ws (take eq line); value = trim_ws (drop 1 (drop eq line))
             in if name = [] \<or> 256 < length name \<or> 4096 < length value then None
                else Some (name, value, attrs_raw))"

fun victim :: "nat \<Rightarrow> (cookie_key \<times> cookie_entry) list \<Rightarrow> u64 \<times> u64 \<Rightarrow> nat \<Rightarrow> nat" where
  "victim i [] best idx = idx"
| "victim i ((_, e) # m) best idx =
     (if (ce_expires e, ce_seq e) < best then victim (i + 1) m (ce_expires e, ce_seq e) i
      else victim (i + 1) m best idx)"

definition evict :: "u64 \<Rightarrow> cookie_jar \<Rightarrow> cookie_jar" where
  "evict now j =
     (if length (cj_map j) < JAR_CAP then j
      else let m = filter (\<lambda>(_, e). now < ce_expires e) (cj_map j);
               j1 = (if length m \<noteq> length (cj_map j) then rebuild_by_name (j\<lparr>cj_map := m\<rparr>) else j\<lparr>cj_map := m\<rparr>)
           in if length (cj_map j1) < JAR_CAP then j1
              else rebuild_by_name
                (j1\<lparr>cj_map := im_shift_remove (victim 0 (cj_map j1) (- 1, - 1) 0) (cj_map j1)\<rparr>))"

text \<open>The shared end of \<open>ingest_scoped\<close> and of the loop of \<open>copy_matching\<close>.\<close>

definition store :: "cookie_key \<Rightarrow> (u64 \<Rightarrow> cookie_entry) \<Rightarrow> cookie_jar \<Rightarrow> cookie_jar" where
  "store key entry j =
     (case im_index key (cj_map j) of
        Some i \<Rightarrow> j\<lparr>cj_map := im_insert key (entry (ce_seq (snd (cj_map j ! i)))) (cj_map j)\<rparr>
      | None \<Rightarrow>
          let m = im_insert key (entry (cj_next j)) (cj_map j)
          in j\<lparr>cj_next := cj_next j + 1, cj_map := m,
               cj_by_name := push_index (fst key) (length m - 1) (cj_by_name j)\<rparr>)"

definition ingest_scoped :: "u64 \<Rightarrow> u64 \<Rightarrow> string \<Rightarrow> string \<Rightarrow> string \<Rightarrow> cookie_jar \<Rightarrow> cookie_jar" where
  "ingest_scoped now now' set_cookie uhost upath j =
     (case cookie_pair set_cookie of
        None \<Rightarrow> j
      | Some (name, value, attrs_raw) \<Rightarrow>
          let a = foldl (attr_step now uhost)
                \<lparr>ca_domain = (if uhost = [] then [] else host_key uhost), ca_host_only = True,
                 ca_path = (if upath = [] then ''/'' else upath), ca_expires = - 1,
                 ca_max_age_seen = False, ca_secure = False\<rparr>
                (split_on ((=) (CHR '';'')) attrs_raw)
          in store (name, ca_domain a, ca_path a)
               (\<lambda>seq. \<lparr>ce_value = value, ce_host_only = ca_host_only a, ce_expires = ca_expires a,
                 ce_secure = ca_secure a, ce_seq = seq\<rparr>) (evict now' j))"

definition ingest :: "u64 \<Rightarrow> u64 \<Rightarrow> string \<Rightarrow> cookie_jar \<Rightarrow> cookie_jar" where
  "ingest now now' set_cookie j = ingest_scoped now now' set_cookie [] [] j"

definition ingest_for_url :: "u64 \<Rightarrow> u64 \<Rightarrow> string \<Rightarrow> string \<Rightarrow> cookie_jar \<Rightarrow> cookie_jar" where
  "ingest_for_url now now' set_cookie url j =
     ingest_scoped now now' set_cookie (url_host url) (parent_path url) j"

definition ingest_header :: "u64 \<Rightarrow> u64 \<Rightarrow> string \<Rightarrow> string \<Rightarrow> cookie_jar \<Rightarrow> cookie_jar" where
  "ingest_header now now' header url j =
     foldl (\<lambda>j kv. ingest_scoped now now' (trim_ws kv) (url_host url) (parent_path url) j) j
       (split_on ((=) (CHR '';'')) header)"

definition copy_step :: "u64 \<Rightarrow> string \<Rightarrow> string \<Rightarrow> bool \<Rightarrow> cookie_jar \<Rightarrow> cookie_key \<times> cookie_entry \<Rightarrow> cookie_jar" where
  "copy_step now host path secure_ok j ke =
     (case ke of ((name, domain, cpath), e) \<Rightarrow>
        if ce_expires e \<le> now \<or> (ce_secure e \<and> \<not> secure_ok) \<or>
           \<not> domain_matches host domain (ce_host_only e) \<or> \<not> path_matches path cpath
        then j
        else store (name, domain, cpath) (\<lambda>seq. e\<lparr>ce_seq := seq\<rparr>) j)"

definition copy_matching :: "u64 \<Rightarrow> cookie_jar \<Rightarrow> string \<Rightarrow> cookie_jar \<Rightarrow> cookie_jar" where
  "copy_matching now from_jar url j =
     foldl (copy_step now (host_key (host_of url)) (parent_path url) (url_is_secure url)) j (cj_map from_jar)"

section \<open>Look-ups and headers\<close>

fun find_map :: "('a \<Rightarrow> 'b option) \<Rightarrow> 'a list \<Rightarrow> 'b option" where
  "find_map f [] = None"
| "find_map f (i # ks) = (case f i of Some x \<Rightarrow> Some x | None \<Rightarrow> find_map f ks)"

definition jar_get :: "u64 \<Rightarrow> string \<Rightarrow> cookie_jar \<Rightarrow> string option" where
  "jar_get now name j =
     (case cj_by_name j name of
        None \<Rightarrow> None
      | Some idxs \<Rightarrow> find_map (\<lambda>i. case im_get_index (cj_map j) i of
            None \<Rightarrow> None
          | Some (_, e) \<Rightarrow> if now < ce_expires e then Some (ce_value e) else None) idxs)"

definition get_for_host :: "u64 \<Rightarrow> string \<Rightarrow> string \<Rightarrow> cookie_jar \<Rightarrow> string option" where
  "get_for_host now name host j =
     (let host = host_key host in
      case cj_by_name j name of
        None \<Rightarrow> None
      | Some idxs \<Rightarrow> find_map (\<lambda>i. case im_get_index (cj_map j) i of
            None \<Rightarrow> None
          | Some ((_, d, _), e) \<Rightarrow>
              if domain_matches host d (ce_host_only e) \<and> now < ce_expires e then Some (ce_value e) else None) idxs)"

definition sends :: "u64 \<Rightarrow> string \<Rightarrow> string \<Rightarrow> bool \<Rightarrow> cookie_key \<times> cookie_entry \<Rightarrow> bool" where
  "sends now host path secure_ok ke =
     (case ke of ((_, domain, cpath), e) \<Rightarrow>
        \<not> ce_expires e \<le> now \<and> \<not> (ce_secure e \<and> \<not> secure_ok) \<and>
        (if host \<noteq> [] then domain_matches host domain (ce_host_only e)
         else \<not> (domain \<noteq> [] \<and> ce_host_only e)) \<and>
        \<not> (path \<noteq> [] \<and> \<not> path_matches path cpath))"

definition cookie_text :: "cookie_key \<times> cookie_entry \<Rightarrow> string" where
  "cookie_text ke = fst (fst ke) @ ''='' @ ce_value (snd ke)"

fun join_cookies :: "(cookie_key \<times> cookie_entry) list \<Rightarrow> string" where
  "join_cookies [] = []"
| "join_cookies [ke] = cookie_text ke"
| "join_cookies (ke # kes) = cookie_text ke @ ''; '' @ join_cookies kes"

definition header_for_into :: "u64 \<Rightarrow> string \<Rightarrow> string \<Rightarrow> bool \<Rightarrow> string \<Rightarrow> cookie_jar \<Rightarrow> string" where
  "header_for_into now host path secure_ok out j =
     (let idx = map (\<lambda>i. case cj_map j ! i of ((_, _, cpath), e) \<Rightarrow> (i, length cpath, ce_seq e))
                  (filter (\<lambda>i. sends now host path secure_ok (cj_map j ! i)) [0..<length (cj_map j)]);
          idx = sort_key (\<lambda>(_, l, s). (- int l, s)) idx
      in out @ join_cookies (map (\<lambda>(i, _, _). cj_map j ! i) idx))"

definition header_string :: "string \<Rightarrow> string option" where
  "header_string buf = (if \<not> valid_utf8 buf \<or> buf = [] then None else Some buf)"

definition header_for_url :: "u64 \<Rightarrow> string \<Rightarrow> cookie_jar \<Rightarrow> string option" where
  "header_for_url now url j =
     header_string (header_for_into now (host_of_into url []) (parent_path url) (url_is_secure url) [] j)"

definition header_str :: "u64 \<Rightarrow> cookie_jar \<Rightarrow> string option" where
  "header_str now j = header_string (header_for_into now [] [] True [] j)"

end
