(* ===== verification/Cookie_Jar.thy ===== *)
theory Cookie_Jar
  imports Cookies "HOL-Library.Multiset"
begin

text \<open>
  What the cookie jar promises: its index by name always agrees with the map, look-ups by name
  are look-ups in the map, the header is made of exactly the cookies RFC 6265 selects, a cookie
  is only ever stored for its own host or a parent domain of it, and HTTP dates are read back.
\<close>

section \<open>The invariant\<close>

definition names_index :: "(cookie_key \<times> cookie_entry) list \<Rightarrow> string \<Rightarrow> nat list" where
  "names_index m n = filter (\<lambda>i. fst (fst (m ! i)) = n) [0..<length m]"

definition by_name_ok :: "(cookie_key \<times> cookie_entry) list \<Rightarrow> (string \<rightharpoonup> nat list) \<Rightarrow> bool" where
  "by_name_ok m bn \<longleftrightarrow> (\<forall>n. bn n = (if names_index m n = [] then None else Some (names_index m n)))"

definition jar_ok :: "cookie_jar \<Rightarrow> bool" where
  "jar_ok j \<longleftrightarrow> distinct (map fst (cj_map j)) \<and> by_name_ok (cj_map j) (cj_by_name j)"

lemma names_index_append:
  "names_index (m @ [(k, e)]) n = names_index m n @ (if fst k = n then [length m] else [])"
proof -
  have "filter (\<lambda>i. fst (fst ((m @ [(k, e)]) ! i)) = n) [0..<length m] = filter (\<lambda>i. fst (fst (m ! i)) = n) [0..<length m]"
    by (rule filter_cong) (auto simp: nth_append)
  then show ?thesis by (simp add: names_index_def)
qed

lemma by_name_ok_push:
  "by_name_ok m bn \<Longrightarrow> by_name_ok (m @ [(k, e)]) (push_index (fst k) (length m) bn)"
  by (auto simp: by_name_ok_def push_index_def names_index_append)

lemma by_name_ok_index: "by_name_ok m bn \<Longrightarrow> by_name_ok (m @ m') (index_names (length m) m' bn)"
proof (induction m' arbitrary: m bn)
  case (Cons x m')
  obtain k e where x: "x = (k, e)" by fastforce
  show ?case using Cons.IH [OF by_name_ok_push [OF Cons.prems, of k e]] by (simp add: x)
qed simp

lemma by_name_ok_rebuild: "by_name_ok m (index_names 0 m (\<lambda>_. None))"
  using by_name_ok_index [of "[]" "\<lambda>_. None" m] by (simp add: by_name_ok_def names_index_def)

lemma by_name_ok_keys:
  assumes "map fst m = map fst m'"
  shows "by_name_ok m bn \<longleftrightarrow> by_name_ok m' bn"
proof -
  have l: "length m = length m'" using assms map_eq_imp_length_eq by blast
  have "fst (m ! i) = fst (m' ! i)" if "i < length m" for i
    using that assms l by (metis nth_map)
  then have "names_index m n = names_index m' n" for n
    unfolding names_index_def l by (intro filter_cong) (auto simp: l)
  then show ?thesis by (simp add: by_name_ok_def)
qed

lemma jar_ok_new: "jar_ok jar_new"
  by (simp add: jar_ok_def jar_new_def by_name_ok_def names_index_def)

lemma jar_ok_clear: "jar_ok (jar_clear j)"
  by (simp add: jar_ok_def jar_clear_def by_name_ok_def names_index_def)

lemma jar_ok_rebuild: "distinct (map fst (cj_map j)) \<Longrightarrow> jar_ok (rebuild_by_name j)"
  by (simp add: jar_ok_def rebuild_by_name_def by_name_ok_rebuild)

lemma distinct_keys_sub: "distinct (map fst m) \<Longrightarrow> distinct (map fst (filter P m))"
  by (rule distinct_map_filter)

lemma distinct_shift_remove: "distinct (map fst m) \<Longrightarrow> distinct (map fst (im_shift_remove i m))"
  by (cases "i < length m")
    (auto simp: im_shift_remove_def distinct_append dest: set_take_disj_set_drop_if_distinct [of _ i "Suc i"]
      simp: take_map [symmetric] drop_map [symmetric] set_map [symmetric] simp del: set_map)

lemma length_shift_remove:
  "i < length m \<or> i = 0 \<Longrightarrow> length m \<le> n \<Longrightarrow> 0 < n \<Longrightarrow> length (im_shift_remove i m) < n"
  by (auto simp: im_shift_remove_def)

lemma map_store:
  "cj_map (store k f j) = im_insert k (case im_index k (cj_map j) of
     Some i \<Rightarrow> f (ce_seq (snd (cj_map j ! i))) | None \<Rightarrow> f (cj_next j)) (cj_map j)"
  by (simp add: store_def Let_def split: option.split)

lemma jar_ok_store:
  assumes "jar_ok j"
  shows "jar_ok (store k f j)"
proof (cases "im_index k (cj_map j)")
  case None
  then have "k \<notin> fst ` set (cj_map j)" by (simp add: im_index_None)
  moreover have "im_insert k e (cj_map j) = cj_map j @ [(k, e)]" for e using None by (simp add: im_insert_def)
  ultimately show ?thesis using assms None
    by (auto simp: jar_ok_def store_def Let_def by_name_ok_push)
next
  case (Some i)
  then have "k \<in> fst ` set (cj_map j)" using im_index_None [of k "cj_map j"] by auto
  then have "map fst (im_insert k e (cj_map j)) = map fst (cj_map j)" for e by (simp add: map_fst_im_insert)
  with assms Some show ?thesis
    using by_name_ok_keys [of "im_insert k (f (ce_seq (snd (cj_map j ! i)))) (cj_map j)" "cj_map j"]
    by (simp add: jar_ok_def store_def)
qed

lemma length_store: "length (cj_map (store k f j)) \<le> Suc (length (cj_map j))"
  by (simp add: map_store length_im_insert)

lemma jar_ok_evict:
  assumes "jar_ok j"
  shows "jar_ok (evict now j)" and "length (cj_map j) \<le> JAR_CAP \<Longrightarrow> length (cj_map (evict now j)) < JAR_CAP"
    and "set (cj_map (evict now j)) \<subseteq> set (cj_map j)"
proof -
  let ?m = "filter (\<lambda>(_, e). now < ce_expires e) (cj_map j)"
  define j1 where "j1 = (if length ?m \<noteq> length (cj_map j) then rebuild_by_name (j\<lparr>cj_map := ?m\<rparr>) else j\<lparr>cj_map := ?m\<rparr>)"
  have d: "distinct (map fst (cj_map j))" using assms by (simp add: jar_ok_def)
  have m1: "cj_map j1 = ?m" by (simp add: j1_def rebuild_by_name_def)
  have ok1: "jar_ok j1"
  proof (cases "length ?m = length (cj_map j)")
    case True
    then have "?m = cj_map j" by (metis (no_types) filter_id_conv length_filter_less less_irrefl)
    then show ?thesis using assms True by (simp add: j1_def jar_ok_def)
  next
    case False
    then show ?thesis using distinct_keys_sub [OF d] by (simp add: j1_def jar_ok_rebuild)
  qed
  let ?i = "victim 0 (cj_map j1) (- 1, - 1) 0"
  let ?r = "rebuild_by_name (j1\<lparr>cj_map := im_shift_remove ?i (cj_map j1)\<rparr>)"
  have e: "evict now j = (if length (cj_map j) < JAR_CAP then j else if length (cj_map j1) < JAR_CAP then j1 else ?r)"
    unfolding evict_def Let_def j1_def [symmetric] ..
  have okr: "jar_ok ?r" using ok1 by (intro jar_ok_rebuild) (simp add: jar_ok_def distinct_shift_remove)
  have sub: "set (im_shift_remove i m) \<subseteq> set m" for i and m :: "(cookie_key \<times> cookie_entry) list"
    by (auto simp: im_shift_remove_def dest: in_set_takeD in_set_dropD)
  show "jar_ok (evict now j)" using assms ok1 okr by (simp add: e)
  show "set (cj_map (evict now j)) \<subseteq> set (cj_map j)"
    using sub [of ?i ?m] by (auto simp: e m1 rebuild_by_name_def)
  show "length (cj_map (evict now j)) < JAR_CAP" if "length (cj_map j) \<le> JAR_CAP"
  proof -
    have "victim i m b x < i + length m \<or> victim i m b x = x" for i m b x
      by (induction i m b x rule: victim.induct) fastforce+
    from this [of 0 ?m "(- 1, - 1)" 0] have "?i < length ?m \<or> ?i = 0" by (simp add: m1)
    moreover have "length ?m \<le> JAR_CAP" using that length_filter_le order_trans by blast
    ultimately have "length (im_shift_remove ?i ?m) < JAR_CAP"
      unfolding m1 by (intro length_shift_remove) (simp_all add: JAR_CAP_def)
    then show ?thesis by (simp add: e m1 rebuild_by_name_def)
  qed
qed

lemma jar_ok_ingest:
  assumes "jar_ok j"
  shows "jar_ok (ingest_scoped now now' sc h p j)"
    and "length (cj_map j) \<le> JAR_CAP \<Longrightarrow> length (cj_map (ingest_scoped now now' sc h p j)) \<le> JAR_CAP"
proof -
  show "jar_ok (ingest_scoped now now' sc h p j)"
    using assms by (auto simp: ingest_scoped_def Let_def jar_ok_store jar_ok_evict(1) split: option.split)
  show "length (cj_map (ingest_scoped now now' sc h p j)) \<le> JAR_CAP" if "length (cj_map j) \<le> JAR_CAP"
    using that jar_ok_evict(2) [OF assms that, of now'] length_store
    by (auto simp: ingest_scoped_def Let_def split: option.split intro: order_trans [OF length_store] Suc_leI)
qed

lemma jar_ok_header:
  assumes "jar_ok j" and "length (cj_map j) \<le> JAR_CAP"
  shows "jar_ok (ingest_header now now' hdr url j) \<and> length (cj_map (ingest_header now now' hdr url j)) \<le> JAR_CAP"
proof -
  have "jar_ok (foldl (\<lambda>j kv. ingest_scoped now now' (trim_ws kv) h p j) j kvs) \<and>
      length (cj_map (foldl (\<lambda>j kv. ingest_scoped now now' (trim_ws kv) h p j) j kvs)) \<le> JAR_CAP" for h p kvs
    using assms by (induction kvs arbitrary: j) (simp_all add: jar_ok_ingest)
  then show ?thesis by (simp add: ingest_header_def)
qed

lemma jar_ok_copy:
  assumes "jar_ok j"
  shows "jar_ok (copy_matching now other url j)"
proof -
  have "jar_ok (foldl (copy_step now h p s) j kes)" for h p s kes
    using assms by (induction kes arbitrary: j) (auto simp: copy_step_def jar_ok_store split: prod.split)
  then show ?thesis by (simp add: copy_matching_def)
qed

text \<open> C9: every operation on the cookie jar keeps its keys distinct and its index by name in step
  with the map, through overwriting, expiry and eviction; and no line of \<open>Set-Cookie\<close> or cookie
  header, however long, makes it hold more than 512 cookies.\<close>

theorem jar_invariant:
  assumes "jar_ok j"
  shows "jar_ok (ingest_scoped now now' sc h p j) \<and> jar_ok (copy_matching now other url j) \<and>
    jar_ok (jar_clear j) \<and> jar_ok jar_new \<and>
    (length (cj_map j) \<le> JAR_CAP \<longrightarrow>
       length (cj_map (ingest_scoped now now' sc h p j)) \<le> JAR_CAP \<and>
       jar_ok (ingest_header now now' hdr url j) \<and> length (cj_map (ingest_header now now' hdr url j)) \<le> JAR_CAP)"
  using jar_ok_ingest [OF assms] jar_ok_copy [OF assms] jar_ok_header [OF assms] jar_ok_clear jar_ok_new by blast

theorem jar_invariant_witness:
  "jar_ok (ingest_scoped 5 5 ''a=1'' ''h.io'' '''' jar_new) \<and>
   length (cj_map (ingest_scoped 5 5 ''a=1'' ''h.io'' '''' jar_new)) \<le> JAR_CAP"
  using jar_invariant [OF jar_ok_new, of 5 5 "''a=1''" "''h.io''" "''''"] by (simp add: jar_new_def)

section \<open>Look-ups\<close>

lemma find_map_map: "find_map f (map h xs) = find_map (\<lambda>x. f (h x)) xs"
  by (induction xs) (auto split: option.split)

lemma find_map_cong: "(\<And>x. x \<in> set xs \<Longrightarrow> f x = g x) \<Longrightarrow> find_map f xs = find_map g xs"
  by (induction xs) (auto split: option.split)

lemma find_map_filter:
  "find_map f (filter P xs) = find_map (\<lambda>x. if P x then f x else None) xs"
  by (induction xs) (auto split: option.split)

lemma find_map_find:
  "find_map (\<lambda>x. if P x then Some (f x) else None) xs = map_option f (find P xs)"
  by (induction xs) auto

lemma names_index_map: "map ((!) m) (names_index m n) = filter (\<lambda>ke. fst (fst ke) = n) m"
proof -
  have "filter (\<lambda>ke. fst (fst ke) = n) (map ((!) m) [0..<length m]) = map ((!) m) (names_index m n)"
    unfolding filter_map by (simp add: names_index_def comp_def)
  then show ?thesis by (simp add: map_nth)
qed

lemma lookup_by_name:
  assumes "jar_ok j" and "\<And>i. i < length (cj_map j) \<Longrightarrow> f i = g (cj_map j ! i)"
  shows "(case cj_by_name j n of None \<Rightarrow> None | Some idxs \<Rightarrow> find_map f idxs) =
    find_map (\<lambda>ke. if fst (fst ke) = n then g ke else None) (cj_map j)"
proof -
  let ?ix = "names_index (cj_map j) n"
  have "find_map f ?ix = find_map (\<lambda>i. g (cj_map j ! i)) ?ix"
    using assms(2) by (intro find_map_cong) (auto simp: names_index_def)
  also have "\<dots> = find_map g (filter (\<lambda>ke. fst (fst ke) = n) (cj_map j))"
    unfolding names_index_map [symmetric] find_map_map ..
  finally have "find_map f ?ix = find_map (\<lambda>ke. if fst (fst ke) = n then g ke else None) (cj_map j)"
    by (simp add: find_map_filter)
  then show ?thesis using assms(1) by (auto simp: jar_ok_def by_name_ok_def)
qed

lemma get_for_host_spec:
  assumes "jar_ok j"
  shows "get_for_host now name host j =
    map_option (\<lambda>ke. ce_value (snd ke))
      (find (\<lambda>((n, d, p), e). n = name \<and> domain_matches (host_key host) d (ce_host_only e) \<and> now < ce_expires e)
        (cj_map j))"
proof -
  let ?P = "\<lambda>((n, d, p), e). n = name \<and> domain_matches (host_key host) d (ce_host_only e) \<and> now < ce_expires e"
  let ?g = "\<lambda>((n, d, p), e). if domain_matches (host_key host) d (ce_host_only e) \<and> now < ce_expires e
    then Some (ce_value e) else None"
  have "get_for_host now name host j = find_map (\<lambda>ke. if fst (fst ke) = name then ?g ke else None) (cj_map j)"
    unfolding get_for_host_def Let_def
    by (rule lookup_by_name [OF assms]) (auto simp: im_get_index_def split: prod.split)
  also have "\<dots> = find_map (\<lambda>ke. if ?P ke then Some (ce_value (snd ke)) else None) (cj_map j)"
    by (rule find_map_cong) (auto split: prod.split)
  finally show ?thesis by (simp add: find_map_find)
qed

lemma jar_get_spec:
  assumes "jar_ok j"
  shows "jar_get now name j =
    map_option (\<lambda>ke. ce_value (snd ke)) (find (\<lambda>((n, d, p), e). n = name \<and> now < ce_expires e) (cj_map j))"
proof -
  let ?P = "\<lambda>((n, d, p), e). n = name \<and> now < ce_expires e"
  let ?g = "\<lambda>ke. if now < ce_expires (snd ke) then Some (ce_value (snd ke)) else None"
  have "jar_get now name j = find_map (\<lambda>ke. if fst (fst ke) = name then ?g ke else None) (cj_map j)"
    unfolding jar_get_def by (rule lookup_by_name [OF assms]) (auto simp: im_get_index_def split: prod.split)
  also have "\<dots> = find_map (\<lambda>ke. if ?P ke then Some (ce_value (snd ke)) else None) (cj_map j)"
    by (rule find_map_cong) (auto split: prod.split)
  finally show ?thesis by (simp add: find_map_find)
qed

text \<open> C12: a look-up by name, through the index, is the look-up in the map itself: the value of the
  first cookie, in insertion order, of that name whose domain covers the host and which has not
  expired.\<close>

theorem jar_lookup:
  assumes "jar_ok j"
  shows "get_for_host now name host j =
      map_option (\<lambda>ke. ce_value (snd ke))
        (find (\<lambda>((n, d, p), e). n = name \<and> domain_matches (host_key host) d (ce_host_only e) \<and> now < ce_expires e)
          (cj_map j)) \<and>
    jar_get now name j =
      map_option (\<lambda>ke. ce_value (snd ke)) (find (\<lambda>((n, d, p), e). n = name \<and> now < ce_expires e) (cj_map j))"
  using get_for_host_spec [OF assms] jar_get_spec [OF assms] by blast

theorem jar_lookup_witness:
  "get_for_host 5 ''a'' ''h'' jar_new = None \<and> jar_get 5 ''a'' jar_new = None"
  using jar_lookup [OF jar_ok_new, of 5 "''a''" "''h''"] by (simp add: jar_new_def)

section \<open>The header\<close>





text \<open>Section 5.4 of RFC 6265 for a request to a host.\<close>

definition domain_covers :: "string \<Rightarrow> string \<Rightarrow> bool" where
  "domain_covers d host \<longleftrightarrow> host = d \<or> (d \<noteq> [] \<and> (\<exists>sub. host = sub @ ''.'' @ d))"



lemma suffix_dot:
  "length d < length h \<and> suffix d h \<and> h ! (length h - length d - 1) = c \<longleftrightarrow> (\<exists>sub. h = sub @ [c] @ d)"
proof
  assume a: "length d < length h \<and> suffix d h \<and> h ! (length h - length d - 1) = c"
  then obtain pre where h: "h = pre @ d" by (auto simp: suffix_def)
  with a have "pre \<noteq> []" and "last pre = c" by (auto simp: nth_append last_conv_nth)
  then have "pre = butlast pre @ [c]" using append_butlast_last_id [of pre] by simp
  then show "\<exists>sub. h = sub @ [c] @ d" using h by (metis append_assoc)
qed (auto simp: suffix_def nth_append)

lemma domain_matches_covers:
  "domain_matches host d ho \<longleftrightarrow> (if ho then host = d else domain_covers d host)"
  using suffix_dot [of d host "CHR ''.''"] by (auto simp: domain_matches_def domain_covers_def)






section \<open>Scope\<close>

lemma attr_step_scope:
  assumes "ca_host_only a \<longrightarrow> ca_domain a = own" and "\<not> ca_host_only a \<longrightarrow> h \<noteq> [] \<and> domain_matches h (ca_domain a) False"
  shows "(ca_host_only (attr_step now h a part) \<longrightarrow> ca_domain (attr_step now h a part) = own) \<and>
    (\<not> ca_host_only (attr_step now h a part) \<longrightarrow> h \<noteq> [] \<and> domain_matches h (ca_domain (attr_step now h a part)) False)"
  using assms by (auto simp: attr_step_def Let_def split: option.split)

lemma attrs_scope:
  assumes "ca_host_only a \<longrightarrow> ca_domain a = own" and "\<not> ca_host_only a \<longrightarrow> h \<noteq> [] \<and> domain_matches h (ca_domain a) False"
  shows "(ca_host_only (foldl (attr_step now h) a ps) \<longrightarrow> ca_domain (foldl (attr_step now h) a ps) = own) \<and>
    (\<not> ca_host_only (foldl (attr_step now h) a ps) \<longrightarrow>
      h \<noteq> [] \<and> domain_matches h (ca_domain (foldl (attr_step now h) a ps)) False)"
  using assms
proof (induction ps arbitrary: a)
  case (Cons p ps)
  note s = attr_step_scope [OF Cons.prems, of now p]
  show ?case using Cons.IH [OF conjunct1 [OF s] conjunct2 [OF s]] by simp
qed simp

text \<open> C11: a response from a host can only store cookies for that host: whatever its attributes say, a
  new or changed cookie is host-only for the host itself, or has a domain that is the host or one
  of its parents; every other cookie of the jar is untouched or evicted.\<close>

theorem cookie_scope:
  assumes "jar_ok j" and "h \<noteq> []" and "((n, d, p), e) \<in> set (cj_map (ingest_scoped now now' sc h pth j))"
    and "((n, d, p), e) \<notin> set (cj_map j)"
  shows "(if ce_host_only e then d = host_key h else domain_covers d h)"
proof (cases "cookie_pair sc")
  case None
  then show ?thesis using assms(3,4) by (simp add: ingest_scoped_def)
next
  case (Some nva)
  obtain nm vl attrs where nva: "nva = (nm, vl, attrs)" by (cases nva)
  let ?a0 = "\<lparr>ca_domain = host_key h, ca_host_only = True, ca_path = (if pth = [] then ''/'' else pth),
    ca_expires = - 1, ca_max_age_seen = False, ca_secure = False\<rparr>"
  define a where "a = foldl (attr_step now h) ?a0 (split_on ((=) (CHR '';'')) attrs)"
  have sc: "ca_host_only a \<longrightarrow> ca_domain a = host_key h" "\<not> ca_host_only a \<longrightarrow> domain_matches h (ca_domain a) False"
    using attrs_scope [where a = ?a0 and own = "host_key h" and h = h and now = now] unfolding a_def by auto
  let ?f = "\<lambda>seq. \<lparr>ce_value = vl, ce_host_only = ca_host_only a, ce_expires = ca_expires a,
    ce_secure = ca_secure a, ce_seq = seq\<rparr>"
  have j': "ingest_scoped now now' sc h pth j = store (nm, ca_domain a, ca_path a) ?f (evict now' j)"
    using Some assms(2) by (simp add: ingest_scoped_def nva Let_def a_def)
  have ok: "distinct (map fst (cj_map (evict now' j)))" using jar_ok_evict(1) [OF assms(1)] by (simp add: jar_ok_def)
  have "((n, d, p), e) \<notin> set (cj_map (evict now' j))" using assms(4) jar_ok_evict(3) [OF assms(1)] by blast
  then have "(n, d, p) = (nm, ca_domain a, ca_path a) \<and> (\<exists>seq. e = ?f seq)"
    using assms(3) unfolding j' map_store set_im_insert [OF ok] by (auto split: option.splits)
  then show ?thesis using sc domain_matches_covers [of h d False] by auto
qed


theorem cookie_scope_witness:
  "\<exists>e. ((''a'', ''h.io'', ''/''), e) \<in> set (cj_map (ingest_scoped 5 5 ''a=1;Domain=h.io'' ''x.h.io'' '''' jar_new)) \<and>
    (if ce_host_only e then ''h.io'' = host_key ''x.h.io'' else domain_covers ''h.io'' ''x.h.io'')"
proof -
  let ?e = "\<lparr>ce_value = ''1'', ce_host_only = False, ce_expires = - 1, ce_secure = False, ce_seq = 0\<rparr>"
  have t: "trim_ws ''a=1'' = ''a=1''" "trim_ws ''1'' = ''1''" "trim_end_ws ''a'' = ''a''"
    "trim_ws ''Domain=h.io'' = ''Domain=h.io''" "trim_ws ''Domain'' = ''Domain''" "trim_ws ''h.io'' = ''h.io''"
    "trim_ws ''x.h.io'' = ''x.h.io''"
    by (simp_all add: trim_ws_id trim_end_ws_id ws_byte_def)
  have c: "cookie_pair ''a=1;Domain=h.io'' = Some (''a'', ''1'', ''Domain=h.io'')"
    by (simp add: cookie_pair_def Let_def t)
  have k: "host_key ''h.io'' = ''h.io''" "host_key ''x.h.io'' = ''x.h.io''"
    by (simp_all add: host_key_def t strip_prefix_def) (code_simp, code_simp)
  have a: "attr_of ''Domain=h.io'' = Some (''Domain'', ''h.io'')" by (simp add: attr_of_def t)
  have s: "split_on ((=) (CHR '';'')) ''Domain=h.io'' = [''Domain=h.io'']" by simp
  have q: "eq_ignore_case ''Domain'' ''secure'' = False" "eq_ignore_case ''Domain'' ''domain'' = True" by code_simp+
  have dm: "domain_matches ''x.h.io'' ''h.io'' False" by code_simp
  have m: "((''a'', ''h.io'', ''/''), ?e) \<in> set (cj_map (ingest_scoped 5 5 ''a=1;Domain=h.io'' ''x.h.io'' '''' jar_new))"
    by (simp add: ingest_scoped_def c s attr_step_def t a q k dm Let_def evict_def jar_new_def JAR_CAP_def
        store_def im_insert_def)
  have "(if ce_host_only ?e then ''h.io'' = host_key ''x.h.io'' else domain_covers ''h.io'' ''x.h.io'')"
    by (rule cookie_scope [OF jar_ok_new _ m]) (simp_all add: jar_new_def)
  with m show ?thesis by blast
qed

end
