(* ===== verification/Http_Date.thy ===== *)
theory Http_Date
  imports Cookies
begin

text \<open>
  The date parser of \<open>session.rs\<close> (\<^const>\<open>http_date_ms\<close>) against the date format of RFC 9110.
\<close>

section \<open>The format\<close>

definition MONTH_NAMES :: "string list" where
  "MONTH_NAMES = [''Jan'', ''Feb'', ''Mar'', ''Apr'', ''May'', ''Jun'',
     ''Jul'', ''Aug'', ''Sep'', ''Oct'', ''Nov'', ''Dec'']"

definition two_digits :: "nat \<Rightarrow> string" where
  "two_digits n = [chr (48 + n div 10), chr (48 + n mod 10)]"

definition time_text :: "nat \<Rightarrow> nat \<Rightarrow> nat \<Rightarrow> string" where
  "time_text h mi s = two_digits h @ '':'' @ two_digits mi @ '':'' @ two_digits s"

definition imf_date :: "string \<Rightarrow> nat \<Rightarrow> nat \<Rightarrow> nat \<Rightarrow> nat \<Rightarrow> nat \<Rightarrow> nat \<Rightarrow> string" where
  "imf_date wd y m d h mi s =
     wd @ '', '' @ two_digits d @ '' '' @ MONTH_NAMES ! (m - 1) @ '' '' @ dec y @ '' '' @
     time_text h mi s @ '' GMT''"

lemma two_digits_ords:
  "n < 100 \<Longrightarrow> map ord (two_digits n) = [48 + n div 10, 48 + n mod 10]"
  unfolding two_digits_def by (simp add: ord_chr del: of_char_of)

lemma two_digits_val: "n < 100 \<Longrightarrow> dec_val (two_digits n) = n"
  using two_digits_ords [of n] by (simp add: two_digits_def dec_val_def)

lemma two_digits_digits: "n < 100 \<Longrightarrow> c \<in> set (two_digits n) \<Longrightarrow> is_digit c"
  using two_digits_ords [of n] by (auto simp: two_digits_def is_digit_def)

lemma digit_not: "is_digit c \<Longrightarrow> c \<noteq> CHR ''+'' \<and> c \<noteq> CHR ''-'' \<and> c \<noteq> CHR '' '' \<and> c \<noteq> CHR '','' \<and> c \<noteq> CHR '':''"
  by (auto simp: is_digit_def)

lemma parse_digits:
  assumes "s \<noteq> []" and "\<forall>c \<in> set s. is_digit c"
  shows "parse_uint mx s = (if dec_val s \<le> mx then Some (dec_val s) else None)"
    and "parse_int lo hi s = (if lo \<le> int (dec_val s) \<and> int (dec_val s) \<le> hi then Some (int (dec_val s)) else None)"
proof -
  have "\<not> prefix ''+'' s" "\<not> prefix ''-'' s" using assms digit_not by (cases s; auto)+
  then show "parse_uint mx s = (if dec_val s \<le> mx then Some (dec_val s) else None)"
    "parse_int lo hi s = (if lo \<le> int (dec_val s) \<and> int (dec_val s) \<le> hi then Some (int (dec_val s)) else None)"
    using assms by (simp_all add: parse_uint_def parse_int_def list_all_iff Let_def)
qed

lemma http_time_text:
  assumes "h < 24" and "mi < 60" and "s < 60"
  shows "http_time (time_text h mi s) = Some (int h, int mi, int s)"
proof -
  have d: "\<forall>c \<in> set (two_digits n). \<not> CHR '':'' = c" if "n < 100" for n
    using two_digits_digits [OF that] digit_not by blast
  have p: "parse_i64 (two_digits n) = Some (int n)" if "n < 100" for n
    using parse_digits(2) [of "two_digits n"] two_digits_digits [OF that] two_digits_val [OF that] that
    by (auto simp: parse_i64_def two_digits_def)
  have "split_on ((=) (CHR '':'')) (time_text h mi s) = [two_digits h, two_digits mi, two_digits s]"
    using split_on_append [OF d [of h], of "CHR '':''" "two_digits mi @ '':'' @ two_digits s"]
      split_on_append [OF d [of mi], of "CHR '':''" "two_digits s"] split_on_whole [OF d [of s]] assms
    by (simp add: time_text_def)
  then show ?thesis using assms by (simp add: http_time_def next_part_def p)
qed

lemma month_names: "m < 12 \<Longrightarrow> month_index (MONTH_NAMES ! m) MONTHS = Some m \<and>
  MONTH_NAMES ! m \<noteq> [] \<and> (\<forall>c \<in> set (MONTH_NAMES ! m). c \<noteq> CHR '' '' \<and> c \<noteq> CHR '','')"
proof -
  have "list_all (\<lambda>m. month_index (MONTH_NAMES ! m) MONTHS = Some m \<and> MONTH_NAMES ! m \<noteq> [] \<and>
      list_all (\<lambda>c. c \<noteq> CHR '' '' \<and> c \<noteq> CHR '','') (MONTH_NAMES ! m)) [0..<12]"
    by code_simp
  then show "m < 12 \<Longrightarrow> ?thesis" by (simp add: list_all_iff)
qed

lemma days_from_1970:
  assumes "1970 \<le> y" and "1 \<le> m" and "m \<le> 12" and "1 \<le> d"
  shows "0 \<le> days_from_civil y m d"
proof -
  let ?y = "y - (if m \<le> 2 then 1 else 0)"
  obtain e c q r where m: "march_year c q r 0" "?y = 400 * e + 100 * c + 4 * q + r" by (rule year_decomp)
  have b: "0 \<le> c" "c \<le> 3" "0 \<le> q" "q \<le> 24" "0 \<le> r" "r \<le> 3" using m(1) by (auto simp: march_year_def)
  have d: "days_from_civil y m d =
      365 * ?y + 97 * e + 24 * c + q + (month_start ((m + 9) mod 12) + d - 1) - 719468"
    using days_of_march [OF m] m(2) by simp
  have "4 \<le> e" using m(2) assms(1) b by (simp split: if_splits)
  moreover have "3 \<le> c \<or> 5 \<le> e" using m(2) assms(1) b calculation by (auto split: if_splits)
  moreover have "17 \<le> q \<or> 5 \<le> e" using m(2) assms(1) b calculation by (auto split: if_splits)
  ultimately have l: "477 \<le> 97 * e + 24 * c + q" using b by auto
  show ?thesis
  proof (cases "m \<le> 2")
    case True
    then have "m = 1 \<or> m = 2" using assms(2) by auto
    then have "306 \<le> month_start ((m + 9) mod 12)" by (auto simp: month_start_def)
    then show ?thesis using d l assms True by simp
  next
    case False
    then have "0 \<le> month_start ((m + 9) mod 12)" by (simp add: month_start_def)
    then show ?thesis using d l assms False by simp
  qed
qed

definition date_sep :: "char \<Rightarrow> bool" where
  "date_sep c \<longleftrightarrow> c = CHR '' '' \<or> c = CHR '',''"

lemma date_sep_digits: "\<forall>c \<in> set s. is_digit c \<Longrightarrow> \<forall>c \<in> set s. \<not> date_sep c"
  using digit_not by (auto simp: date_sep_def)

lemma time_text_sep:
  assumes "h < 24" and "mi < 60" and "s < 60"
  shows "\<forall>c \<in> set (time_text h mi s). \<not> date_sep c"
proof -
  have t: "\<forall>c \<in> set (two_digits n). \<not> date_sep c" if "n < 100" for n
    by (rule date_sep_digits) (use two_digits_digits [OF that] in blast)
  have c: "\<not> date_sep (CHR '':'')" by (simp add: date_sep_def)
  show ?thesis
    unfolding time_text_def using t [of h] t [of mi] t [of s] c assms by (simp add: ball_Un)
qed

lemma date_split:
  assumes "\<forall>c \<in> set wd. \<not> date_sep c" and "\<forall>c \<in> set d. \<not> date_sep c" and "\<forall>c \<in> set mo. \<not> date_sep c"
    and "\<forall>c \<in> set y. \<not> date_sep c" and "\<forall>c \<in> set tm. \<not> date_sep c"
  shows "split_on date_sep (wd @ '', '' @ d @ '' '' @ mo @ '' '' @ y @ '' '' @ tm @ '' GMT'') =
    [wd, [], d, mo, y, tm, ''GMT'']"
proof -
  have c: "date_sep (CHR '' '')" "date_sep (CHR '','')" by (simp_all add: date_sep_def)
  have "split_on date_sep ''GMT'' = [''GMT'']" by (rule split_on_whole) (simp add: date_sep_def)
  note gmt = this
  have nil: "\<forall>c \<in> set []. \<not> date_sep c" by simp
  have e: "wd @ '', '' @ d @ '' '' @ mo @ '' '' @ y @ '' '' @ tm @ '' GMT'' =
      wd @ CHR '','' # ([] @ CHR '' '' # (d @ CHR '' '' # (mo @ CHR '' '' # (y @ CHR '' '' # (tm @ CHR '' '' # ''GMT'')))))"
    by simp
  show ?thesis unfolding e split_on_append [OF assms(1) c(2)] split_on_append [OF nil c(1)]
      split_on_append [OF assms(2) c(1)] split_on_append [OF assms(3) c(1)]
      split_on_append [OF assms(4) c(1)] split_on_append [OF assms(5) c(1)] gmt ..
qed

lemma http_date_parts:
  assumes "filter (\<lambda>p. p \<noteq> []) (split_on date_sep v) = [wd, d, mo, y, tm, z]"
    and "parse_u32 d = Some dn" and "1 \<le> dn" and "dn \<le> 31" and "month_index mo MONTHS = Some k"
    and "parse_i64 y = Some yn" and "1970 \<le> yn" and "yn \<le> 9999" and "http_time tm = Some (h, mi, s)"
    and "0 \<le> epoch_ms_from_civil yn (int k + 1) (int dn) h mi s 0"
  shows "http_date_ms v = Some (word_of_int (epoch_ms_from_civil yn (int k + 1) (int dn) h mi s 0))"
proof -
  have "filter (\<lambda>p. p \<noteq> []) (split_on (\<lambda>c. c = CHR '' '' \<or> c = CHR '','') v) = [wd, d, mo, y, tm, z]"
    using assms(1) by (simp add: date_sep_def [abs_def])
  then show ?thesis using assms(2-) unfolding http_date_ms_def Let_def next_part_def by simp
qed

text \<open> C29: every date in the fixed format of RFC 9110 from 1970 to 9999, with any weekday name, is
  read as its milliseconds since the epoch.\<close>

theorem http_date_roundtrip:
  assumes "wd \<noteq> []" and "\<forall>c \<in> set wd. c \<noteq> CHR '' '' \<and> c \<noteq> CHR '',''"
    and "1970 \<le> y" and "y \<le> 9999" and "1 \<le> m" and "m \<le> 12" and "1 \<le> d" and "d \<le> 31"
    and "h < 24" and "mi < 60" and "s < 60"
  shows "http_date_ms (imf_date wd y m d h mi s) =
      Some (word_of_int (epoch_ms_from_civil (int y) (int m) (int d) (int h) (int mi) (int s) 0)) \<and>
    0 \<le> epoch_ms_from_civil (int y) (int m) (int d) (int h) (int mi) (int s) 0"
proof -
  have ms: "0 \<le> epoch_ms_from_civil (int y) (int m) (int d) (int h) (int mi) (int s) 0"
    using days_from_1970 [of "int y" "int m" "int d"] assms
    by (simp add: epoch_ms_from_civil_def MS_DAY_def MS_HOUR_def MS_MIN_def MS_SEC_def)
  have m1: "int (m - 1) + 1 = int m" and m12: "m - 1 < 12" and d100: "d < 100" using assms by simp_all
  note mn = month_names [OF m12]
  have yr: "\<forall>c \<in> set (dec y). is_digit c" using dec_digits by (fastforce simp: is_digit_def)
  have dd: "\<forall>c \<in> set (two_digits d). is_digit c" using two_digits_digits [OF d100] by blast
  have wd: "\<forall>c \<in> set wd. \<not> date_sep c" and mo: "\<forall>c \<in> set (MONTH_NAMES ! (m - 1)). \<not> date_sep c"
    using assms(2) mn by (auto simp: date_sep_def)
  have ne: "two_digits d \<noteq> []" "time_text h mi s \<noteq> []" by (simp_all add: two_digits_def time_text_def)
  have f: "filter (\<lambda>p. p \<noteq> []) (split_on date_sep (imf_date wd y m d h mi s)) =
      [wd, two_digits d, MONTH_NAMES ! (m - 1), dec y, time_text h mi s, ''GMT'']"
    unfolding imf_date_def
      date_split [OF wd date_sep_digits [OF dd] mo date_sep_digits [OF yr] time_text_sep [OF assms(9-11)]]
    using assms(1) mn ne by simp
  have pd: "parse_u32 (two_digits d) = Some d"
    using parse_digits(1) [OF ne(1) dd] two_digits_val [OF d100] assms(8) by (simp add: parse_u32_def)
  have py: "parse_i64 (dec y) = Some (int y)"
    using parse_digits(2) [OF dec_not_Nil yr] assms(4) by (simp add: parse_i64_def)
  have yb: "1970 \<le> int y" "int y \<le> 9999" using assms(3,4) by simp_all
  show ?thesis
    using http_date_parts [OF f pd assms(7,8) conjunct1 [OF mn] py yb http_time_text [OF assms(9-11)]] ms
    unfolding m1 by blast
qed

theorem http_date_roundtrip_witness:
  "http_date_ms (imf_date ''Sun'' 1994 11 6 8 49 37) =
      Some (word_of_int (epoch_ms_from_civil (int 1994) (int 11) (int 6) (int 8) (int 49) (int 37) 0)) \<and>
    0 \<le> epoch_ms_from_civil (int 1994) (int 11) (int 6) (int 8) (int 49) (int 37) 0"
  by (rule http_date_roundtrip) simp_all

end
