(* ===== verification/Ip_Addr.thy ===== *)
theory Ip_Addr
  imports Std_Text Url "HOL-Library.Monad_Syntax"
begin

text \<open>
  Addresses of \<open>core::net\<close>, as the proxy parser and the URL guard use them: \<open>IpAddr::from_str\<close>
  (IPv4 dotted decimal, IPv6 groups with one compression and an embedded IPv4 tail), \<open>Display\<close>, and
  the classification of reserved addresses.
\<close>

datatype ip_addr = V4 u32 | V6 u128

section \<open>Parsing\<close>

text \<open>A number is a maximal run of digits; the \<open>nat\<close> is its value, the string what follows.\<close>

definition radix_digit :: "nat \<Rightarrow> char \<Rightarrow> bool" where
  "radix_digit r c = (is_hexdigit c \<and> hex_val c < r)"

definition radix_val :: "nat \<Rightarrow> string \<Rightarrow> nat" where
  "radix_val r s = foldl (\<lambda>v c. r * v + hex_val c) 0 s"

definition read_number :: "nat \<Rightarrow> nat \<Rightarrow> bool \<Rightarrow> nat \<Rightarrow> string \<Rightarrow> (nat \<times> string) option" where
  "read_number r max_digits zero_prefix limit s =
     (let d = takeWhile (radix_digit r) s
      in if d = [] \<or> max_digits < length d \<or> limit < radix_val r d \<or>
            \<not> zero_prefix \<and> hd d = CHR ''0'' \<and> 1 < length d
         then None else Some (radix_val r d, dropWhile (radix_digit r) s))"

definition read_separator :: "char \<Rightarrow> nat \<Rightarrow> (string \<Rightarrow> ('a \<times> string) option) \<Rightarrow> string \<Rightarrow> ('a \<times> string) option" where
  "read_separator c i f s =
     (if i = 0 then f s else (case s of [] \<Rightarrow> None | x # t \<Rightarrow> if x = c then f t else None))"

definition read_octet :: "nat \<Rightarrow> string \<Rightarrow> (nat \<times> string) option" where
  "read_octet i = read_separator (CHR ''.'') i (read_number 10 3 False 255)"

definition read_ipv4 :: "string \<Rightarrow> (u32 \<times> string) option" where
  "read_ipv4 s = do {
     (a, s) \<leftarrow> read_octet 0 s;
     (b, s) \<leftarrow> read_octet 1 s;
     (c, s) \<leftarrow> read_octet 2 s;
     (d, s) \<leftarrow> read_octet 3 s;
     Some (of_nat (((a * 256 + b) * 256 + c) * 256 + d), s)
   }"

text \<open>
  Up to \<open>limit\<close> groups from group \<open>i\<close> on: the groups, whether they end in an embedded IPv4 address,
  and the rest.
\<close>

function read_groups :: "nat \<Rightarrow> nat \<Rightarrow> string \<Rightarrow> nat list \<times> bool \<times> string" where
  "read_groups limit i s =
     (if limit \<le> i then ([], False, s)
      else case (if i < limit - 1 then read_separator (CHR '':'') i read_ipv4 s else None) of
        Some (v4, r) \<Rightarrow> ([unat v4 div 65536, unat v4 mod 65536], True, r)
      | None \<Rightarrow>
          (case read_separator (CHR '':'') i (read_number 16 4 True 65535) s of
             None \<Rightarrow> ([], False, s)
           | Some (g, r) \<Rightarrow> let (gs, v4, r) = read_groups limit (Suc i) r in (g # gs, v4, r)))"
  by pat_completeness auto
termination by (relation "measure (\<lambda>(limit, i, _). limit - i)") auto

declare read_groups.simps [simp del]

definition groups_val :: "nat list \<Rightarrow> u128" where
  "groups_val gs = of_nat (foldl (\<lambda>v g. v * 65536 + g) 0 gs)"

definition read_ipv6 :: "string \<Rightarrow> (u128 \<times> string) option" where
  "read_ipv6 s =
     (let (head, v4, r) = read_groups 8 0 s
      in if length head = 8 then Some (groups_val head, r)
         else if v4 then None
         else case strip_prefix ''::'' r of
           None \<Rightarrow> None
         | Some r \<Rightarrow>
             let (tail, _, r) = read_groups (8 - (length head + 1)) 0 r
             in Some (groups_val (head @ replicate (8 - length head - length tail) 0 @ tail), r))"

definition parse_ip :: "string \<Rightarrow> ip_addr option" where
  "parse_ip s =
     (case (case read_ipv4 s of
              Some (a, r) \<Rightarrow> Some (V4 a, r)
            | None \<Rightarrow> map_option (\<lambda>(a, r). (V6 a, r)) (read_ipv6 s)) of
        Some (ip, []) \<Rightarrow> Some ip
      | _ \<Rightarrow> None)"

section \<open>Octets and segments\<close>

definition octets :: "u32 \<Rightarrow> nat list" where
  "octets a = map (\<lambda>i. unat a div 256 ^ (3 - i) mod 256) [0, 1, 2, 3]"

definition segments :: "u128 \<Rightarrow> nat list" where
  "segments a = map (\<lambda>i. unat a div 65536 ^ (7 - i) mod 65536) [0, 1, 2, 3, 4, 5, 6, 7]"

section \<open>Printing\<close>

definition join_with :: "string \<Rightarrow> string list \<Rightarrow> string" where
  "join_with sep xs = (case xs of [] \<Rightarrow> [] | x # xs \<Rightarrow> x @ concat (map (\<lambda>y. sep @ y) xs))"

definition ipv4_text :: "u32 \<Rightarrow> string" where
  "ipv4_text a = join_with ''.'' (map dec (octets a))"

fun hex_text :: "nat \<Rightarrow> string" where
  "hex_text n = (if n < 16 then [HEX_LOWER ! n] else hex_text (n div 16) @ [HEX_LOWER ! (n mod 16)])"

declare hex_text.simps [simp del]

text \<open>The longest run of zero segments, the first of several: start and length.\<close>

fun zero_run :: "nat list \<Rightarrow> nat \<Rightarrow> nat \<times> nat \<Rightarrow> nat \<times> nat \<Rightarrow> nat \<times> nat" where
  "zero_run [] i current longest = longest"
| "zero_run (s # ss) i current longest =
     (if s = 0 then
        let current = (if snd current = 0 then i else fst current, snd current + 1)
        in zero_run ss (i + 1) current (if snd longest < snd current then current else longest)
      else zero_run ss (i + 1) (0, 0) longest)"

definition ipv6_text :: "u128 \<Rightarrow> string" where
  "ipv6_text a =
     (let ss = segments a
      in if take 6 ss = [0, 0, 0, 0, 0, 65535] then ''::ffff:'' @ ipv4_text (ucast a)
         else let (start, len) = zero_run ss 0 (0, 0) (0, 0); hex = join_with '':'' \<circ> map hex_text
              in if 1 < len then hex (take start ss) @ ''::'' @ hex (drop (start + len) ss) else hex ss)"

definition ip_text :: "ip_addr \<Rightarrow> string" where
  "ip_text ip = (case ip of V4 a \<Rightarrow> ipv4_text a | V6 a \<Rightarrow> ipv6_text a)"

section \<open>Reserved addresses\<close>

definition v4_reserved :: "u32 \<Rightarrow> bool" where
  "v4_reserved a =
     (case octets a of
        [o0, o1, o2, o3] \<Rightarrow>
          o0 = 127 \<or>
          o0 = 10 \<or> o0 = 172 \<and> 16 \<le> o1 \<and> o1 \<le> 31 \<or> o0 = 192 \<and> o1 = 168 \<or>
          o0 = 169 \<and> o1 = 254 \<or>
          a = 0xFFFFFFFF \<or>
          o0 = 192 \<and> o1 = 0 \<and> o2 = 2 \<or> o0 = 198 \<and> o1 = 51 \<and> o2 = 100 \<or> o0 = 203 \<and> o1 = 0 \<and> o2 = 113 \<or>
          a = 0
      | _ \<Rightarrow> False)"

definition v6_reserved :: "u128 \<Rightarrow> bool" where
  "v6_reserved a =
     (let s0 = hd (segments a)
      in a = 1 \<or> a = 0 \<or> 0xFC00 \<le> s0 \<and> s0 < 0xFE00 \<or> 0xFE80 \<le> s0 \<and> s0 < 0xFEC0)"

definition v6_embedded :: "u128 \<Rightarrow> u32 option" where
  "v6_embedded a =
     (if take 6 (segments a) \<in> {[0, 0, 0, 0, 0, 65535], [0, 0, 0, 0, 0, 0]} then Some (ucast a) else None)"

section \<open>Round trip of dotted decimal\<close>

lemma radix_digit_10: "radix_digit 10 c = is_digit c"
  by (auto simp: radix_digit_def is_hexdigit_def is_digit_def hex_val_def)

lemma radix_val_10: "\<forall>c \<in> set s. is_digit c \<Longrightarrow> radix_val 10 s = dec_val s"
  by (induction s rule: rev_induct) (auto simp: radix_val_def dec_val_def hex_val_def)

lemma dec_is_digit: "c \<in> set (dec n) \<Longrightarrow> is_digit c"
  using dec_digits [of c n] by (simp add: is_digit_def)

lemma read_number_dec:
  assumes "n < 256" "r = [] \<or> \<not> is_digit (hd r)"
  shows "read_number 10 3 False 255 (dec n @ r) = Some (n, r)"
proof -
  have d: "radix_digit 10 = is_digit" by (rule ext) (rule radix_digit_10)
  have t: "takeWhile is_digit (dec n @ r) = dec n" "dropWhile is_digit (dec n @ r) = r"
    using assms(2) dec_is_digit [of _ n] by (auto simp: takeWhile_append dropWhile_append takeWhile_eq_all_conv dropWhile_eq_Nil_conv) (cases r; auto)+
  have l: "length (dec n) \<le> 3" using dec_length [of 3 n] assms(1) by simp
  have v: "radix_val 10 (dec n) = n" using radix_val_10 [of "dec n"] dec_is_digit by simp
  have z: "length (dec n) \<le> 1" if "hd (dec n) = CHR ''0''"
    using that dec_no_leading_zero [of n] dec_length [of 1 n] by simp
  show ?thesis using l v z assms(1) by (auto simp: read_number_def d t Let_def)
qed

lemma octets_less: "o' \<in> set (octets a) \<Longrightarrow> o' < 256"
  by (auto simp: octets_def)

lemma base256: "(n div (256 * k)) * 256 + n div k mod 256 = (n :: nat) div k"
  by (simp add: div_mult2_eq mult.commute)

lemma octets_val:
  assumes "octets a = [p, q, r, s]"
  shows "((p * 256 + q) * 256 + r) * 256 + s = unat a"
proof -
  have "unat a < 2 ^ 32" using unsigned_less [of a] by simp
  then have o: "p = unat a div 16777216" "q = unat a div 65536 mod 256" "r = unat a div 256 mod 256" "s = unat a mod 256"
    using assms by (simp_all add: octets_def div_less_iff_less_mult)
  show ?thesis
    using base256 [of "unat a" 65536] base256 [of "unat a" 256] base256 [of "unat a" 1] by (simp add: o)
qed

lemma read_octet_dec:
  "n < 256 \<Longrightarrow> r = [] \<or> \<not> is_digit (hd r) \<Longrightarrow> read_octet 0 (dec n @ r) = Some (n, r)"
  "n < 256 \<Longrightarrow> r = [] \<or> \<not> is_digit (hd r) \<Longrightarrow> 0 < i \<Longrightarrow> read_octet i (CHR ''.'' # dec n @ r) = Some (n, r)"
  by (simp_all add: read_octet_def read_separator_def read_number_dec)

lemma read_ipv4_text: "parse_ip (ipv4_text a) = Some (V4 a)"
proof -
  obtain p q r s where o: "octets a = [p, q, r, s]" by (simp add: octets_def)
  have b: "p < 256" "q < 256" "r < 256" "s < 256" using octets_less [of _ a] by (auto simp: o)
  have e: "ipv4_text a = dec p @ ''.'' @ dec q @ ''.'' @ dec r @ ''.'' @ dec s @ []"
    by (simp add: ipv4_text_def o join_with_def)
  have "\<not> is_digit (CHR ''.'')" by (simp add: is_digit_def)
  then have "read_ipv4 (ipv4_text a) = Some (a, [])"
    unfolding e read_ipv4_def
    using b by (simp only: append_Cons append_Nil list.sel read_octet_dec simp_thms
        prod.case Option.bind.simps zero_less_numeral zero_less_one octets_val [OF o]) simp
  then show ?thesis by (simp add: parse_ip_def)
qed


end
