(* ===== verification/Robots.thy ===== *)
theory Robots
  imports Std_Text Encoding
begin

text \<open>
  The robots.txt rules of \<open>crates/net-client/src/robots.rs\<close> and the host block list of
  \<open>blocklist.rs\<close>: parsing the groups of a robots file, matching paths against patterns with
  \<open>*\<close> and \<open>$\<close>, the verdict for a path, and the walk over the parent domains of a host. The
  shared cache is a partial map; its \<open>insert\<close> keeps a value that is already there.
\<close>

section \<open>Rules\<close>

record robots_rules =
  rr_disallowed :: "string list"
  rr_allowed :: "string list"

definition no_rules :: robots_rules where
  "no_rules = \<lparr>rr_disallowed = [], rr_allowed = []\<rparr>"

type_synonym robots_cache = "string \<rightharpoonup> robots_rules"

definition cache_insert :: "string \<Rightarrow> robots_rules \<Rightarrow> robots_cache \<Rightarrow> robots_cache" where
  "cache_insert domain rules c = (case c domain of Some _ \<Rightarrow> c | None \<Rightarrow> c(domain \<mapsto> rules))"

definition is_cached :: "robots_cache \<Rightarrow> string \<Rightarrow> bool" where
  "is_cached c domain = (c domain \<noteq> None)"

definition store_empty :: "string \<Rightarrow> robots_cache \<Rightarrow> robots_cache" where
  "store_empty domain c = cache_insert domain no_rules c"

section \<open>Patterns\<close>

text \<open>The loop over the middle segments: what is left of the path after them.\<close>

fun find_segs :: "string list \<Rightarrow> string \<Rightarrow> string option" where
  "find_segs [] rest = Some rest"
| "find_segs (seg # segs) rest =
     (case str_find rest seg of
        Some i \<Rightarrow> find_segs segs (drop (i + length seg) rest)
      | None \<Rightarrow> None)"

definition robots_path_matches :: "string \<Rightarrow> string \<Rightarrow> bool" where
  "robots_path_matches path pattern =
     (if pattern = [] then True
      else let (pat, anchored) = (case strip_suffix ''$'' pattern of Some p \<Rightarrow> (p, True) | None \<Rightarrow> (pattern, False));
               segs = split_on ((=) (CHR ''*'')) pat
           in case strip_prefix (hd segs) path of
                None \<Rightarrow> False
              | Some rest \<Rightarrow>
                  let mids = tl segs in
                  if anchored then
                    (if mids = [] then rest = []
                     else case find_segs (butlast mids) rest of
                            None \<Rightarrow> False
                          | Some rest \<Rightarrow> suffix (last mids) rest)
                  else find_segs mids rest \<noteq> None)"

fun best_pattern :: "string \<Rightarrow> bool \<Rightarrow> string list \<Rightarrow> (nat \<times> bool) option \<Rightarrow> (nat \<times> bool) option" where
  "best_pattern path allow [] best = best"
| "best_pattern path allow (p # ps) best =
     best_pattern path allow ps
       (if robots_path_matches path p \<and> (case best of None \<Rightarrow> True | Some (len, _) \<Rightarrow> len < length p)
        then Some (length p, allow) else best)"

definition is_allowed :: "robots_cache \<Rightarrow> string \<Rightarrow> string \<Rightarrow> bool" where
  "is_allowed c domain path =
     (case c domain of
        None \<Rightarrow> True
      | Some rules \<Rightarrow>
          (case best_pattern path False (rr_disallowed rules) (best_pattern path True (rr_allowed rules) None) of
             None \<Rightarrow> True | Some (_, allow) \<Rightarrow> allow))"

section \<open>Parsing\<close>

text \<open>\<open>str::lines\<close>: a line feed ends a line and takes a carriage return before it along.\<close>

definition strip_cr :: "string \<Rightarrow> string" where
  "strip_cr l = (if l \<noteq> [] \<and> last l = chr 13 then butlast l else l)"

definition str_lines :: "string \<Rightarrow> string list" where
  "str_lines body =
     (let ls = split_on ((=) (chr 10)) body
      in map strip_cr (butlast ls) @ (if last ls = [] then [] else [last ls]))"

record section_parse =
  sp_rules :: robots_rules
  sp_specific :: bool
  sp_group_matches :: bool
  sp_last_was_ua :: bool

definition token_match :: "string \<Rightarrow> string \<Rightarrow> bool" where
  "token_match a agent =
     (length a = length agent \<and> eq_ignore_case a agent \<or>
      length a < length agent \<and> eq_ignore_case (take (length a) agent) a \<and> agent ! length a = CHR ''/'')"

definition agent_line :: "string \<Rightarrow> bool \<Rightarrow> string \<Rightarrow> section_parse \<Rightarrow> section_parse" where
  "agent_line our_agent specific_only v s =
     (let s = (if sp_last_was_ua s then s else s\<lparr>sp_group_matches := False\<rparr>);
          s = (if v = ''*'' then (if specific_only then s else s\<lparr>sp_group_matches := True\<rparr>)
               else if token_match v our_agent then s\<lparr>sp_group_matches := True, sp_specific := True\<rparr>
               else s)
      in s\<lparr>sp_last_was_ua := True\<rparr>)"

definition rule_line :: "string \<Rightarrow> string \<Rightarrow> section_parse \<Rightarrow> section_parse" where
  "rule_line key v s =
     (let r = sp_rules s;
          s = (if sp_group_matches s \<and> v \<noteq> [] then
                 (if eq_ci key ''disallow'' then s\<lparr>sp_rules := r\<lparr>rr_disallowed := rr_disallowed r @ [v]\<rparr>\<rparr>
                  else if eq_ci key ''allow'' then s\<lparr>sp_rules := r\<lparr>rr_allowed := rr_allowed r @ [v]\<rparr>\<rparr>
                  else s)
               else s)
      in s\<lparr>sp_last_was_ua := False\<rparr>)"

definition section_line :: "string \<Rightarrow> bool \<Rightarrow> section_parse \<Rightarrow> string \<Rightarrow> section_parse" where
  "section_line our_agent specific_only s line =
     (let line = trim_ws line in
      if line = [] \<or> prefix ''#'' line then s
      else case split_once (CHR '':'') line of
        None \<Rightarrow> s
      | Some (key, v) \<Rightarrow>
          let key = trim_ws key; v = trim_ws v in
          if eq_ci key ''user-agent'' then agent_line our_agent specific_only v s
          else rule_line key v s)"

definition parse_section :: "string \<Rightarrow> string \<Rightarrow> bool \<Rightarrow> section_parse" where
  "parse_section body our_agent specific_only =
     foldl (section_line our_agent specific_only)
       \<lparr>sp_rules = no_rules, sp_specific = False, sp_group_matches = False, sp_last_was_ua = False\<rparr>
       (str_lines body)"

definition parse_robots_txt :: "string \<Rightarrow> string \<Rightarrow> robots_rules" where
  "parse_robots_txt body our_agent =
     (let agent_lower = map to_lower our_agent; rules = parse_section body agent_lower True
      in if sp_specific rules then sp_rules rules else sp_rules (parse_section body agent_lower False))"

definition parse_and_store :: "string \<Rightarrow> string \<Rightarrow> string \<Rightarrow> robots_cache \<Rightarrow> robots_cache" where
  "parse_and_store domain body our_agent c = cache_insert domain (parse_robots_txt body our_agent) c"

section \<open>Blocked hosts\<close>

definition blocklist_of :: "string \<Rightarrow> string set" where
  "blocklist_of pgl =
     set (filter (\<lambda>line. line \<noteq> [] \<and> hd line \<noteq> CHR ''#'' \<and> list_all (\<lambda>c. ord c < 128) line)
       (map (trim_by is_ascii_space) (split_on ((=) (chr 10)) pgl)))"

function parent_blocked :: "string set \<Rightarrow> string \<Rightarrow> bool" where
  "parent_blocked bl domain =
     (case byte_find ((=) (CHR ''.'')) domain of
        None \<Rightarrow> False
      | Some pos \<Rightarrow> let d = drop (pos + 1) domain in d \<in> bl \<or> parent_blocked bl d)"
  by pat_completeness auto
termination by (relation "measure (\<lambda>(_, d). length d)") (auto simp: byte_find_Some_iff)

declare parent_blocked.simps [simp del]

definition is_blocked_host :: "string set \<Rightarrow> string \<Rightarrow> bool" where
  "is_blocked_host bl host = (host \<in> bl \<or> parent_blocked bl host)"

definition host_blocked :: "string set \<Rightarrow> string \<Rightarrow> bool" where
  "host_blocked bl norm_host = (norm_host \<noteq> [] \<and> is_blocked_host bl norm_host)"

section \<open>The verdict\<close>

text \<open>Matching a path character by character, \<open>*\<close> standing for any text.\<close>

fun glob :: "bool \<Rightarrow> string \<Rightarrow> string \<Rightarrow> bool" where
  "glob anchored [] s \<longleftrightarrow> (anchored \<longrightarrow> s = [])"
| "glob anchored (c # p) s \<longleftrightarrow>
     (if c = CHR ''*'' then \<exists>k \<le> length s. glob anchored p (drop k s)
      else \<exists>t. s = c # t \<and> glob anchored p t)"

definition pattern_matches :: "string \<Rightarrow> string \<Rightarrow> bool" where
  "pattern_matches path pattern \<longleftrightarrow>
     (if suffix ''$'' pattern then glob True (butlast pattern) path else glob False pattern path)"

text \<open>The segments after a star: each is found somewhere after the one before.\<close>

fun segs_match :: "bool \<Rightarrow> string list \<Rightarrow> string \<Rightarrow> bool" where
  "segs_match anchored [] s \<longleftrightarrow> (anchored \<longrightarrow> s = [])"
| "segs_match anchored (seg # segs) s \<longleftrightarrow> (\<exists>x r. s = x @ seg @ r \<and> segs_match anchored segs r)"

lemma glob_lit:
  "CHR ''*'' \<notin> set a \<Longrightarrow> glob anchored (a @ p) s \<longleftrightarrow> (\<exists>t. s = a @ t \<and> glob anchored p t)"
  by (induction a arbitrary: s) auto

lemma glob_star:
  "(\<exists>k \<le> length u. glob anchored b (drop k u)) \<longleftrightarrow> (\<exists>x v. u = x @ v \<and> glob anchored b v)"
proof
  assume "\<exists>k \<le> length u. glob anchored b (drop k u)"
  then obtain k where "glob anchored b (drop k u)" by blast
  then show "\<exists>x v. u = x @ v \<and> glob anchored b v" by (intro exI [of _ "take k u"] exI [of _ "drop k u"]) simp
next
  assume "\<exists>x v. u = x @ v \<and> glob anchored b v"
  then obtain x v where "u = x @ v" "glob anchored b v" by blast
  then show "\<exists>k \<le> length u. glob anchored b (drop k u)" by (intro exI [of _ "length x"]) simp
qed

abbreviation pat_segs :: "string \<Rightarrow> string list" where
  "pat_segs \<equiv> split_on ((=) (CHR ''*''))"

lemma glob_segs:
  "glob anchored p s \<longleftrightarrow> (\<exists>t. s = hd (pat_segs p) @ t \<and> segs_match anchored (tl (pat_segs p)) t)"
proof (induction "length p" arbitrary: p s rule: less_induct)
  case less
  show ?case
  proof (cases "CHR ''*'' \<in> set p")
    case False
    then have "pat_segs p = [p]" by (intro split_on_whole) auto
    then show ?thesis using glob_lit [OF False, of anchored "[]" s] by simp
  next
    case True
    then obtain a b where p: "p = a @ CHR ''*'' # b" and a: "CHR ''*'' \<notin> set a"
      by (blast dest: split_list_first)
    have sp: "pat_segs p = a # pat_segs b"
      using a unfolding p by (intro split_on_append) auto
    obtain h t where hb: "pat_segs b = h # t"
      using split_on_nonempty by (cases "pat_segs b") blast+
    have "length b < length p" by (simp add: p)
    note IH = less.hyps [OF this]
    have "glob anchored p s \<longleftrightarrow> (\<exists>u. s = a @ u \<and> (\<exists>x v. u = x @ v \<and> glob anchored b v))"
      unfolding p glob_lit [OF a] by (simp add: glob_star)
    also have "\<dots> \<longleftrightarrow> (\<exists>u. s = a @ u \<and> segs_match anchored (h # t) u)"
      unfolding IH hb by auto
    finally show ?thesis by (simp add: sp hb)
  qed
qed

lemma segs_match_prefix:
  assumes "segs_match anchored segs r" "segs \<noteq> []"
  shows "segs_match anchored segs (y @ r)"
proof (cases segs)
  case (Cons seg l)
  then obtain x t where "r = x @ seg @ t" "segs_match anchored l t" using assms(1) by auto
  then have "y @ r = (y @ x) @ seg @ t \<and> segs_match anchored l t" by simp
  then show ?thesis unfolding Cons segs_match.simps by blast
qed (use assms(2) in simp)

lemma segs_match_free: "segs_match False segs r \<Longrightarrow> segs_match False segs (y @ r)"
  using segs_match_prefix [of False segs r y] by (cases "segs = []") auto

lemma occurs_at_split: "s = x @ seg @ r \<Longrightarrow> occurs_at s seg (length x)"
  by (simp add: occurs_at_def)

lemma str_find_split:
  assumes "s = x @ seg @ r"
  obtains i y where "str_find s seg = Some i" "drop (i + length seg) s = y @ r"
proof -
  obtain i where i: "str_find s seg = Some i"
    using str_find_NoneD [of s seg "length x"] occurs_at_split [OF assms] by (cases "str_find s seg") auto
  have "i \<le> length x"
    using str_find_SomeD [OF i] occurs_at_split [OF assms] by (meson not_le)
  then have "drop (i + length seg) s = (drop (i + length seg) (x @ seg)) @ r"
    by (simp add: assms flip: append_assoc)
  then show ?thesis by (rule that [OF i])
qed

lemma find_segs_sound:
  "find_segs segs s = Some r \<Longrightarrow> segs_match anchored segs' r \<Longrightarrow> segs_match anchored (segs @ segs') s"
proof (induction segs s rule: find_segs.induct)
  case (2 seg segs s)
  then obtain i where i: "str_find s seg = Some i" by (auto split: option.splits)
  have "s = take i s @ seg @ drop (i + length seg) s"
    using str_find_SomeD [OF i] by (metis occurs_at_def append_take_drop_id drop_drop add.commute)
  moreover have "segs_match anchored (segs @ segs') (drop (i + length seg) s)"
    using 2 i by simp
  ultimately show ?case unfolding append_Cons segs_match.simps by blast
qed simp

lemma find_segs_complete:
  assumes "segs_match anchored (segs @ segs') s" "segs' = [] \<longrightarrow> \<not> anchored"
  shows "\<exists>r. find_segs segs s = Some r \<and> segs_match anchored segs' r"
  using assms(1)
proof (induction segs arbitrary: s)
  case (Cons seg segs)
  then obtain x r where s: "s = x @ seg @ r" and r: "segs_match anchored (segs @ segs') r" by auto
  obtain i y where i: "str_find s seg = Some i" "drop (i + length seg) s = y @ r"
    using str_find_split [OF s] by blast
  have "segs_match anchored (segs @ segs') (y @ r)"
  proof (cases anchored)
    case True
    then show ?thesis using segs_match_prefix [OF r] assms(2) by auto
  next
    case False
    then show ?thesis using segs_match_free r by auto
  qed
  from Cons.IH [OF this] show ?case using i by simp
qed simp

lemma find_segs_iff:
  "segs' = [] \<longrightarrow> \<not> anchored \<Longrightarrow>
   segs_match anchored (segs @ segs') s \<longleftrightarrow> (\<exists>r. find_segs segs s = Some r \<and> segs_match anchored segs' r)"
  using find_segs_sound find_segs_complete by blast


lemma find_segs_free: "segs_match False segs s \<longleftrightarrow> find_segs segs s \<noteq> None"
  using find_segs_iff [of "[]" False segs s] by auto

lemma find_segs_anchored:
  assumes "mids \<noteq> []"
  shows "segs_match True mids s \<longleftrightarrow>
    (case find_segs (butlast mids) s of None \<Rightarrow> False | Some r \<Rightarrow> suffix (last mids) r)"
proof -
  have "segs_match True (butlast mids @ [last mids]) s \<longleftrightarrow>
      (\<exists>r. find_segs (butlast mids) s = Some r \<and> segs_match True [last mids] r)"
    by (rule find_segs_iff) simp
  then show ?thesis using assms by (auto simp: suffix_def split: option.splits)
qed

lemma robots_path_matches_iff:
  "robots_path_matches path pattern \<longleftrightarrow> pattern = [] \<or> pattern_matches path pattern"
proof (cases "pattern = []")
  case False
  define anchored where "anchored = suffix ''$'' pattern"
  define pat where "pat = (if anchored then butlast pattern else pattern)"
  have sx: "strip_suffix ''$'' pattern = (if anchored then Some pat else None)"
    by (auto simp: strip_suffix_def anchored_def pat_def suffix_def butlast_append)
  have "robots_path_matches path pattern \<longleftrightarrow>
      (\<exists>t. path = hd (pat_segs pat) @ t \<and> segs_match anchored (tl (pat_segs pat)) t)"
  proof (cases anchored)
    case True
    show ?thesis
      using False True find_segs_anchored [of "tl (pat_segs pat)"]
      by (auto simp: robots_path_matches_def sx strip_prefix_def prefix_def Let_def split: option.splits)
  next
    case False': False
    show ?thesis
      using False False' find_segs_free [of "tl (pat_segs pat)"]
      by (auto simp: robots_path_matches_def sx strip_prefix_def prefix_def pat_def Let_def split: option.splits)
  qed
  also have "\<dots> \<longleftrightarrow> glob anchored pat path" by (simp add: glob_segs)
  finally show ?thesis using False by (simp add: pattern_matches_def anchored_def pat_def)
qed (simp add: robots_path_matches_def)


definition longer :: "nat \<Rightarrow> (nat \<times> bool) option \<Rightarrow> bool" where
  "longer n best \<longleftrightarrow> (case best of None \<Rightarrow> True | Some (len, _) \<Rightarrow> len < n)"

definition matching :: "string \<Rightarrow> string list \<Rightarrow> string set" where
  "matching path ps = {p \<in> set ps. p = [] \<or> pattern_matches path p}"

lemma matching_simps [simp]:
  "matching path [] = {}"
  "matching path (p # ps) = (if robots_path_matches path p then insert p (matching path ps) else matching path ps)"
  by (auto simp: matching_def robots_path_matches_iff)

lemma best_pattern_unfold:
  "best_pattern path allow (p # ps) best =
   best_pattern path allow ps (if robots_path_matches path p \<and> longer (length p) best then Some (length p, allow) else best)"
  by (simp add: longer_def)

lemma best_pattern_keeps:
  "\<forall>p \<in> matching path ps. \<not> longer (length p) best \<Longrightarrow> best_pattern path allow ps best = best"
  by (induction ps) (auto simp: best_pattern_unfold simp del: best_pattern.simps(2) split: if_splits)

lemma best_pattern_improves:
  assumes "p \<in> matching path ps" "longer (length p) best"
  shows "\<exists>q \<in> matching path ps. best_pattern path allow ps best = Some (length q, allow) \<and>
    longer (length q) best \<and> (\<forall>r \<in> matching path ps. length r \<le> length q)"
  using assms
proof (induction ps arbitrary: best p)
  case (Cons x ps)
  show ?case
  proof (cases "robots_path_matches path x \<and> longer (length x) best")
    case True
    define b where "b = Some (length x, allow)"
    show ?thesis
    proof (cases "\<exists>r \<in> matching path ps. longer (length r) b")
      case True': True
      then obtain q where "q \<in> matching path ps" "best_pattern path allow ps b = Some (length q, allow)"
        "longer (length q) b" "\<forall>r \<in> matching path ps. length r \<le> length q" using Cons.IH by blast
      then show ?thesis using True by (intro bexI [of _ q]) (auto simp: b_def longer_def split: option.splits)
    next
      case False
      then have "best_pattern path allow ps b = b" by (intro best_pattern_keeps) blast
      then show ?thesis using True False by (intro bexI [of _ x]) (auto simp: b_def longer_def split: option.splits)
    qed
  next
    case False
    then have "p \<in> matching path ps" using Cons.prems by (auto split: if_splits)
    then obtain q where "q \<in> matching path ps" "best_pattern path allow ps best = Some (length q, allow)"
      "longer (length q) best" "\<forall>r \<in> matching path ps. length r \<le> length q"
      using Cons.IH Cons.prems by blast
    then show ?thesis using False
      by (intro bexI [of _ q]) (auto simp: longer_def split: option.splits if_splits)
  qed
qed simp

lemma robots_verdict_lemma:
  "is_allowed c domain path \<longleftrightarrow>
   (\<forall>rules. c domain = Some rules \<longrightarrow>
     (\<forall>d \<in> matching path (rr_disallowed rules). \<exists>a \<in> matching path (rr_allowed rules). length d \<le> length a))"
proof (cases "c domain")
  case (Some rules)
  define D where "D = matching path (rr_disallowed rules)"
  define A where "A = matching path (rr_allowed rules)"
  define b where "b = best_pattern path True (rr_allowed rules) None"
  have A: "if A = {} then b = None else \<exists>q \<in> A. b = Some (length q, True) \<and> (\<forall>r \<in> A. length r \<le> length q)"
  proof (cases "A = {}")
    case True
    then show ?thesis using best_pattern_keeps [of path "rr_allowed rules" None True] by (simp add: A_def b_def)
  next
    case False
    then obtain p where "p \<in> matching path (rr_allowed rules)" by (auto simp: A_def)
    from best_pattern_improves [OF this, of None True] show ?thesis using False
      by (auto simp: A_def b_def longer_def)
  qed
  have keep: "best_pattern path False (rr_disallowed rules) b = b" if "\<forall>d \<in> D. \<not> longer (length d) b"
    using that best_pattern_keeps by (simp add: D_def)
  have imp: "\<exists>n. best_pattern path False (rr_disallowed rules) b = Some (n, False)" if "d \<in> D" "longer (length d) b" for d
    using that best_pattern_improves [of d path "rr_disallowed rules" b False] by (auto simp: D_def)
  have "is_allowed c domain path \<longleftrightarrow> (\<forall>d \<in> D. \<not> longer (length d) b)"
  proof (cases "\<forall>d \<in> D. \<not> longer (length d) b")
    case True
    have "b = None \<or> (\<exists>n. b = Some (n, True))" using A by (cases "A = {}") auto
    then show ?thesis using True keep [OF True] Some by (auto simp: is_allowed_def b_def split: option.splits)
  next
    case False
    then obtain d where "d \<in> D" "longer (length d) b" by blast
    from imp [OF this] show ?thesis using False Some by (auto simp: is_allowed_def b_def)
  qed
  also have "\<dots> \<longleftrightarrow> (\<forall>d \<in> D. \<exists>a \<in> A. length d \<le> length a)"
  proof (cases "A = {}")
    case False
    then obtain q where "q \<in> A" "b = Some (length q, True)" "\<forall>r \<in> A. length r \<le> length q" using A by auto
    then show ?thesis by (auto simp: longer_def not_less) (meson le_trans)+
  qed (use A in \<open>simp add: longer_def\<close>)
  finally show ?thesis using Some by (simp add: D_def A_def)
qed (simp add: is_allowed_def)

section \<open>Blocked hosts, declaratively\<close>

lemma parent_blocked_iff: "parent_blocked bl h \<longleftrightarrow> (\<exists>sub d. h = sub @ ''.'' @ d \<and> d \<in> bl)"
proof (induction "length h" arbitrary: h rule: less_induct)
  case less
  show ?case
  proof (cases "CHR ''.'' \<in> set h")
    case False
    then have "byte_find ((=) (CHR ''.'')) h = None" by (auto simp: byte_find_None_iff)
    then show ?thesis using False by (auto simp: parent_blocked.simps [of bl h])
  next
    case True
    then obtain a b where h: "h = a @ CHR ''.'' # b" and a: "CHR ''.'' \<notin> set a" by (blast dest: split_list_first)
    have "byte_find ((=) (CHR ''.'')) h = Some (length a)"
      unfolding h by (rule byte_find_append) (use a in auto)
    then have "parent_blocked bl h \<longleftrightarrow> b \<in> bl \<or> parent_blocked bl b"
      by (subst parent_blocked.simps) (simp add: h)
    also have "\<dots> \<longleftrightarrow> b \<in> bl \<or> (\<exists>sub d. b = sub @ ''.'' @ d \<and> d \<in> bl)"
      using less.hyps [of b] by (simp add: h)
    also have "\<dots> \<longleftrightarrow> (\<exists>sub d. h = sub @ ''.'' @ d \<and> d \<in> bl)" (is "?L \<longleftrightarrow> ?R")
    proof
      assume ?L
      then show ?R
      proof
        assume "b \<in> bl"
        then show ?R by (intro exI [of _ a] exI [of _ b]) (simp add: h)
      next
        assume "\<exists>sub d. b = sub @ ''.'' @ d \<and> d \<in> bl"
        then obtain sub d where "b = sub @ ''.'' @ d" "d \<in> bl" by blast
        then show ?R by (intro exI [of _ "a @ ''.'' @ sub"] exI [of _ d]) (simp add: h)
      qed
    next
      assume ?R
      then obtain sub d where e: "a @ CHR ''.'' # b = sub @ CHR ''.'' # d" and d: "d \<in> bl" by (auto simp: h)
      from e consider "sub = a" "d = b" | us where "sub = a @ CHR ''.'' # us" "b = us @ CHR ''.'' # d"
        using a by (auto simp: append_eq_append_conv2 append_eq_Cons_conv Cons_eq_append_conv)
      then show ?L using d by cases auto
    qed
    finally show ?thesis .
  qed
qed


section \<open>Properties\<close>

text \<open>
  C13: The verdict for a path under the rules stored for a domain is the longest-match rule of RFC
  9309. Patterns match as globs with \<open>*\<close> and a final \<open>$\<close>, although the code only looks for each
  segment greedily; a path is refused exactly if a disallow pattern matches it that is longer than
  every allow pattern that matches; a domain with no rules allows everything.
\<close>

theorem robots_verdict:
  "is_allowed c domain path \<longleftrightarrow>
   (case c domain of None \<Rightarrow> True | Some rules \<Rightarrow>
     \<not> list_ex (\<lambda>d. (d = [] \<or> pattern_matches path d) \<and>
       \<not> list_ex (\<lambda>a. (a = [] \<or> pattern_matches path a) \<and> length d \<le> length a) (rr_allowed rules)) (rr_disallowed rules))"
  by (auto simp: robots_verdict_lemma matching_def list_ex_iff split: option.split)

text \<open>
  C31: A host is blocked exactly if it is on the list or ends in a dot and an entry of the list: an
  entry blocks its subdomains and nothing else.
\<close>

theorem blocklist_suffixes:
  "host_blocked bl host \<longleftrightarrow> host \<noteq> [] \<and> (\<exists>d \<in> bl. host = d \<or> suffix (''.'' @ d) host)"
  by (auto simp: host_blocked_def is_blocked_host_def parent_blocked_iff suffix_def)

end
