(* ===== verification/Guard.thy ===== *)
theory Guard
  imports Ip_Addr Robots
begin

text \<open>
  The guard of \<open>crates/net-client/src/fetch.rs\<close> that keeps fetches away from private networks: the
  forbidden addresses, the WHATWG number notation of IPv4 hosts, the normalisation of host names
  and \<open>guard_url\<close> itself. The environment switch is an argument.
\<close>

unbundle bit_operations_syntax

datatype net_error = Err_Url | Err_Blocked

definition URL_MAX :: nat where "URL_MAX = 8192"

section \<open>Addresses\<close>

fun is_forbidden_ip :: "ip_addr \<Rightarrow> bool" where
  "is_forbidden_ip (V4 v4) = v4_reserved v4"
| "is_forbidden_ip (V6 v6) =
     (if v6_reserved v6 then True
      else case v6_embedded v6 of Some v4 \<Rightarrow> v4_reserved v4 | None \<Rightarrow> False)"

text \<open>\<open>u64::from_str_radix\<close>, and the notations of one part of a host.\<close>

definition from_str_radix :: "nat \<Rightarrow> string \<Rightarrow> nat option" where
  "from_str_radix r s =
     (let d = (if prefix ''+'' s then drop 1 s else s)
      in if d = [] \<or> \<not> list_all (radix_digit r) d \<or> 2 ^ 64 \<le> radix_val r d then None else Some (radix_val r d))"

definition num_radix :: "string \<Rightarrow> nat option" where
  "num_radix p =
     (if p = [] then Some 0
      else case (case strip_prefix ''0x'' p of Some h \<Rightarrow> Some h | None \<Rightarrow> strip_prefix ''0X'' p) of
        Some h \<Rightarrow> from_str_radix 16 h
      | None \<Rightarrow>
          if 1 < length p \<and> hd p = CHR ''0'' then from_str_radix 8 (tl p)
          else if list_all is_digit p then parse_uint (2 ^ 64 - 1) p
          else None)"

text \<open>
  The loop over the parts: \<open>rem\<close> bytes are left for them, the last part takes all of these. The
  accumulator stays below \<open>2 ^ 32\<close> (lemma \<open>candidate_value\<close>), so the 128-bit sums do not wrap.
\<close>

fun ipv4_parts :: "string list \<Rightarrow> nat \<Rightarrow> nat \<Rightarrow> nat \<Rightarrow> nat option" where
  "ipv4_parts [] acc rem n = Some acc"
| "ipv4_parts (p # ps) acc rem n =
     (if 4 < n + 1 then None
      else case num_radix p of
        None \<Rightarrow> None
      | Some v \<Rightarrow>
          let width = (if ps = [] then rem else 1) in
          if 2 ^ (8 * width) \<le> v then None
          else ipv4_parts ps (acc * 2 ^ (8 * width) + v) (rem - width) (n + 1))"

definition ipv4_candidate :: "string \<Rightarrow> u32 option" where
  "ipv4_candidate host =
     (case ipv4_parts (split_on ((=) (CHR ''.'')) host) 0 4 0 of
        None \<Rightarrow> None
      | Some acc \<Rightarrow> if acc < 2 ^ 32 then Some (of_nat acc) else None)"

section \<open>Host names\<close>

text \<open>
  One character at a time: U+3002 (\<open>E3 80 82\<close>) is a full stop, the full-width forms U+FF01 to
  U+FF5E (\<open>EF BC 81\<close> to \<open>EF BD 9E\<close>) are ASCII characters, and ASCII is put in lower case.
\<close>

fun norm_chars :: "string \<Rightarrow> string" where
  "norm_chars [] = []"
| "norm_chars (c # s) =
     (case (map ord (c # take 2 s)) of
        [x, y, z] \<Rightarrow>
          if [x, y, z] = [227, 128, 130] then CHR ''.'' # norm_chars (drop 2 s)
          else if x = 239 \<and> (y = 188 \<and> 129 \<le> z \<and> z \<le> 191 \<or> y = 189 \<and> 128 \<le> z \<and> z \<le> 158)
          then to_lower (chr (32 + (y - 188) * 64 + (z - 128))) # norm_chars (drop 2 s)
          else to_lower c # norm_chars s
      | _ \<Rightarrow> to_lower c # norm_chars s)"

definition normalize_host_whatwg :: "string \<Rightarrow> string option" where
  "normalize_host_whatwg host =
     (let stripped = filter (\<lambda>c. ord c \<notin> {9, 10, 13}) host
      in if \<not> valid_utf8 stripped then None
         else let decoded = percent_decode_cow stripped
              in if \<not> valid_utf8 decoded then None else Some (norm_chars decoded))"

text \<open>\<open>url_blocked\<close> of \<open>blocklist.rs\<close>: a host that cannot be normalised counts as blocked.\<close>

definition url_blocked :: "string set \<Rightarrow> string \<Rightarrow> bool" where
  "url_blocked bl url =
     (let raw = a_host (split_authority url)
      in if raw = [] then False
         else case normalize_host_whatwg raw of Some norm \<Rightarrow> host_blocked bl norm | None \<Rightarrow> True)"

section \<open>The guard\<close>

definition guard_url :: "bool \<Rightarrow> string \<Rightarrow> net_error + unit" where
  "guard_url allows_private url =
     (if url = [] \<or> URL_MAX < length url then Inl Err_Url
      else if allows_private then Inr ()
      else let auth = split_authority url
        in if a_scheme auth = [] then Inl Err_Url
           else if \<not> scheme_is_http (a_scheme auth) then Inl Err_Blocked
           else case normalize_host_whatwg (a_host auth) of
             None \<Rightarrow> Inl Err_Blocked
           | Some lower \<Rightarrow>
               if lower = [] then Inl Err_Url
               else if lower = ''localhost'' \<or> suffix ''.localhost'' lower then Inl Err_Blocked
               else case parse_ip lower of
                 Some ip \<Rightarrow> if is_forbidden_ip ip then Inl Err_Blocked else Inr ()
               | None \<Rightarrow>
                   if (case ipv4_candidate lower of Some v4 \<Rightarrow> is_forbidden_ip (V4 v4) | None \<Rightarrow> False)
                   then Inl Err_Blocked
                   else if CHR ''.'' \<notin> set lower \<and> \<not> list_all (\<lambda>c. is_alnum c \<or> c = CHR ''-'') lower
                   then Inl Err_Blocked
                   else Inr ())"

section \<open>The numbers of a host\<close>













section \<open>The reserved ranges\<close>













definition plain_host :: "string \<Rightarrow> bool" where
  "plain_host h = list_all (\<lambda>c. is_lower c \<or> is_digit c \<or> c = CHR ''.'' \<or> c = CHR ''-'') h"

lemma normalize_plain: "plain_host h \<Longrightarrow> normalize_host_whatwg h = Some h"
proof -
  assume p: "plain_host h"
  then have ch: "ord c < 128 \<and> ord c \<notin> {9, 10, 13} \<and> c \<noteq> CHR ''%'' \<and> to_lower c = c" if "c \<in> set h" for c
    using that by (auto simp: plain_host_def list_all_iff is_lower_def is_digit_def to_lower_def is_upper_def)
  then have "filter (\<lambda>c. ord c \<notin> {9, 10, 13}) h = h" by (auto simp: filter_id_conv)
  moreover have "valid_utf8 h" by (rule valid_utf8_ascii) (use ch in blast)
  moreover have "percent_decode_cow h = h" using ch by (auto simp: percent_decode_cow_def)
  moreover have "norm_chars s = s" if "set s \<subseteq> set h" for s
    using that
  proof (induction s)
    case (Cons c s)
    then have "norm_chars s = s" "ord c < 128" "to_lower c = c" using ch by auto
    then show ?case by (auto split: list.split)
  qed simp
  ultimately show ?thesis by (simp add: normalize_host_whatwg_def)
qed


lemmas ip_eval = parse_ip_def read_ipv4_def read_ipv6_def read_groups.simps read_octet_def read_separator_def
  read_number_def radix_digit_def radix_val_def is_hexdigit_def is_digit_def hex_val_def strip_prefix_def Let_def
lemmas candidate_eval = ipv4_candidate_def num_radix_def from_str_radix_def parse_uint_def dec_val_def
  radix_digit_def radix_val_def is_hexdigit_def is_digit_def hex_val_def strip_prefix_def Let_def

lemma guard_plain:
  assumes "split_authority url = \<lparr>a_scheme = ''http'', a_userinfo = u, a_host = h, a_port = p, a_bracketed = b, a_tail = t\<rparr>"
    "plain_host h" "CHR ''.'' \<in> set h" "h \<noteq> ''localhost''" "\<not> suffix ''.localhost'' h"
    "parse_ip h = None" "case ipv4_candidate h of Some v4 \<Rightarrow> \<not> v4_reserved v4 | None \<Rightarrow> True"
    "url \<noteq> []" "length url \<le> 8192"
  shows "guard_url False url = Inr ()"
proof -
  have "h \<noteq> []" using assms(3) by auto
  then show ?thesis
    using assms normalize_plain [OF assms(2)]
    by (auto simp: guard_url_def URL_MAX_def scheme_is_http_def eq_ignore_case_def split: option.splits)
qed

section \<open>Properties\<close>



text \<open>The notations the guard does not normalise: a final dot, and an empty hexadecimal number.\<close>

lemma guard_final_dot: "guard_url False ''http://127.0.0.1./'' = Inr ()"
proof -
  have s: "split_authority ''http://127.0.0.1./'' = \<lparr>a_scheme = ''http'', a_userinfo = None,
      a_host = ''127.0.0.1.'', a_port = None, a_bracketed = False, a_tail = ''/''\<rparr>"
    by code_simp
  have "parse_ip ''127.0.0.1.'' = None" by (simp add: ip_eval)
  moreover have "ipv4_candidate ''127.0.0.1.'' = None" by (simp add: candidate_eval)
  ultimately show ?thesis
    by (intro guard_plain [OF s]) (simp_all add: plain_host_def is_lower_def is_digit_def suffix_def)
qed

lemma guard_empty_hex: "guard_url False ''http://0x7f.0x.0x.1/'' = Inr ()"
proof -
  have s: "split_authority ''http://0x7f.0x.0x.1/'' = \<lparr>a_scheme = ''http'', a_userinfo = None,
      a_host = ''0x7f.0x.0x.1'', a_port = None, a_bracketed = False, a_tail = ''/''\<rparr>"
    by code_simp
  have "parse_ip ''0x7f.0x.0x.1'' = None" by (simp add: ip_eval)
  moreover have "ipv4_candidate ''0x7f.0x.0x.1'' = None" by (simp add: candidate_eval)
  ultimately show ?thesis
    by (intro guard_plain [OF s]) (simp_all add: plain_host_def is_lower_def is_digit_def suffix_def)
qed


section \<open>Challenge vendors\<close>

text \<open>
  The vendor of a challenge page from the status, the response headers (a map from lower-case names)
  and the head of the body. The searches of the \<open>memchr\<close> crate are arguments.
\<close>

definition VENDOR_NONE :: u8 where "VENDOR_NONE = 0"
definition VENDOR_CLOUDFLARE :: u8 where "VENDOR_CLOUDFLARE = 1"
definition VENDOR_DATADOME :: u8 where "VENDOR_DATADOME = 2"
definition VENDOR_KASADA :: u8 where "VENDOR_KASADA = 3"
definition VENDOR_PERIMETERX :: u8 where "VENDOR_PERIMETERX = 4"
definition VENDOR_AKAMAI :: u8 where "VENDOR_AKAMAI = 5"
definition VENDOR_GENERIC :: u8 where "VENDOR_GENERIC = 6"

definition vendor_label :: "u8 \<Rightarrow> string" where
  "vendor_label v =
     (if v = VENDOR_CLOUDFLARE then ''cloudflare''
      else if v = VENDOR_DATADOME then ''datadome''
      else if v = VENDOR_KASADA then ''kasada''
      else if v = VENDOR_PERIMETERX then ''perimeterx''
      else if v = VENDOR_AKAMAI then ''akamai''
      else if v = VENDOR_GENERIC then ''generic''
      else ''none'')"

definition HDR_CF_MITIGATED_CHALLENGE :: u32 where "HDR_CF_MITIGATED_CHALLENGE = 1"
definition HDR_CF_RAY :: u32 where "HDR_CF_RAY = 2"
definition HDR_DD_B :: u32 where "HDR_DD_B = 4"
definition HDR_KPSDK :: u32 where "HDR_KPSDK = 8"
definition HDR_PX :: u32 where "HDR_PX = 16"
definition HDR_AKAMAI :: u32 where "HDR_AKAMAI = 32"

definition PRESENCE_FLAGS :: "(string list \<times> u32) list" where
  "PRESENCE_FLAGS =
     [([''x-dd-b'', ''x-ddtrace-id''], HDR_DD_B),
      ([''x-kpsdk-cd'', ''x-kpsdk-ct''], HDR_KPSDK),
      ([''x-px-captcha'', ''x-px''], HDR_PX),
      ([''x-akamai-transformed''], HDR_AKAMAI)]"

type_synonym finder2 = "char \<Rightarrow> char \<Rightarrow> string \<Rightarrow> nat option"

definition vendor_header_flags :: "finder2 \<Rightarrow> nat \<Rightarrow> (string \<rightharpoonup> string) \<Rightarrow> u32" where
  "vendor_header_flags mc2 status h =
     (let flags = (case h ''cf-mitigated'' of
                     Some v \<Rightarrow> if contains_ci mc2 v ''challenge'' then HDR_CF_MITIGATED_CHALLENGE else 0
                   | None \<Rightarrow> 0);
          flags = (if (status = 403 \<or> status = 503) \<and> h ''cf-ray'' \<noteq> None then flags OR HDR_CF_RAY else flags)
      in foldl (\<lambda>flags (names, flag). if list_ex (\<lambda>name. h name \<noteq> None) names then flags OR flag else flags)
           flags PRESENCE_FLAGS)"

definition challenge_vendor_of :: "finder \<Rightarrow> finder2 \<Rightarrow> nat \<Rightarrow> u32 \<Rightarrow> string \<Rightarrow> u8" where
  "challenge_vendor_of mem mc2 status header_flags body_head =
     (if header_flags AND (HDR_CF_MITIGATED_CHALLENGE OR HDR_CF_RAY) \<noteq> 0 then VENDOR_CLOUDFLARE
      else if (status = 403 \<or> status = 503) \<and>
              (mem body_head ''jschl_vc'' \<noteq> None \<or> mem body_head ''cf-challenge'' \<noteq> None \<or>
               mem body_head ''Just a moment...'' \<noteq> None) then VENDOR_CLOUDFLARE
      else if header_flags AND HDR_DD_B \<noteq> 0 then VENDOR_DATADOME
      else if status = 403 \<and> contains_ci mc2 body_head ''datadome'' then VENDOR_DATADOME
      else if header_flags AND HDR_KPSDK \<noteq> 0 then VENDOR_KASADA
      else if header_flags AND HDR_PX \<noteq> 0 then VENDOR_PERIMETERX
      else if header_flags AND HDR_AKAMAI \<noteq> 0 \<and> mem body_head ''/_sec/'' \<noteq> None then VENDOR_AKAMAI
      else if status = 429 \<or> status = 403 then VENDOR_GENERIC
      else VENDOR_NONE)"

end
