(* ===== verification/Proxy.thy ===== *)
theory Proxy
  imports Ip_Addr
begin

text \<open>
  Proxy addresses of \<open>crates/session-state/src/proxy.rs\<close>: the parser of proxy URLs with all its
  errors, the printers, and the round trip between them. \<open>push_int_into\<close> may panic, so the
  printers return an option.
\<close>

section \<open>Data\<close>

datatype proxy_scheme = Http | Https | Socks5 | Socks5h | Socks4

definition scheme_str :: "proxy_scheme \<Rightarrow> string" where
  "scheme_str s = (case s of Http \<Rightarrow> ''http'' | Https \<Rightarrow> ''https'' | Socks5 \<Rightarrow> ''socks5''
     | Socks5h \<Rightarrow> ''socks5h'' | Socks4 \<Rightarrow> ''socks4'')"

definition scheme_parse :: "string \<Rightarrow> proxy_scheme option" where
  "scheme_parse s =
     (let lower = ascii_lower_compact s
      in if lower = ''http'' then Some Http
         else if lower = ''https'' then Some Https
         else if lower = ''socks5'' then Some Socks5
         else if lower = ''socks5h'' then Some Socks5h
         else if lower = ''socks4'' then Some Socks4
         else None)"

definition wreq_supported :: "proxy_scheme \<Rightarrow> bool" where
  "wreq_supported s = (s \<in> {Http, Https, Socks5})"

datatype target_addr = Target_Ip ip_addr | Target_Domain string

definition is_ipv6 :: "target_addr \<Rightarrow> bool" where
  "is_ipv6 t = (case t of Target_Ip (V6 _) \<Rightarrow> True | _ \<Rightarrow> False)"

definition host_string :: "target_addr \<Rightarrow> string" where
  "host_string t = (case t of Target_Domain d \<Rightarrow> d | Target_Ip ip \<Rightarrow> ip_text ip)"

record proxy_auth =
  pa_username :: string
  pa_password :: string

record proxy_config =
  pc_scheme :: proxy_scheme
  pc_target :: target_addr
  pc_port :: nat
  pc_auth :: "proxy_auth option"
  pc_utc_offset :: "int option"
  pc_asn :: "int option"

datatype proxy_error = Empty | TooLong | MissingScheme | UnsupportedScheme | MissingHost | MissingPort
  | BadPort | BadUserInfo

definition error_str :: "proxy_error \<Rightarrow> string" where
  "error_str e = (case e of
     Empty \<Rightarrow> ''empty proxy url'' | TooLong \<Rightarrow> ''proxy url too long'' | MissingScheme \<Rightarrow> ''missing scheme''
   | UnsupportedScheme \<Rightarrow> ''unsupported scheme'' | MissingHost \<Rightarrow> ''missing host''
   | MissingPort \<Rightarrow> ''missing port'' | BadPort \<Rightarrow> ''port out of range'' | BadUserInfo \<Rightarrow> ''bad user info'')"

definition MAX_URL :: nat where "MAX_URL = 512"

section \<open>Parsing\<close>

definition percent_decode_checked :: "string \<Rightarrow> proxy_error + string" where
  "percent_decode_checked s =
     (let d = percent_decode s in if valid_utf8 d then Inr d else Inl BadUserInfo)"

text \<open>
  The scan for \<open>key=\<close> at the start of the query or after a separator. The first test stands for the
  slice \<open>rest[scan..]\<close>, which only fails for an empty key.
\<close>

function query_from :: "string \<Rightarrow> string \<Rightarrow> nat \<Rightarrow> int option" where
  "query_from rest key scan =
     (if length rest < scan then None
      else case str_find (drop scan rest) key of
        None \<Rightarrow> None
      | Some r \<Rightarrow>
          let rel = r + scan;
              boundary = rel = 0 \<or> rest ! (rel - 1) = CHR ''?'' \<or> rest ! (rel - 1) = CHR ''&''
          in if boundary \<and> rel + length key < length rest \<and> rest ! (rel + length key) = CHR ''=''
             then let tail = drop (rel + length key + 1) rest
                  in parse_i64 (take (find_or_end ((=) (CHR ''&'')) tail) tail)
             else query_from rest key (rel + 1))"
  by pat_completeness auto
termination by (relation "measure (\<lambda>(rest, _, scan). Suc (length rest) - scan)") auto

declare query_from.simps [simp del]

definition query_int :: "string \<Rightarrow> string \<Rightarrow> int option" where
  "query_int s key = (case byte_find ((=) (CHR ''?'')) s of
     None \<Rightarrow> None | Some q \<Rightarrow> query_from (drop (q + 1) s) key 0)"

definition parse_auth :: "(string \<times> string option) option \<Rightarrow> proxy_error + proxy_auth option" where
  "parse_auth userinfo =
     (case userinfo of
        None \<Rightarrow> Inr None
      | Some (user, pass) \<Rightarrow>
          let ui_len = length user + (case pass of None \<Rightarrow> 0 | Some p \<Rightarrow> 1 + length p)
          in if user = [] \<or> 256 < ui_len then Inl BadUserInfo
             else case percent_decode_checked user of
               Inl e \<Rightarrow> Inl e
             | Inr u \<Rightarrow>
                 (case percent_decode_checked (case pass of None \<Rightarrow> [] | Some p \<Rightarrow> p) of
                    Inl e \<Rightarrow> Inl e
                  | Inr p \<Rightarrow> Inr (Some \<lparr>pa_username = u, pa_password = p\<rparr>)))"

definition parse_port :: "proxy_scheme \<Rightarrow> string option \<Rightarrow> proxy_error + nat" where
  "parse_port scheme port =
     (case port of
        Some p \<Rightarrow>
          (case parse_u32 p of
             None \<Rightarrow> Inl BadPort
           | Some v \<Rightarrow> if v = 0 \<or> 65535 < v then Inl BadPort else Inr v)
      | None \<Rightarrow> (case scheme of Http \<Rightarrow> Inr 80 | Https \<Rightarrow> Inr 443 | _ \<Rightarrow> Inl MissingPort))"

definition in_range :: "int \<Rightarrow> int \<Rightarrow> int \<Rightarrow> int option" where
  "in_range lo hi v = (if lo \<le> v \<and> v \<le> hi then Some v else None)"

definition proxy_parse :: "string \<Rightarrow> proxy_error + proxy_config" where
  "proxy_parse s =
     (let s = trim_ws s
      in if s = [] then Inl Empty
         else if MAX_URL < length s then Inl TooLong
         else let a = split_authority s
           in if a_scheme a = [] then Inl MissingScheme
              else case scheme_parse (a_scheme a) of
                None \<Rightarrow> Inl UnsupportedScheme
              | Some scheme \<Rightarrow>
                  (case parse_auth (a_userinfo a) of
                     Inl e \<Rightarrow> Inl e
                   | Inr auth \<Rightarrow>
                       let host = a_host a
                       in if host = [] \<or> \<not> a_bracketed a \<and> hd host = CHR '':'' \<or> 255 < length host
                          then Inl MissingHost
                          else case parse_port scheme (a_port a) of
                            Inl e \<Rightarrow> Inl e
                          | Inr port \<Rightarrow>
                              Inr \<lparr>pc_scheme = scheme,
                                   pc_target = (case parse_ip host of Some ip \<Rightarrow> Target_Ip ip | None \<Rightarrow> Target_Domain host),
                                   pc_port = port, pc_auth = auth,
                                   pc_utc_offset = Option.bind (query_int s ''utc'') (in_range (- (2 ^ 31)) (2 ^ 31 - 1)),
                                   pc_asn = Option.bind (query_int s ''asn'') (in_range 0 (2 ^ 32 - 1))\<rparr>))"

section \<open>Printing\<close>

definition write_authority :: "proxy_config \<Rightarrow> string \<Rightarrow> string option" where
  "write_authority c out =
     (let v6 = is_ipv6 (pc_target c);
          out = out @ (if v6 then ''['' else []);
          out = out @ host_string (pc_target c);
          out = out @ (if v6 then '']'' else [])
      in push_int_into (out @ '':'') (int (pc_port c)))"

definition to_url_string :: "proxy_config \<Rightarrow> string option" where
  "to_url_string c =
     (let out = scheme_str (pc_scheme c) @ ''://'';
          out = (case pc_auth c of None \<Rightarrow> out
                 | Some a \<Rightarrow> out @ percent_encode_compact (pa_username a) @ '':'' @
                             percent_encode_compact (pa_password a) @ ''@'')
      in write_authority c out)"

definition wreq_compatible :: "proxy_config \<Rightarrow> bool" where
  "wreq_compatible c = wreq_supported (pc_scheme c)"

definition redacted_string :: "proxy_config \<Rightarrow> string option" where
  "redacted_string c = write_authority c (scheme_str (pc_scheme c) @ ''://'')"

definition push_opt :: "int option \<Rightarrow> string \<Rightarrow> string option" where
  "push_opt v out = (case v of None \<Rightarrow> Some out | Some i \<Rightarrow> push_int_into out i)"

definition identity_key :: "proxy_config \<Rightarrow> string option" where
  "identity_key c = do {
     out \<leftarrow> redacted_string c;
     let out = (case pc_auth c of None \<Rightarrow> out | Some a \<Rightarrow> out @ ''@'' @ pa_username a);
     out \<leftarrow> push_opt (pc_asn c) (out @ ''#'');
     push_opt (pc_utc_offset c) (out @ ''|'')
   }"

section \<open>The round trip\<close>

text \<open>A configuration whose URL can be read back.\<close>

definition printable_host :: "target_addr \<Rightarrow> bool" where
  "printable_host t =
     (case t of
        Target_Ip (V4 _) \<Rightarrow> True
      | Target_Ip (V6 _) \<Rightarrow> False
      | Target_Domain d \<Rightarrow> d \<noteq> [] \<and> length d \<le> 255 \<and> hd d \<noteq> CHR ''['' \<and> free_of ''/?#@:'' d \<and> parse_ip d = None)"

definition printable_auth :: "proxy_auth option \<Rightarrow> bool" where
  "printable_auth a =
     (case a of
        None \<Rightarrow> True
      | Some a \<Rightarrow> pa_username a \<noteq> [] \<and> valid_utf8 (pa_username a) \<and> valid_utf8 (pa_password a) \<and>
          length (percent_encode_compact (pa_username a)) + length (percent_encode_compact (pa_password a)) \<le> 255)"

definition printable :: "proxy_config \<Rightarrow> bool" where
  "printable c \<longleftrightarrow> printable_host (pc_target c) \<and> printable_auth (pc_auth c) \<and>
     1 \<le> pc_port c \<and> pc_port c \<le> 65535 \<and> pc_utc_offset c = None \<and> pc_asn c = None"

definition plain_char :: "char \<Rightarrow> bool" where
  "plain_char c \<longleftrightarrow> is_alnum c \<or> c \<in> set ''-_.~%''"

lemma hex_digit_plain: "i < 16 \<Longrightarrow> plain_char (HEX_UPPER ! i)"
proof -
  assume "i < 16"
  then have "HEX_UPPER ! i \<in> set HEX_UPPER" by (intro nth_mem) (simp add: HEX_UPPER_def)
  then show ?thesis
    by (auto simp: HEX_UPPER_def plain_char_def is_alnum_def is_alpha_def is_upper_def is_lower_def is_digit_def)
qed

lemma percent_encode_plain: "c \<in> set (percent_encode_compact s) \<Longrightarrow> plain_char c"
proof -
  have "plain_char c" if "c \<in> set (hex_escape b)" for b
  proof -
    have "ord b < 256" by (rule ord_less_256)
    then have "plain_char (HEX_UPPER ! (ord b div 16))" "plain_char (HEX_UPPER ! (ord b mod 16))"
      by (auto intro!: hex_digit_plain simp: div_less_iff_less_mult)
    then show ?thesis using that by (auto simp: hex_escape_def plain_char_def)
  qed
  moreover assume "c \<in> set (percent_encode_compact s)"
  ultimately show ?thesis
    by (auto simp: percent_encode_compact_def percent_encode_into_def is_unreserved_def plain_char_def split: if_splits)
qed

lemma plain_free: "(\<And>c. c \<in> set s \<Longrightarrow> plain_char c) \<Longrightarrow> free_of '':/?#@'' s"
  by (fastforce simp: free_of_iff plain_char_def is_alnum_def is_alpha_def is_upper_def is_lower_def is_digit_def)

lemma free_of_subset: "free_of cs s \<Longrightarrow> set cs' \<subseteq> set cs \<Longrightarrow> free_of cs' s"
  by (auto simp: free_of_iff)

lemma dec_plain: "free_of ''/?#@:'' (dec n)"
  by (rule free_of_subset [OF plain_free]) (auto simp: plain_char_def is_alnum_def dest: dec_is_digit)

definition proxy_authority :: "proxy_config \<Rightarrow> authority" where
  "proxy_authority c = \<lparr>a_scheme = scheme_str (pc_scheme c),
     a_userinfo = map_option (\<lambda>a. (percent_encode_compact (pa_username a), Some (percent_encode_compact (pa_password a)))) (pc_auth c),
     a_host = host_string (pc_target c), a_port = Some (dec (pc_port c)), a_bracketed = False, a_tail = []\<rparr>"

lemma ipv4_text_chars: "c \<in> set (ipv4_text a) \<Longrightarrow> is_digit c \<or> c = CHR ''.''"
  by (auto simp: ipv4_text_def join_with_def octets_def dest: dec_is_digit)

lemma ipv4_text_first: "ipv4_text a \<noteq> [] \<and> is_digit (hd (ipv4_text a))"
proof -
  obtain x xs where "octets a = x # xs" by (simp add: octets_def)
  then show ?thesis using dec_is_digit [of "hd (dec x)" x] by (simp add: ipv4_text_def join_with_def)
qed

lemma ipv4_text_length: "length (ipv4_text a) \<le> 15"
proof -
  obtain p q r s where o: "octets a = [p, q, r, s]" by (simp add: octets_def)
  have "length (dec n) \<le> 3" if "n \<in> set (octets a)" for n
    using dec_length [of 3 n] octets_less [OF that] by simp
  then have "length (dec p) \<le> 3 \<and> length (dec q) \<le> 3 \<and> length (dec r) \<le> 3 \<and> length (dec s) \<le> 3"
    by (simp add: o)
  then show ?thesis by (simp add: ipv4_text_def o join_with_def)
qed

lemma printable_hostD:
  assumes "printable_host t"
  shows "host_string t \<noteq> []" "hd (host_string t) \<noteq> CHR ''[''" "length (host_string t) \<le> 255"
    "free_of ''/?#@:'' (host_string t)" "\<not> is_ipv6 t"
    "(case parse_ip (host_string t) of Some ip \<Rightarrow> Target_Ip ip | None \<Rightarrow> Target_Domain (host_string t)) = t"
proof -
  consider a where "t = Target_Ip (V4 a)" | d where "t = Target_Domain d" "d \<noteq> []" "length d \<le> 255"
    "hd d \<noteq> CHR ''[''" "free_of ''/?#@:'' d" "parse_ip d = None"
    using assms by (auto simp: printable_host_def split: target_addr.splits ip_addr.splits)
  then have "host_string t \<noteq> [] \<and> hd (host_string t) \<noteq> CHR ''['' \<and> length (host_string t) \<le> 255 \<and>
    free_of ''/?#@:'' (host_string t) \<and> \<not> is_ipv6 t \<and>
    (case parse_ip (host_string t) of Some ip \<Rightarrow> Target_Ip ip | None \<Rightarrow> Target_Domain (host_string t)) = t"
  proof cases
    case 1
    have "free_of ''/?#@:'' (ipv4_text a)"
      by (rule free_of_subset [OF plain_free]) (auto simp: plain_char_def is_alnum_def dest: ipv4_text_chars)
    then show ?thesis using ipv4_text_first [of a] ipv4_text_length [of a] read_ipv4_text [of a]
      by (auto simp: 1 host_string_def ip_text_def is_ipv6_def is_digit_def)
  qed (simp add: host_string_def is_ipv6_def)
  then show "host_string t \<noteq> []" "hd (host_string t) \<noteq> CHR ''[''" "length (host_string t) \<le> 255"
    "free_of ''/?#@:'' (host_string t)" "\<not> is_ipv6 t"
    "(case parse_ip (host_string t) of Some ip \<Rightarrow> Target_Ip ip | None \<Rightarrow> Target_Domain (host_string t)) = t"
    by simp_all
qed

lemma scheme_str_facts: "free_of '':'' (scheme_str s)" "scheme_str s \<noteq> []" "\<not> ws_byte (hd (scheme_str s))"
  by (cases s; simp add: scheme_str_def free_of_def ws_byte_def)+

lemma lower_id: "list_all (\<lambda>c. \<not> is_upper c) s \<Longrightarrow> ascii_lower_compact s = s"
  by (induction s) (simp_all add: ascii_lower_compact_def push_ascii_case_into_def)

lemma scheme_parse_str: "scheme_parse (scheme_str s) = Some s"
proof -
  have "list_all (\<lambda>c. \<not> is_upper c) (scheme_str s)"
    by (cases s) (simp_all add: scheme_str_def is_upper_def)
  from lower_id [OF this] show ?thesis
    by (cases s) (simp_all add: scheme_parse_def scheme_str_def)
qed

lemma proxy_authority_wf: "printable c \<Longrightarrow> well_formed (proxy_authority c)"
proof -
  assume p: "printable c"
  have "free_of '':/?#'' (percent_encode_compact s) \<and> free_of ''/?#'' (percent_encode_compact s)" for s
    by (intro conjI; rule free_of_subset [OF plain_free [OF percent_encode_plain]]) auto
  then show ?thesis
    using p scheme_str_facts(1) [of "pc_scheme c"] printable_hostD(1,2,4) [of "pc_target c"] dec_plain [of "pc_port c"]
    by (simp add: well_formed_def proxy_authority_def printable_def split: option.split)
qed

lemma to_url_string_text:
  assumes "printable c"
  shows "to_url_string c = Some (auth_text (proxy_authority c))"
proof -
  have "\<not> is_ipv6 (pc_target c)" using printable_hostD assms by (simp add: printable_def)
  moreover have "push_int_into out (int (pc_port c)) = Some (out @ dec (pc_port c))" for out
    using push_int_into_text [of "int (pc_port c)" out] assms by (simp add: printable_def int_text_def)
  ultimately show ?thesis
    by (simp add: to_url_string_def write_authority_def auth_text_def proxy_authority_def Let_def split: option.split)
qed

lemma parse_port_dec: "1 \<le> n \<Longrightarrow> n \<le> 65535 \<Longrightarrow> parse_port s (Some (dec n)) = Inr n"
proof -
  assume n: "1 \<le> n" "n \<le> 65535"
  have "\<not> prefix ''+'' (dec n)" using dec_is_digit [of "hd (dec n)" n]
    by (cases "dec n") (auto simp: is_digit_def)
  moreover have "list_all is_digit (dec n)" using dec_is_digit by (auto simp: list_all_iff)
  ultimately show ?thesis using n by (simp add: parse_port_def parse_u32_def parse_uint_def Let_def)
qed

lemma parse_auth_encoded:
  "printable_auth a \<Longrightarrow> parse_auth (map_option (\<lambda>a. (percent_encode_compact (pa_username a),
     Some (percent_encode_compact (pa_password a)))) a) = Inr a"
proof (cases a)
  case (Some b)
  assume p: "printable_auth a"
  have "percent_encode_compact (pa_username b) \<noteq> []"
    using p Some percent_decode_encode [of "pa_username b"] by (auto simp: printable_auth_def percent_decode_def)
  then show ?thesis using p Some
    by (simp add: parse_auth_def printable_auth_def percent_decode_checked_def percent_decode_encode)
qed (simp add: parse_auth_def)

lemma query_int_none: "CHR ''?'' \<notin> set s \<Longrightarrow> query_int s key = None"
proof -
  assume "CHR ''?'' \<notin> set s"
  then have "byte_find ((=) (CHR ''?'')) s = None" by (subst byte_find_None_iff) auto
  then show ?thesis by (simp add: query_int_def)
qed

lemma proxy_text_no_query: "printable c \<Longrightarrow> CHR ''?'' \<notin> set (auth_text (proxy_authority c))"
proof -
  assume p: "printable c"
  have s: "CHR ''?'' \<notin> set (scheme_str t)" for t by (cases t) (simp_all add: scheme_str_def)
  have e: "CHR ''?'' \<notin> set (percent_encode_compact t)" for t
    using plain_free [OF percent_encode_plain] free_of_mem by fastforce
  have "CHR ''?'' \<notin> set (host_string (pc_target c))" "CHR ''?'' \<notin> set (dec (pc_port c))"
    using p free_of_mem [OF printable_hostD(4)] free_of_mem [OF dec_plain] by (simp_all add: printable_def)
  then show ?thesis using s e
    by (simp add: auth_text_def proxy_authority_def split: option.split)
qed

lemma proxy_text_trim: "trim_ws (auth_text (proxy_authority c)) = auth_text (proxy_authority c)"
proof (rule trim_ws_id, rule disjI2)
  have "is_digit (last (dec (pc_port c)))" using dec_is_digit [OF last_in_set] by simp
  then have "\<not> ws_byte (last (dec (pc_port c)))" by (auto simp: is_digit_def ws_byte_def)
  then show "\<not> ws_byte (hd (auth_text (proxy_authority c))) \<and> \<not> ws_byte (last (auth_text (proxy_authority c)))"
    using scheme_str_facts [of "pc_scheme c"] by (simp add: auth_text_def proxy_authority_def)
qed

section \<open>Properties\<close>

text \<open>
  C27: The URL of a printable proxy configuration (an IPv4 address or a domain name, any user name
  and password within the limits of the parser) is produced without a panic and, if it is not
  longer than the parser accepts, parsed back to the same configuration.
\<close>

theorem proxy_roundtrip:
  assumes "printable c" "length (auth_text (proxy_authority c)) \<le> MAX_URL"
  shows "\<exists>s. to_url_string c = Some s \<and> proxy_parse s = Inr c"
proof (intro exI conjI)
  let ?s = "auth_text (proxy_authority c)"
  show "to_url_string c = Some ?s" by (rule to_url_string_text [OF assms(1)])
  have ne: "?s \<noteq> []" by (simp add: auth_text_def)
  have p: "printable_host (pc_target c)" "printable_auth (pc_auth c)" "1 \<le> pc_port c" "pc_port c \<le> 65535"
    "pc_utc_offset c = None" "pc_asn c = None"
    using assms(1) by (simp_all add: printable_def)
  note h = printable_hostD [OF p(1)]
  define h where "h = host_string (pc_target c)"
  have hd: "hd h \<noteq> CHR '':''"
    using h(1) free_of_mem [OF h(4), of "CHR '':''"] unfolding h_def by (cases "host_string (pc_target c)") auto
  have f: "a_host (proxy_authority c) = h" "a_scheme (proxy_authority c) = scheme_str (pc_scheme c)"
    "a_port (proxy_authority c) = Some (dec (pc_port c))" "\<not> a_bracketed (proxy_authority c)"
    "parse_auth (a_userinfo (proxy_authority c)) = Inr (pc_auth c)"
    using parse_auth_encoded [OF p(2)] by (simp_all add: proxy_authority_def h_def)
  have q: "query_int ?s key = None" for key by (rule query_int_none [OF proxy_text_no_query [OF assms(1)]])
  have "proxy_parse ?s = Inr \<lparr>pc_scheme = pc_scheme c,
      pc_target = (case parse_ip h of Some ip \<Rightarrow> Target_Ip ip | None \<Rightarrow> Target_Domain h),
      pc_port = pc_port c, pc_auth = pc_auth c, pc_utc_offset = None, pc_asn = None\<rparr>"
    unfolding proxy_parse_def proxy_text_trim Let_def split_authority_text [OF proxy_authority_wf [OF assms(1)]] q f
    using ne assms(2) h(1,3) hd parse_port_dec [OF p(3,4)] scheme_parse_str scheme_str_facts(2) f(4)
    by (simp flip: h_def)
  also have "\<dots> = Inr c" using h(6) [folded h_def] p(5,6) by simp
  finally show "proxy_parse ?s = Inr c" .
qed

theorem proxy_roundtrip_witness:
  "\<exists>s. to_url_string \<lparr>pc_scheme = Socks5, pc_target = Target_Ip (V4 0x0A000001), pc_port = 1080,
      pc_auth = Some \<lparr>pa_username = ''me'', pa_password = ''a:b@c''\<rparr>, pc_utc_offset = None, pc_asn = None\<rparr> = Some s \<and>
    pc_port (projr (proxy_parse s)) = 1080"
proof -
  let ?c = "\<lparr>pc_scheme = Socks5, pc_target = Target_Ip (V4 0x0A000001), pc_port = 1080,
      pc_auth = Some \<lparr>pa_username = ''me'', pa_password = ''a:b@c''\<rparr>, pc_utc_offset = None, pc_asn = None\<rparr>"
  have e: "percent_encode_compact ''me'' = ''me''" "percent_encode_compact ''a:b@c'' = ''a%3Ab%40c''"
    by code_simp+
  have p: "printable ?c"
    by (simp add: printable_def printable_host_def printable_auth_def e utf8_head_def)
  have "length (dec 1080) = 4" by (simp add: dec.simps)
  moreover have "length (ipv4_text 0x0A000001) \<le> 15" by (rule ipv4_text_length)
  ultimately have "length (auth_text (proxy_authority ?c)) \<le> MAX_URL"
    by (simp add: auth_text_def proxy_authority_def scheme_str_def host_string_def ip_text_def e MAX_URL_def)
  from proxy_roundtrip [OF p this] show ?thesis by auto
qed

end
