(* ===== verification/Budget.thy ===== *)
theory Budget
  imports Prelude
begin

text \<open>
  The lock-free budget of \<open>crates/runtime-exec/src/cache.rs\<close>: \<open>Budget::reserve\<close> takes entries and
  bytes from two atomic counters with two compare-and-swap operations, and a charge gives them
  back when it is dropped. Any number of threads interleave; every atomic operation is one step.
  A relaxed load may return any value, so nothing is assumed of what a thread has read before its
  compare-and-swap succeeds; a weak compare-and-swap may fail at any time.
\<close>

section \<open>State\<close>

record budget =
  entry_limit :: u64
  byte_limit :: u64
  entries :: u64
  bytes_used :: u64

definition budget_new :: "u64 \<Rightarrow> u64 \<Rightarrow> budget" where
  "budget_new entry_lim byte_lim =
     \<lparr>entry_limit = max entry_lim 1, byte_limit = max byte_lim 1, entries = 0, bytes_used = 0\<rparr>"

definition checked_add :: "u64 \<Rightarrow> u64 \<Rightarrow> u64 option" where
  "checked_add a b = (if unat a + unat b < 2 ^ 64 then Some (a + b) else None)"

text \<open>
  Where a thread is: outside; before the load of \<open>entries\<close>; before the load of \<open>bytes\<close>; at the head of
  the loop with the values it has read; between the two compare-and-swaps; before it takes back the
  entries; holding a charge; in the middle of dropping it.
\<close>

datatype thread =
  Outside
| LoadEntries (units: u64) (amount: u64)
| LoadBytes (units: u64) (amount: u64) (seen_entries: u64)
| LoopHead (units: u64) (amount: u64) (seen_entries: u64) (seen_bytes: u64)
| SwapBytes (units: u64) (amount: u64) (seen_bytes: u64)
| TakeBack (units: u64) (amount: u64)
| Charged (units: u64) (amount: u64)
| DropBytes (amount: u64)

section \<open>Steps of one thread\<close>

text \<open>The two limit checks at the head of the loop: the counter values to swap in.\<close>

definition within_limits :: "budget \<Rightarrow> u64 \<Rightarrow> u64 \<Rightarrow> u64 \<Rightarrow> u64 \<Rightarrow> (u64 \<times> u64) option" where
  "within_limits s u b e bn =
     (case checked_add e u of
        None \<Rightarrow> None
      | Some next_entries \<Rightarrow>
          if entry_limit s < next_entries then None
          else case checked_add bn b of
            None \<Rightarrow> None
          | Some next_bytes \<Rightarrow> if byte_limit s < next_bytes then None else Some (next_entries, next_bytes))"

text \<open>The two subtractions of the drop of a charge.\<close>

definition release_entries :: "budget \<Rightarrow> u64 \<Rightarrow> budget" where
  "release_entries s u = s\<lparr>entries := entries s - u\<rparr>"

definition release_bytes :: "budget \<Rightarrow> u64 \<Rightarrow> budget" where
  "release_bytes s b = s\<lparr>bytes_used := bytes_used s - b\<rparr>"

inductive thread_step :: "budget \<Rightarrow> thread \<Rightarrow> budget \<Rightarrow> thread \<Rightarrow> bool" where
  reserve: "thread_step s Outside s (LoadEntries u b)"
| load_entries: "thread_step s (LoadEntries u b) s (LoadBytes u b e)"
| load_bytes: "thread_step s (LoadBytes u b e) s (LoopHead u b e bn)"
| refuse: "within_limits s u b e bn = None \<Longrightarrow> thread_step s (LoopHead u b e bn) s Outside"
| swap_entries: "within_limits s u b e bn = Some (ne, nb) \<Longrightarrow> entries s = e \<Longrightarrow>
    thread_step s (LoopHead u b e bn) (s\<lparr>entries := ne\<rparr>) (SwapBytes u b bn)"
| retry: "within_limits s u b e bn \<noteq> None \<Longrightarrow> thread_step s (LoopHead u b e bn) s (LoadEntries u b)"
| swap_bytes: "bytes_used s = bn \<Longrightarrow>
    thread_step s (SwapBytes u b bn) (s\<lparr>bytes_used := bn + b\<rparr>) (Charged u b)"
| lost_bytes: "bytes_used s \<noteq> bn \<Longrightarrow> thread_step s (SwapBytes u b bn) s (TakeBack u b)"
| take_back: "thread_step s (TakeBack u b) (s\<lparr>entries := entries s - u\<rparr>) (LoadEntries u b)"
| drop_entries: "thread_step s (Charged u b) (release_entries s u) (DropBytes b)"
| drop_bytes: "thread_step s (DropBytes b) (release_bytes s b) Outside"

inductive_cases thread_stepE: "thread_step s t s' t'"

section \<open>All threads\<close>

text \<open>The threads by number; a step is a step of one of them.\<close>

type_synonym system = "budget \<times> thread list"

inductive system_step :: "system \<Rightarrow> system \<Rightarrow> bool" where
  "i < length ts \<Longrightarrow> thread_step s (ts ! i) s' t' \<Longrightarrow> system_step (s, ts) (s', ts[i := t'])"

inductive reachable :: "u64 \<Rightarrow> u64 \<Rightarrow> nat \<Rightarrow> system \<Rightarrow> bool" for el bl n where
  start: "reachable el bl n (budget_new el bl, replicate n Outside)"
| step: "reachable el bl n c \<Longrightarrow> system_step c c' \<Longrightarrow> reachable el bl n c'"

section \<open>What the counters stand for\<close>

definition held_entries :: "thread \<Rightarrow> nat" where
  "held_entries t = (case t of SwapBytes u _ _ \<Rightarrow> unat u | TakeBack u _ \<Rightarrow> unat u | Charged u _ \<Rightarrow> unat u | _ \<Rightarrow> 0)"

definition held_bytes :: "thread \<Rightarrow> nat" where
  "held_bytes t = (case t of Charged _ b \<Rightarrow> unat b | DropBytes b \<Rightarrow> unat b | _ \<Rightarrow> 0)"

text \<open>A thread between the swaps has checked that the bytes it saw leave room.\<close>

definition thread_ok :: "budget \<Rightarrow> thread \<Rightarrow> bool" where
  "thread_ok s t = (case t of SwapBytes _ b bn \<Rightarrow> unat bn + unat b \<le> unat (byte_limit s) | _ \<Rightarrow> True)"

definition sys_inv :: "u64 \<Rightarrow> u64 \<Rightarrow> nat \<Rightarrow> system \<Rightarrow> bool" where
  "sys_inv el bl n c \<longleftrightarrow>
     (case c of (s, ts) \<Rightarrow>
        length ts = n \<and> entry_limit s = max el 1 \<and> byte_limit s = max bl 1 \<and>
        unat (entries s) = sum_list (map held_entries ts) \<and>
        unat (bytes_used s) = sum_list (map held_bytes ts) \<and>
        entries s \<le> entry_limit s \<and> bytes_used s \<le> byte_limit s \<and>
        (\<forall>t \<in> set ts. thread_ok s t))"

lemma sum_list_replace:
  "i < length ts \<Longrightarrow> f (ts ! i) + sum_list (map f (ts[i := t])) = f t + (sum_list (map f ts) :: nat)"
proof (induction ts arbitrary: i)
  case (Cons a ts)
  then show ?case by (cases i) auto
qed simp

lemma within_limits_SomeD:
  assumes "within_limits s u b e bn = Some (ne, nb)"
  shows "unat ne = unat e + unat u" "ne \<le> entry_limit s" "unat bn + unat b \<le> unat (byte_limit s)"
proof -
  have add: "unat z = unat x + unat y" if "checked_add x y = Some z" for x y z
    using that by (auto simp: checked_add_def unat_word_ariths split: if_splits)
  obtain "checked_add e u = Some ne" "checked_add bn b = Some nb" "ne \<le> entry_limit s" "nb \<le> byte_limit s"
    using assms by (auto simp: within_limits_def not_less split: option.splits if_splits)
  then show "unat ne = unat e + unat u" "ne \<le> entry_limit s" "unat bn + unat b \<le> unat (byte_limit s)"
    using add [of bn b nb] add [of e u ne] by (simp_all add: word_le_nat_alt)
qed

lemma unat_sub_le: "unat b \<le> unat (a :: u64) \<Longrightarrow> unat (a - b) = unat a - unat b"
  by (simp add: unat_sub word_le_nat_alt)

lemma unat_add_le: "unat (a :: u64) + unat b \<le> unat (l :: u64) \<Longrightarrow> unat (a + b) = unat a + unat b"
proof -
  assume le: "unat a + unat b \<le> unat l"
  have "unat l < 2 ^ 64" using unsigned_less [of l] by simp
  then have "unat a + unat b < 2 ^ 64" using le by linarith
  then show ?thesis by (simp add: unat_word_ariths)
qed

text \<open>
  One step keeps the sums: the counters change by what the thread holds before and after it.
\<close>

lemma thread_step_sums:
  assumes "thread_step s t s' t'" "thread_ok s t"
    "held_entries t \<le> unat (entries s)" "held_bytes t \<le> unat (bytes_used s)"
    "entries s \<le> entry_limit s" "bytes_used s \<le> byte_limit s"
  shows "unat (entries s') + held_entries t = unat (entries s) + held_entries t' \<and>
    unat (bytes_used s') + held_bytes t = unat (bytes_used s) + held_bytes t' \<and>
    entry_limit s' = entry_limit s \<and> byte_limit s' = byte_limit s \<and>
    entries s' \<le> entry_limit s' \<and> bytes_used s' \<le> byte_limit s' \<and> thread_ok s' t'"
  using assms
proof cases
  case (swap_entries u b e bn ne nb)
  then show ?thesis
    using within_limits_SomeD [OF swap_entries(4)] assms by (simp add: held_entries_def held_bytes_def thread_ok_def)
next
  case (swap_bytes bn u b)
  then have "unat bn + unat b \<le> unat (byte_limit s)" using assms(2) by (simp add: thread_ok_def)
  from unat_add_le [OF this] this show ?thesis
    using swap_bytes assms by (simp add: held_entries_def held_bytes_def thread_ok_def word_le_nat_alt)
next
  case (take_back u b)
  then show ?thesis using assms
    by (auto simp: release_entries_def release_bytes_def held_entries_def held_bytes_def thread_ok_def
        unat_sub_le word_le_nat_alt)
next
  case (drop_entries u b)
  then show ?thesis using assms
    by (auto simp: release_entries_def release_bytes_def held_entries_def held_bytes_def thread_ok_def
        unat_sub_le word_le_nat_alt)
next
  case (drop_bytes b)
  then show ?thesis using assms
    by (auto simp: release_entries_def release_bytes_def held_entries_def held_bytes_def thread_ok_def
        unat_sub_le word_le_nat_alt)
qed (use assms in \<open>auto simp: held_entries_def held_bytes_def thread_ok_def\<close>)

lemma thread_ok_limits: "byte_limit s' = byte_limit s \<Longrightarrow> thread_ok s' t = thread_ok s t"
  by (simp add: thread_ok_def split: thread.split)

lemma sys_inv_step:
  assumes "system_step c c'" "sys_inv el bl n c"
  shows "sys_inv el bl n c'"
  using assms(1)
proof cases
  case (1 i ts s s' t')
  define t where "t = ts ! i"
  have m: "f t \<le> sum_list (map f ts)" for f :: "thread \<Rightarrow> nat"
    unfolding t_def using 1(3) by (intro member_le_sum_list) auto
  have inv: "length ts = n" "entry_limit s = max el 1" "byte_limit s = max bl 1"
    "unat (entries s) = sum_list (map held_entries ts)" "unat (bytes_used s) = sum_list (map held_bytes ts)"
    "entries s \<le> entry_limit s" "bytes_used s \<le> byte_limit s" "\<forall>t \<in> set ts. thread_ok s t"
    using assms(2) unfolding sys_inv_def 1(1) prod.case by blast+
  have ok: "thread_ok s t" using inv(8) 1(3) by (simp add: t_def)
  note st = thread_step_sums [OF 1(4) [folded t_def] ok _ _ inv(6,7), unfolded inv(4,5), OF m m]
  have "\<forall>x \<in> set (ts[i := t']). thread_ok s' x"
    using st inv(8) thread_ok_limits [of s' s] set_update_subset_insert [of ts i t'] by blast
  moreover have "unat (entries s') = sum_list (map held_entries (ts[i := t']))"
    using st sum_list_replace [OF 1(3), of held_entries t'] by (simp flip: t_def)
  moreover have "unat (bytes_used s') = sum_list (map held_bytes (ts[i := t']))"
    using st sum_list_replace [OF 1(3), of held_bytes t'] by (simp flip: t_def)
  ultimately show ?thesis
    using st inv(1-3) unfolding sys_inv_def 1(2) prod.case length_list_update by metis
qed

lemma reachable_inv: "reachable el bl n c \<Longrightarrow> sys_inv el bl n c"
proof (induction rule: reachable.induct)
  case start
  show ?case by (auto simp: sys_inv_def budget_new_def held_entries_def held_bytes_def thread_ok_def sum_list_replicate)
next
  case (step c c')
  then show ?case using sys_inv_step by blast
qed


section \<open>Properties\<close>

text \<open>
  C7: In every state that any number of threads can reach, under every interleaving, with stale
  reads and spurious failures of the weak swap, the entry and byte counters are exactly the sums of
  what the threads hold, neither counter exceeds its limit (so no counter wraps), and once every
  thread is outside both are zero again: a reservation that loses the race for the bytes leaks
  nothing.
\<close>

theorem budget_exact:
  assumes "reachable el bl n (s, ts)"
  shows "unat (entries s) = sum_list (map held_entries ts) \<and>
    unat (bytes_used s) = sum_list (map held_bytes ts) \<and>
    entries s \<le> max el 1 \<and> bytes_used s \<le> max bl 1 \<and>
    (set ts \<subseteq> {Outside} \<longrightarrow> entries s = 0 \<and> bytes_used s = 0)"
proof -
  have inv: "unat (entries s) = sum_list (map held_entries ts)" "unat (bytes_used s) = sum_list (map held_bytes ts)"
    "entries s \<le> max el 1" "bytes_used s \<le> max bl 1"
    using reachable_inv [OF assms] unfolding sys_inv_def prod.case by metis+
  have "sum_list (map held_entries ts) = 0 \<and> sum_list (map held_bytes ts) = 0" if "set ts \<subseteq> {Outside}"
    using that by (induction ts) (simp_all add: held_entries_def held_bytes_def)
  then have "set ts \<subseteq> {Outside} \<longrightarrow> unat (entries s) = 0 \<and> unat (bytes_used s) = 0" using inv(1,2) by simp
  then have "set ts \<subseteq> {Outside} \<longrightarrow> entries s = 0 \<and> bytes_used s = 0" unfolding unat_eq_0 .
  then show ?thesis using inv by simp
qed

text \<open>A thread that runs alone and reads the counters as they are.\<close>

inductive solo_steps :: "budget \<Rightarrow> thread \<Rightarrow> budget \<Rightarrow> thread \<Rightarrow> bool" where
  solo_done: "solo_steps s t s t"
| solo_more: "thread_step s t s' t' \<Longrightarrow> solo_steps s' t' s'' t'' \<Longrightarrow> solo_steps s t s'' t''"

text \<open>
  A reservation with room for it succeeds when its thread runs alone, and takes exactly what it asked
  for; one with no room is refused and changes nothing.
\<close>

lemma solo_reserve:
  assumes "within_limits s u b (entries s) (bytes_used s) = Some (ne, nb)"
  shows "solo_steps s Outside (s\<lparr>entries := ne, bytes_used := bytes_used s + b\<rparr>) (Charged u b)"
proof -
  let ?s = "s\<lparr>entries := ne\<rparr>"
  have "thread_step ?s (SwapBytes u b (bytes_used s)) (?s\<lparr>bytes_used := bytes_used s + b\<rparr>) (Charged u b)"
    by (rule swap_bytes) simp
  then have "solo_steps ?s (SwapBytes u b (bytes_used s)) (?s\<lparr>bytes_used := bytes_used s + b\<rparr>) (Charged u b)"
    by (rule solo_more) (rule solo_done)
  then show ?thesis
    using solo_more [OF reserve solo_more [OF load_entries solo_more [OF load_bytes
      solo_more [OF swap_entries [OF assms refl]]]]] by simp
qed

lemma solo_refuse:
  "within_limits s u b (entries s) (bytes_used s) = None \<Longrightarrow> solo_steps s (LoadEntries u b) s Outside"
  by (rule solo_more [OF load_entries solo_more [OF load_bytes solo_more [OF refuse solo_done]]])

lemma reachable_solo:
  assumes "solo_steps s t s' t'" "reachable el bl n (s, ts[i := t])" "i < length ts"
  shows "reachable el bl n (s', ts[i := t'])"
  using assms
proof (induction rule: solo_steps.induct)
  case (solo_more s t s' t' s'' t'')
  have "system_step (s, ts[i := t]) (s', (ts[i := t])[i := t'])"
    by (rule system_step.intros) (use solo_more in simp_all)
  then show ?case using reachable.step [OF solo_more.prems(1)] solo_more by simp
qed simp

theorem budget_exact_witness:
  "\<exists>s. reachable 2 100 2 (s, [Charged 1 60, Outside]) \<and> unat (bytes_used s) = 60 \<and> entries s \<le> 2"
proof -
  let ?s = "budget_new 2 100"
  have "within_limits ?s 1 60 (entries ?s) (bytes_used ?s) = Some (1, 60)"
    by (simp add: within_limits_def budget_new_def checked_add_def)
  from solo_reserve [OF this] have s: "solo_steps ?s Outside (?s\<lparr>entries := 1, bytes_used := 60\<rparr>) (Charged 1 60)"
    by (simp add: budget_new_def)
  have "reachable 2 100 2 (?s, [Outside, Outside][0 := Outside])"
    using reachable.start [of 2 100 2] by (simp add: numeral_2_eq_2)
  from reachable_solo [OF s this] have "reachable 2 100 2 (?s\<lparr>entries := 1, bytes_used := 60\<rparr>, [Charged 1 60, Outside])"
    by simp
  moreover from budget_exact [OF this] have "entries (?s\<lparr>entries := 1, bytes_used := 60\<rparr>) \<le> max 2 1"
    by blast
  ultimately show ?thesis
    by (intro exI [of _ "?s\<lparr>entries := 1, bytes_used := 60\<rparr>"]) simp
qed

end
