(* ===== verification/Timer.thy ===== *)
theory Timer
  imports Math_Util Rng "HOL-Library.Product_Lexorder"
begin

text \<open>
  Timers and animation frames of \<open>crates/runtime-exec/src/timer.rs\<close>. The binary heap is the list of
  its keys in firing order, least due time first and earlier sequence number first among equals.
  Callbacks are values of a type \<open>'cb\<close>; clock readings, and the delay after its conversion from a
  floating-point number of milliseconds, are arguments.
\<close>

section \<open>Clock\<close>

record virtual_clock =
  vc_offset_us :: u64
  vc_last_us :: u64

definition sat_add64 :: "u64 \<Rightarrow> u64 \<Rightarrow> u64" where
  "sat_add64 a b = (if unat a + unat b < 2 ^ 64 then a + b else - 1)"

definition elapsed_us :: "u64 \<Rightarrow> virtual_clock \<Rightarrow> u64" where
  "elapsed_us since_start clk = since_start + vc_offset_us clk"

text \<open>The reading in microseconds that \<open>now_ms_quantized\<close> returns divided by 1000, and the new state.\<close>

definition now_quantized :: "u64 \<Rightarrow> virtual_clock \<Rightarrow> u64 \<times> virtual_clock" where
  "now_quantized since_start clk =
     (let q = elapsed_us since_start clk div 100 * 100;
          clk = (if vc_last_us clk < q then clk\<lparr>vc_last_us := q\<rparr> else clk)
      in (vc_last_us clk, clk))"

definition add_offset_us :: "u64 \<Rightarrow> virtual_clock \<Rightarrow> virtual_clock" where
  "add_offset_us us clk = clk\<lparr>vc_offset_us := sat_add64 (vc_offset_us clk) us\<rparr>"

section \<open>Timers\<close>

definition TIMER_CAP :: nat where "TIMER_CAP = 4096"
definition RAF_CAP :: nat where "RAF_CAP = 128"
definition RAF_JITTER_FRAC :: u64 where "RAF_JITTER_FRAC = 50"

record timer_key =
  due_us :: u64
  tk_seq :: u64
  tk_id :: u32
  interval_us :: u64

definition key_order :: "timer_key \<Rightarrow> u64 \<times> u64" where
  "key_order k = (due_us k, tk_seq k)"

record 'cb timer_state =
  next_id :: u32
  seq :: u64
  live :: nat
  heap :: "timer_key list"
  tails :: "u32 \<rightharpoonup> 'cb"

definition timers_empty :: "'cb timer_state" where
  "timers_empty = \<lparr>next_id = 1, seq = 0, live = 0, heap = [], tails = Map.empty\<rparr>"

definition push_timer :: "'cb timer_state \<Rightarrow> u64 \<Rightarrow> u32 \<Rightarrow> u64 \<Rightarrow> 'cb \<Rightarrow> 'cb timer_state" where
  "push_timer q due tid interval tail =
     (if TIMER_CAP \<le> live q then q
      else let h = (if TIMER_CAP \<le> length (heap q) then filter (\<lambda>k. tails q (tk_id k) \<noteq> None) (heap q) else heap q);
               s = seq q + 1
           in q\<lparr>seq := s, live := live q + 1, tails := (tails q)(tid \<mapsto> tail),
                heap := insort_key key_order \<lparr>due_us = due, tk_seq = s, tk_id = tid, interval_us = interval\<rparr> h\<rparr>)"

definition schedule_timer :: "'cb timer_state \<Rightarrow> u64 \<Rightarrow> u64 \<Rightarrow> 'cb \<Rightarrow> bool \<Rightarrow> u32 \<times> 'cb timer_state" where
  "schedule_timer q now delay_us tail interval =
     (let tid = next_id q;
          q = q\<lparr>next_id := bump_u32_id (next_id q)\<rparr>
      in (tid, push_timer q (sat_add64 now delay_us) tid (if interval then delay_us else 0) tail))"

text \<open>The argument is the identifier after \<open>valid_timer_id\<close>.\<close>

definition unschedule :: "u32 option \<Rightarrow> 'cb timer_state \<Rightarrow> 'cb timer_state" where
  "unschedule tid q =
     (case tid of
        None \<Rightarrow> q
      | Some i \<Rightarrow> if tails q i \<noteq> None then q\<lparr>tails := (tails q)(i := None), live := live q - 1\<rparr> else q)"

text \<open>The search of \<open>run_loop\<close> for the next task that is due, dropping keys of cancelled timers.\<close>

fun pop_keys :: "u64 \<Rightarrow> (u32 \<rightharpoonup> 'cb) \<Rightarrow> timer_key list \<Rightarrow> (timer_key \<times> 'cb) option \<times> timer_key list" where
  "pop_keys now tm [] = (None, [])"
| "pop_keys now tm (k # ks) =
     (if now < due_us k then (None, k # ks)
      else case tm (tk_id k) of Some cb \<Rightarrow> (Some (k, cb), ks) | None \<Rightarrow> pop_keys now tm ks)"

definition pop_due :: "u64 \<Rightarrow> 'cb timer_state \<Rightarrow> (timer_key \<times> 'cb) option \<times> 'cb timer_state" where
  "pop_due now q =
     (case pop_keys now (tails q) (heap q) of
        (None, h) \<Rightarrow> (None, q\<lparr>heap := h\<rparr>)
      | (Some (k, cb), h) \<Rightarrow>
          (Some (k, cb), q\<lparr>heap := h, tails := (tails q)(tk_id k := None), live := live q - 1\<rparr>))"

text \<open>After the callback: an interval that is still alive is pushed again under its identifier.\<close>

definition requeue :: "u64 \<Rightarrow> bool \<Rightarrow> timer_key \<times> 'cb \<Rightarrow> 'cb timer_state \<Rightarrow> 'cb timer_state" where
  "requeue now alive task q =
     (case task of (k, cb) \<Rightarrow>
        if interval_us k \<noteq> 0 \<and> alive
        then push_timer q (sat_add64 now (interval_us k)) (tk_id k) (interval_us k) cb else q)"

section \<open>Animation frames\<close>

record 'cb raf_state =
  frame_us :: u64
  cadence :: u32
  raf_seed :: u64
  cbs :: "(u32 \<times> 'cb) list"
  raf_next_id :: u32
  display_hz :: u32

definition frame_cadence_us :: "u32 \<Rightarrow> u32 \<Rightarrow> u64 option" where
  "frame_cadence_us hz slot =
     (if hz = 0 then None
      else Some (if hz = 60 then [17000, 17000, 16000] ! (unat slot mod 3)
                 else if hz = 120 then [8333, 8333, 8334] ! (unat slot mod 3)
                 else 1000000 div ucast hz))"

definition raf_frame_interval_us :: "u32 \<Rightarrow> u64 \<Rightarrow> u32 \<Rightarrow> u64 option" where
  "raf_frame_interval_us cad seed hz =
     (case frame_cadence_us hz cad of
        None \<Rightarrow> None
      | Some base \<Rightarrow> Some (base + mix_to_range seed (ucast cad) (base div RAF_JITTER_FRAC + 1)))"

definition raf_schedule :: "u64 \<Rightarrow> u64 \<Rightarrow> u32 \<Rightarrow> 'cb \<Rightarrow> 'cb raf_state \<Rightarrow> (u32 \<times> 'cb raf_state) option" where
  "raf_schedule now seed hz cb r =
     (let tid = raf_next_id r;
          r = r\<lparr>raf_next_id := bump_u32_id (raf_next_id r)\<rparr>;
          push = (\<lambda>r. (tid, if length (cbs r) < RAF_CAP then r\<lparr>cbs := cbs r @ [(tid, cb)]\<rparr> else r))
      in if frame_us r = 0
         then map_option (\<lambda>c. push (r\<lparr>raf_seed := seed, display_hz := hz, frame_us := sat_add64 now c\<rparr>))
                (frame_cadence_us hz 0)
         else Some (push r))"

definition raf_cancel :: "u32 option \<Rightarrow> 'cb raf_state \<Rightarrow> 'cb raf_state" where
  "raf_cancel tid r =
     (case tid of None \<Rightarrow> r | Some i \<Rightarrow> r\<lparr>cbs := filter (\<lambda>(j, _). j \<noteq> i) (cbs r)\<rparr>)"

text \<open>
  One batch: what a callback does to the queue is the argument \<open>fire\<close>, which gives None for a value
  that is not a function; such an entry goes back to the queue.
\<close>

definition fire_raf_batch ::
  "u64 \<Rightarrow> u64 \<Rightarrow> (u32 \<times> 'cb \<Rightarrow> ('cb raf_state \<Rightarrow> 'cb raf_state) option) \<Rightarrow> 'cb raf_state \<Rightarrow> (bool \<times> 'cb raf_state) option" where
  "fire_raf_batch now after fire r =
     (if cbs r = [] \<or> now < frame_us r then Some (False, r)
      else case raf_frame_interval_us (cadence r) (raf_seed r) (display_hz r) of
        None \<Rightarrow> None
      | Some next \<Rightarrow>
          let batch = cbs r;
              r = r\<lparr>cadence := cadence r + 1, cbs := []\<rparr>;
              r = foldl (\<lambda>r e. case fire e of Some f \<Rightarrow> f r | None \<Rightarrow> r\<lparr>cbs := cbs r @ [e]\<rparr>) r batch
          in Some (True, r\<lparr>frame_us := sat_add64 after next\<rparr>))"

definition clear_all :: "'cb timer_state \<Rightarrow> 'cb raf_state \<Rightarrow> 'cb timer_state \<times> 'cb raf_state" where
  "clear_all q r =
     (q\<lparr>heap := [], tails := Map.empty, seq := 0, live := 0, next_id := 1\<rparr>,
      r\<lparr>cbs := [], frame_us := 0, cadence := 0, raf_seed := 0, raf_next_id := 1\<rparr>)"


section \<open>Runs\<close>

text \<open>
  What happens to the timers: scheduling and cancelling (also from within a callback), the pop of
  the next due task, and the end of its callback. \<open>running\<close> is the task whose callback runs, \<open>n\<close> the
  number of timers scheduled so far; identifiers only repeat after \<open>2 ^ 32 - 1\<close> of them.
\<close>

inductive timer_run :: "nat \<Rightarrow> 'cb timer_state \<Rightarrow> (timer_key \<times> 'cb) option \<Rightarrow> bool" where
  run_start: "timer_run 0 timers_empty None"
| run_schedule: "timer_run n q running \<Longrightarrow> n < 2 ^ 32 - 2 \<Longrightarrow>
    timer_run (Suc n) (snd (schedule_timer q now delay cb interval)) running"
| run_unschedule: "timer_run n q running \<Longrightarrow> timer_run n (unschedule tid q) running"
| run_pop: "timer_run n q None \<Longrightarrow> timer_run n (snd (pop_due now q)) (fst (pop_due now q))"
| run_return: "timer_run n q (Some task) \<Longrightarrow> timer_run n (requeue now alive task q) None"

definition ids :: "timer_key list \<Rightarrow> u32 list" where
  "ids h = map tk_id h"

definition heap_ok :: "timer_key list \<Rightarrow> (u32 \<rightharpoonup> 'cb) \<Rightarrow> bool" where
  "heap_ok h tm \<longleftrightarrow> distinct (ids h) \<and> dom tm \<subseteq> set (ids h) \<and> sorted (map key_order h)"

definition timer_inv :: "nat \<Rightarrow> 'cb timer_state \<Rightarrow> (timer_key \<times> 'cb) option \<Rightarrow> bool" where
  "timer_inv n q running \<longleftrightarrow>
     heap_ok (heap q) (tails q) \<and> live q = card (dom (tails q)) \<and> live q \<le> TIMER_CAP \<and>
     length (heap q) \<le> TIMER_CAP \<and> n \<le> 2 ^ 32 - 2 \<and> unat (next_id q) = Suc n \<and>
     (\<forall>i \<in> set (ids (heap q)). i < next_id q) \<and>
     (case running of None \<Rightarrow> True | Some (k, _) \<Rightarrow> tk_id k < next_id q \<and> tk_id k \<notin> set (ids (heap q)))"

lemma set_insort_ids: "set (ids (insort_key f k h)) = insert (tk_id k) (set (ids h))"
  by (simp add: ids_def set_insort_key)

lemma mset_ids_insort: "mset (ids (insort_key f k h)) = mset (tk_id k # ids h)"
  by (simp add: ids_def)

lemma distinct_ids_insort: "distinct (ids (insort_key f k h)) \<longleftrightarrow> tk_id k \<notin> set (ids h) \<and> distinct (ids h)"
  using mset_eq_imp_distinct_iff [OF mset_ids_insort] by simp

lemma heap_ok_insort:
  "heap_ok h tm \<Longrightarrow> tk_id k \<notin> set (ids h) \<Longrightarrow> heap_ok (insort_key key_order k h) (tm(tk_id k \<mapsto> cb))"
  by (auto simp: heap_ok_def distinct_ids_insort set_insort_ids sorted_insort_key)

lemma heap_ok_live: "heap_ok h tm \<Longrightarrow> heap_ok (filter (\<lambda>k. tm (tk_id k) \<noteq> None) h) tm"
  by (auto simp: heap_ok_def ids_def distinct_map_filter sorted_filter)

lemma card_live:
  assumes "heap_ok h tm"
  shows "length (filter (\<lambda>k. tm (tk_id k) \<noteq> None) h) = card (dom tm)"
proof -
  let ?l = "filter (\<lambda>k. tm (tk_id k) \<noteq> None) h"
  have "set (ids ?l) = dom tm" using assms by (auto simp: heap_ok_def ids_def)
  moreover have "distinct (ids ?l)" using heap_ok_live [OF assms] by (simp add: heap_ok_def)
  ultimately show ?thesis using distinct_card [of "ids ?l"] by (simp add: ids_def)
qed

lemma finite_tails: "heap_ok h tm \<Longrightarrow> finite (dom tm)"
  unfolding heap_ok_def by (meson List.finite_set finite_subset)

lemma push_timer_inv:
  assumes h: "heap_ok (heap q) (tails q)" "live q = card (dom (tails q))" "live q \<le> TIMER_CAP"
    "length (heap q) \<le> TIMER_CAP" and fresh: "tid \<notin> set (ids (heap q))"
    and p_def: "p = push_timer q due tid interval cb"
  shows "heap_ok (heap p) (tails p) \<and> live p = card (dom (tails p)) \<and> live p \<le> TIMER_CAP \<and>
    length (heap p) \<le> TIMER_CAP \<and> set (ids (heap p)) \<subseteq> insert tid (set (ids (heap q))) \<and> next_id p = next_id q"
proof (cases "TIMER_CAP \<le> live q")
  case True
  then show ?thesis using assms by (auto simp: push_timer_def)
next
  case False
  define g where "g = (if TIMER_CAP \<le> length (heap q) then filter (\<lambda>k. tails q (tk_id k) \<noteq> None) (heap q) else heap q)"
  define k where "k = \<lparr>due_us = due, tk_seq = seq q + 1, tk_id = tid, interval_us = interval\<rparr>"
  have p: "p = q\<lparr>seq := seq q + 1, live := live q + 1, tails := (tails q)(tid \<mapsto> cb), heap := insort_key key_order k g\<rparr>"
    using False by (simp add: p_def push_timer_def g_def k_def Let_def)
  have g: "heap_ok g (tails q)" "set (ids g) \<subseteq> set (ids (heap q))" "length g < TIMER_CAP"
    using h(1) heap_ok_live [OF h(1)] card_live [OF h(1)] h(2) False by (auto simp: g_def ids_def)
  have new: "tid \<notin> set (ids g)" "tid \<notin> dom (tails q)"
    using fresh g(2) h(1) by (auto simp: heap_ok_def)
  have "heap_ok (heap p) (tails p)"
    using heap_ok_insort [OF g(1), of k cb] new(1) by (simp add: p k_def)
  moreover have "live p = card (dom (tails p))"
    using h(2) new(2) finite_tails [OF h(1)] by (simp add: p)
  moreover have "set (ids (heap p)) \<subseteq> insert tid (set (ids (heap q)))"
    using g(2) by (auto simp: p set_insort_ids k_def)
  ultimately show ?thesis using False g(3) by (simp add: p)
qed

lemma pop_keys_spec:
  assumes "pop_keys now tm h = (r, h')"
  shows "\<exists>dead. list_all (\<lambda>k. tm (tk_id k) = None \<and> due_us k \<le> now) dead \<and>
    (case r of None \<Rightarrow> h = dead @ h' \<and> (h' = [] \<or> now < due_us (hd h'))
     | Some (k, cb) \<Rightarrow> h = dead @ k # h' \<and> due_us k \<le> now \<and> tm (tk_id k) = Some cb)"
  using assms
proof (induction now tm h rule: pop_keys.induct)
  case (2 now tm k ks)
  show ?case
  proof (cases "now < due_us k")
    case False
    show ?thesis
    proof (cases "tm (tk_id k)")
      case None
      then obtain dead where "list_all (\<lambda>k. tm (tk_id k) = None \<and> due_us k \<le> now) dead"
        "case r of None \<Rightarrow> ks = dead @ h' \<and> (h' = [] \<or> now < due_us (hd h'))
         | Some (k, cb) \<Rightarrow> ks = dead @ k # h' \<and> due_us k \<le> now \<and> tm (tk_id k) = Some cb"
        using 2 False by auto
      then show ?thesis using None False by (intro exI [of _ "k # dead"]) (auto split: option.splits)
    qed (use 2 False in \<open>auto intro!: exI [of _ "[]"]\<close>)
  qed (use 2 in \<open>auto intro!: exI [of _ "[]"]\<close>)
qed auto


lemma heap_ok_drop:
  assumes "heap_ok (dead @ h) tm" "list_all (\<lambda>k. tm (tk_id k) = None) dead"
  shows "heap_ok h tm"
  using assms by (auto simp: heap_ok_def ids_def sorted_append list_all_iff)

lemma heap_ok_pop: "heap_ok (k # h) tm \<Longrightarrow> heap_ok h (tm(tk_id k := None))"
  by (auto simp: heap_ok_def ids_def)

lemma bump_id: "unat x = Suc n \<Longrightarrow> n < 2 ^ 32 - 2 \<Longrightarrow> unat (bump_u32_id x) = Suc (Suc n)"
proof -
  assume x: "unat x = Suc n" "n < 2 ^ 32 - 2"
  then have s: "unat (x + 1) = Suc (Suc n)" by (simp add: unat_word_ariths)
  then have "1 \<le> x + 1" by (simp add: word_le_nat_alt)
  moreover have "x \<noteq> 0" using x(1) by auto
  ultimately show ?thesis using s by (simp add: bump_u32_id_def max_def)
qed

lemma timer_inv_schedule:
  assumes "timer_inv n q running" "n < 2 ^ 32 - 2"
  shows "timer_inv (Suc n) (snd (schedule_timer q now delay cb interval)) running"
proof -
  define q1 where "q1 = q\<lparr>next_id := bump_u32_id (next_id q)\<rparr>"
  define p where "p = push_timer q1 (sat_add64 now delay) (next_id q) (if interval then delay else 0) cb"
  have e: "snd (schedule_timer q now delay cb interval) = p" by (simp add: schedule_timer_def p_def q1_def Let_def)
  have inv: "heap_ok (heap q) (tails q)" "live q = card (dom (tails q))" "live q \<le> TIMER_CAP"
    "length (heap q) \<le> TIMER_CAP" "unat (next_id q) = Suc n" "\<forall>i \<in> set (ids (heap q)). i < next_id q"
    "case running of None \<Rightarrow> True | Some (k, _) \<Rightarrow> tk_id k < next_id q \<and> tk_id k \<notin> set (ids (heap q))"
    using assms(1) unfolding timer_inv_def by blast+
  have b: "unat (bump_u32_id (next_id q)) = Suc (Suc n)" by (rule bump_id [OF inv(5) assms(2)])
  have lt: "next_id q < bump_u32_id (next_id q)" using b inv(5) by (simp add: word_less_nat_alt)
  have fresh: "next_id q \<notin> set (ids (heap q))" using inv(6) by auto
  have q1: "heap q1 = heap q" "tails q1 = tails q" "live q1 = live q" "next_id q1 = bump_u32_id (next_id q)"
    by (simp_all add: q1_def)
  have p: "heap_ok (heap p) (tails p)" "live p = card (dom (tails p))" "live p \<le> TIMER_CAP"
    "length (heap p) \<le> TIMER_CAP" "set (ids (heap p)) \<subseteq> insert (next_id q) (set (ids (heap q)))"
    "next_id p = bump_u32_id (next_id q)"
    using push_timer_inv [of q1, unfolded q1, OF inv(1-4) fresh p_def] by blast+
  have "\<forall>i \<in> set (ids (heap p)). i < next_id p" using p(5,6) inv(6) lt by (auto intro: order.strict_trans)
  moreover have "case running of None \<Rightarrow> True | Some (k, _) \<Rightarrow> tk_id k < next_id p \<and> tk_id k \<notin> set (ids (heap p))"
    using inv(7) p(5,6) lt by (auto split: option.splits intro: order.strict_trans)
  ultimately show ?thesis using p b assms(2) unfolding timer_inv_def e by simp
qed

lemma timer_inv_unschedule:
  assumes "timer_inv n q running"
  shows "timer_inv n (unschedule tid q) running"
proof (cases "\<exists>i cb. tid = Some i \<and> tails q i = Some cb")
  case True
  then obtain i cb where i: "tid = Some i" "tails q i = Some cb" by blast
  have h: "heap_ok (heap q) (tails q)" "live q = card (dom (tails q))" using assms by (simp_all add: timer_inv_def)
  have "card (dom ((tails q)(i := None))) = card (dom (tails q)) - 1"
    using finite_tails [OF h(1)] i(2) by (simp add: card_Diff_singleton domI)
  moreover have "heap_ok (heap q) ((tails q)(i := None))" using h(1) by (auto simp: heap_ok_def)
  ultimately show ?thesis using assms i by (auto simp: timer_inv_def unschedule_def split: option.splits)
qed (use assms in \<open>auto simp: unschedule_def split: option.split\<close>)

lemma timer_inv_pop:
  assumes "timer_inv n q None"
  shows "timer_inv n (snd (pop_due now q)) (fst (pop_due now q))"
proof -
  obtain r h where pk: "pop_keys now (tails q) (heap q) = (r, h)" by fastforce
  from pop_keys_spec [OF this] obtain dead where dead: "list_all (\<lambda>k. tails q (tk_id k) = None \<and> due_us k \<le> now) dead"
    and c: "case r of None \<Rightarrow> heap q = dead @ h \<and> (h = [] \<or> now < due_us (hd h))
     | Some (k, cb) \<Rightarrow> heap q = dead @ k # h \<and> due_us k \<le> now \<and> tails q (tk_id k) = Some cb"
    by blast
  have inv: "heap_ok (heap q) (tails q)" "live q = card (dom (tails q))" "live q \<le> TIMER_CAP"
    "length (heap q) \<le> TIMER_CAP" "n \<le> 2 ^ 32 - 2" "unat (next_id q) = Suc n" "\<forall>i \<in> set (ids (heap q)). i < next_id q"
    using assms unfolding timer_inv_def by blast+
  have d: "list_all (\<lambda>k. tails q (tk_id k) = None) dead" using dead by (auto simp: list_all_iff)
  show ?thesis
  proof (cases r)
    case None
    then have h: "heap q = dead @ h" using c by simp
    have pd: "pop_due now q = (None, q\<lparr>heap := h\<rparr>)" using pk None by (simp add: pop_due_def)
    show ?thesis using inv heap_ok_drop [OF _ d, of h] unfolding pd h
      by (simp add: timer_inv_def ids_def)
  next
    case (Some kc)
    obtain k cb where kc: "kc = (k, cb)" by fastforce
    then have h: "heap q = dead @ k # h" "tails q (tk_id k) = Some cb" using c Some by simp_all
    have ok: "heap_ok (k # h) (tails q)" using heap_ok_drop [OF _ d, of "k # h"] inv(1) h(1) by simp
    have "card (dom ((tails q)(tk_id k := None))) = card (dom (tails q)) - 1"
      using finite_tails [OF inv(1)] h(2) by (simp add: card_Diff_singleton domI)
    moreover have "tk_id k \<notin> set (ids h)" using ok by (simp add: heap_ok_def ids_def)
    moreover have "pop_due now q =
        (Some (k, cb), q\<lparr>heap := h, tails := (tails q)(tk_id k := None), live := live q - 1\<rparr>)"
      using pk Some kc by (simp add: pop_due_def)
    ultimately show ?thesis using inv heap_ok_pop [OF ok] unfolding h
      by (simp add: timer_inv_def ids_def)
  qed
qed

lemma timer_inv_return:
  assumes "timer_inv n q (Some task)"
  shows "timer_inv n (requeue now alive task q) None"
proof -
  obtain k cb where t: "task = (k, cb)" by fastforce
  have inv: "heap_ok (heap q) (tails q)" "live q = card (dom (tails q))" "live q \<le> TIMER_CAP"
    "length (heap q) \<le> TIMER_CAP" "n \<le> 2 ^ 32 - 2" "unat (next_id q) = Suc n" "\<forall>i \<in> set (ids (heap q)). i < next_id q"
    "tk_id k < next_id q" "tk_id k \<notin> set (ids (heap q))"
    using assms unfolding timer_inv_def t by auto
  show ?thesis
  proof (cases "interval_us k \<noteq> 0 \<and> alive")
    case True
    define p where "p = push_timer q (sat_add64 now (interval_us k)) (tk_id k) (interval_us k) cb"
    have "requeue now alive task q = p" using True by (simp add: requeue_def t p_def)
    then show ?thesis
      using push_timer_inv [OF inv(1-4,9) p_def] inv by (auto simp: timer_inv_def)
  qed (use inv in \<open>auto simp: requeue_def t timer_inv_def\<close>)
qed

lemma timer_run_inv: "timer_run n q running \<Longrightarrow> timer_inv n q running"
proof (induction rule: timer_run.induct)
  case run_start
  then show ?case by (simp add: timer_inv_def timers_empty_def heap_ok_def ids_def)
qed (simp_all add: timer_inv_schedule timer_inv_unschedule timer_inv_pop timer_inv_return)


lemma now_quantized_mono: "vc_last_us clk \<le> fst (now_quantized t clk)"
  by (auto simp: now_quantized_def Let_def)

lemma clear_in_callback:
  assumes "timer_run n q None" "pop_due now q = (Some (k, cb), q')"
  shows "unschedule (Some (tk_id k)) q' = q'"
proof -
  have "tails q' (tk_id k) = None"
    using assms(2) by (auto simp: pop_due_def split: prod.splits option.splits)
  then show ?thesis by (simp add: unschedule_def)
qed

section \<open>Properties\<close>

text \<open>
  C14: Whatever sequence of schedules, cancellations, pops and returns of callbacks has happened, the
  number of live timers is the number of callbacks that are stored and at most the cap, the heap
  with its keys of cancelled timers stays within the cap too, no identifier is in it twice, and
  every live timer still has its key in it: no timer is lost.
\<close>

theorem timer_invariant:
  assumes "timer_run n q running"
  shows "live q = card (dom (tails q)) \<and> live q \<le> TIMER_CAP \<and> length (heap q) \<le> TIMER_CAP \<and>
    distinct (map tk_id (heap q)) \<and> dom (tails q) \<subseteq> tk_id ` set (heap q)"
  using timer_run_inv [OF assms] by (simp add: timer_inv_def heap_ok_def ids_def)

theorem timer_invariant_witness:
  "live (snd (schedule_timer timers_empty 5 10 ''f'' True)) = card (dom (tails (snd (schedule_timer timers_empty 5 10 ''f'' True))))"
proof -
  have "timer_run (Suc 0) (snd (schedule_timer timers_empty 5 10 ''f'' True)) None"
    by (rule run_schedule [OF run_start]) simp
  from timer_invariant [OF this] show ?thesis by blast
qed

text \<open>
  C15: The loop fires timers in order: what it takes next is a live timer that is due and no live
  timer comes before it by due time and, among equals, by age; the timer is no longer live while its
  callback runs. If it takes nothing, no live timer is due.
\<close>

theorem timer_pop_order:
  assumes "timer_run n q None"
  shows "case pop_due now q of
      (Some (k, cb), q') \<Rightarrow>
        tails q (tk_id k) = Some cb \<and> k \<in> set (heap q) \<and> due_us k \<le> now \<and>
        (\<forall>k' \<in> set (heap q). tails q (tk_id k') \<noteq> None \<longrightarrow> (due_us k, tk_seq k) \<le> (due_us k', tk_seq k')) \<and>
        tails q' = (tails q)(tk_id k := None)
    | (None, q') \<Rightarrow> tails q' = tails q \<and> (\<forall>k' \<in> set (heap q). tails q (tk_id k') \<noteq> None \<longrightarrow> now < due_us k')"
proof -
  obtain r h where pk: "pop_keys now (tails q) (heap q) = (r, h)" by fastforce
  from pop_keys_spec [OF this] obtain dead where dead: "list_all (\<lambda>k. tails q (tk_id k) = None \<and> due_us k \<le> now) dead"
    and c: "case r of None \<Rightarrow> heap q = dead @ h \<and> (h = [] \<or> now < due_us (hd h))
     | Some (k, cb) \<Rightarrow> heap q = dead @ k # h \<and> due_us k \<le> now \<and> tails q (tk_id k) = Some cb"
    by blast
  have so: "sorted (map key_order (heap q))"
    using timer_run_inv [OF assms] by (simp add: timer_inv_def heap_ok_def)
  have d: "tails q (tk_id k) = None" if "k \<in> set dead" for k using dead that by (simp add: list_all_iff)
  show ?thesis
  proof (cases r)
    case None
    then have h: "heap q = dead @ h" "h = [] \<or> now < due_us (hd h)" using c by simp_all
    have "now < due_us k'" if "k' \<in> set h" for k'
    proof -
      obtain x xs where x: "h = x # xs" using \<open>k' \<in> set h\<close> by (cases h) auto
      have "due_us x \<le> due_us k'"
        using so \<open>k' \<in> set h\<close> by (auto simp: h(1) x sorted_append key_order_def)
      then show ?thesis using h(2) x by simp
    qed
    then have "\<forall>k' \<in> set (heap q). tails q (tk_id k') \<noteq> None \<longrightarrow> now < due_us k'"
      using d unfolding h(1) by auto
    moreover have "pop_due now q = (None, q\<lparr>heap := h\<rparr>)" using pk None by (simp add: pop_due_def)
    ultimately show ?thesis by simp
  next
    case (Some kc)
    obtain k cb where kc: "kc = (k, cb)" by fastforce
    then have h: "heap q = dead @ k # h" "tails q (tk_id k) = Some cb" "due_us k \<le> now" using c Some by simp_all
    have "key_order k \<le> key_order k'" if "k' \<in> set (k # h)" for k'
      using so that by (auto simp: h(1) sorted_append)
    then have "\<forall>k' \<in> set (heap q). tails q (tk_id k') \<noteq> None \<longrightarrow> key_order k \<le> key_order k'"
      using d unfolding h(1) by auto
    moreover have "pop_due now q =
        (Some (k, cb), q\<lparr>heap := h, tails := (tails q)(tk_id k := None), live := live q - 1\<rparr>)"
      using pk Some kc by (simp add: pop_due_def)
    moreover have "k \<in> set (heap q)" by (simp add: h(1))
    ultimately show ?thesis using h(2,3) unfolding key_order_def by simp
  qed
qed

theorem timer_pop_order_witness:
  "fst (pop_due 100 (snd (schedule_timer (snd (schedule_timer timers_empty 5 20 ''late'' False)) 5 10 ''early'' False))) =
    Some (\<lparr>due_us = 15, tk_seq = 2, tk_id = 2, interval_us = 0\<rparr>, ''early'') \<and>
   tails (snd (pop_due 100 (snd (schedule_timer (snd (schedule_timer timers_empty 5 20 ''late'' False)) 5 10 ''early'' False)))) 2 = None"
proof -
  define q where "q = snd (schedule_timer (snd (schedule_timer timers_empty 5 20 ''late'' False)) 5 10 ''early'' False)"
  have "timer_run (Suc (Suc 0)) q None"
    unfolding q_def by (rule run_schedule [OF run_schedule [OF run_start]]) simp_all
  from timer_pop_order [OF this, of 100]
  have o: "case pop_due 100 q of (Some (k, cb), q') \<Rightarrow> tails q' = (tails q)(tk_id k := None) | (None, q') \<Rightarrow> True"
    by (auto split: prod.splits option.splits)
  have f: "fst (pop_due 100 q) = Some (\<lparr>due_us = 15, tk_seq = 2, tk_id = 2, interval_us = 0\<rparr>, ''early'')"
    by (simp add: q_def schedule_timer_def push_timer_def timers_empty_def sat_add64_def TIMER_CAP_def key_order_def
        bump_u32_id_def pop_due_def max_def word_le_nat_alt)
  then show ?thesis using o unfolding q_def by (auto split: prod.splits)
qed

end
