(* ===== verification/Solver.thy ===== *)
theory Solver
  imports Std_Text Encoding Pow_Digest
begin

text \<open>
  The entry points of the challenge solver: the algorithm names and the validation of a challenge
  (\<open>crates/challenge-solver/src/lib.rs\<close>), the envelope decoder (\<open>decode.rs\<close>) and the parser of Anubis
  challenges with the URL of their answer (\<open>anubis.rs\<close>). The base64 engine, the substring search and
  the arena allocator are arguments; an outer None is a panic.
\<close>

section \<open>Challenges\<close>

datatype algorithm = Alg_Sha256 | Alg_HmacSha256 | Alg_Argon2 | Alg_HashChain

definition algorithm_parse :: "string \<Rightarrow> algorithm option" where
  "algorithm_parse s =
     (if s \<in> {''fast'', ''sha256'', ''sha-256''} then Some Alg_Sha256
      else if s \<in> {''hmac-sha256'', ''hmac''} then Some Alg_HmacSha256
      else if s \<in> {''argon2'', ''argon2id''} then Some Alg_Argon2
      else if s \<in> {''hash-chain'', ''chain''} then Some Alg_HashChain
      else None)"

definition algorithm_name :: "algorithm \<Rightarrow> string" where
  "algorithm_name a = (case a of Alg_Sha256 \<Rightarrow> ''fast'' | Alg_HmacSha256 \<Rightarrow> ''hmac-sha256''
     | Alg_Argon2 \<Rightarrow> ''argon2id'' | Alg_HashChain \<Rightarrow> ''hash-chain'')"

record challenge =
  ch_algorithm :: algorithm
  ch_salt :: string
  ch_key :: string
  ch_difficulty :: nat
  ch_rounds :: nat
  ch_mem_cost :: nat
  ch_time_cost :: nat
  ch_threads :: nat

definition MAX_MEM_COST :: nat where "MAX_MEM_COST = 64 * 1024"

datatype challenge_error = MemCostExceeded | TimeCost | Threads

definition validate :: "challenge \<Rightarrow> challenge_error + unit" where
  "validate ch =
     (if MAX_MEM_COST < ch_mem_cost ch then Inl MemCostExceeded
      else if ch_time_cost ch = 0 \<or> 64 < ch_time_cost ch then Inl TimeCost
      else if ch_threads ch = 0 \<or> 64 < ch_threads ch then Inl Threads
      else Inr ())"

text \<open>The dispatch, over the four searches.\<close>

record searches =
  run_pow :: "string \<Rightarrow> nat \<Rightarrow> nat \<Rightarrow> (nat \<times> bytes) option"
  run_hmac :: "string \<Rightarrow> string \<Rightarrow> nat \<Rightarrow> nat \<Rightarrow> (nat \<times> bytes) option"
  run_argon :: "string \<Rightarrow> nat \<Rightarrow> nat \<Rightarrow> nat \<Rightarrow> nat \<Rightarrow> (nat \<times> bytes) option"
  run_chain :: "string \<Rightarrow> nat \<Rightarrow> nat \<Rightarrow> nat \<Rightarrow> (nat \<times> bytes) option"

definition solve_challenge :: "searches \<Rightarrow> challenge \<Rightarrow> (nat \<times> bytes) option" where
  "solve_challenge f ch =
     (case validate ch of
        Inl _ \<Rightarrow> None
      | Inr _ \<Rightarrow>
          (case ch_algorithm ch of
             Alg_Sha256 \<Rightarrow> run_pow f (ch_salt ch) (ch_difficulty ch) (ch_threads ch)
           | Alg_HmacSha256 \<Rightarrow> run_hmac f (ch_key ch) (ch_salt ch) (ch_difficulty ch) (ch_threads ch)
           | Alg_Argon2 \<Rightarrow> run_argon f (ch_salt ch) (ch_difficulty ch) (ch_mem_cost ch) (ch_time_cost ch) (ch_threads ch)
           | Alg_HashChain \<Rightarrow> run_chain f (ch_salt ch) (ch_rounds ch) (ch_difficulty ch) (ch_threads ch)))"

section \<open>The deadline watch\<close>

record watch =
  w_abort :: bool
  w_active :: bool
  w_deadline_ms :: nat

definition watch_init :: watch where
  "watch_init = \<lparr>w_abort = False, w_active = False, w_deadline_ms = 0\<rparr>"

definition watch_check :: "nat \<Rightarrow> watch \<Rightarrow> watch" where
  "watch_check now w =
     (if \<not> w_active w then w
      else if w_deadline_ms w \<noteq> 0 \<and> w_deadline_ms w \<le> now then w\<lparr>w_abort := True, w_active := False\<rparr>
      else w)"

definition watch_fired :: "nat \<Rightarrow> watch \<Rightarrow> bool \<times> watch" where
  "watch_fired now w = (let w = watch_check now w in (w_abort w, w))"

definition watch_arm :: "nat \<Rightarrow> watch" where
  "watch_arm dl = \<lparr>w_abort = False, w_active = True, w_deadline_ms = dl\<rparr>"

definition watch_disarm :: "watch \<Rightarrow> watch" where
  "watch_disarm w = w\<lparr>w_active := False\<rparr>"

text \<open>A timed-out search leaves the flag set: a later search with no deadline sees it at once.\<close>

lemma watch_stays_fired:
  assumes "dl \<noteq> 0" "dl \<le> now"
  shows "fst (watch_fired later (watch_disarm (snd (watch_fired now (watch_arm dl)))))"
  using assms by (simp add: watch_fired_def watch_check_def watch_arm_def watch_disarm_def)

section \<open>Envelopes\<close>



datatype task_kind = Task_Pow | Task_Slider | Task_Unknown


definition task_kind_label :: "task_kind \<Rightarrow> string" where
  "task_kind_label k = (case k of Task_Pow \<Rightarrow> ''pow'' | Task_Slider \<Rightarrow> ''slider'' | Task_Unknown \<Rightarrow> ''unknown'')"




section \<open>Anubis challenges\<close>

text \<open>
  The scan of \<open>object_span\<close> from the first brace on: depth, inside a string, after a backslash, index.
  The depth is at most the length of the input, so its 32 bits suffice below \<open>2 ^ 31\<close> bytes.
\<close>

fun obj_scan :: "int \<Rightarrow> bool \<Rightarrow> bool \<Rightarrow> nat \<Rightarrow> string \<Rightarrow> nat option" where
  "obj_scan depth in_str esc i [] = None"
| "obj_scan depth in_str esc i (c # s) =
     (if in_str then
        (if esc then obj_scan depth True False (i + 1) s
         else if c = CHR 0x5C then obj_scan depth True True (i + 1) s
         else if c = CHR 0x22 then obj_scan depth False esc (i + 1) s
         else obj_scan depth True esc (i + 1) s)
      else if c = CHR 0x22 then obj_scan depth True esc (i + 1) s
      else if c = CHR ''{'' then obj_scan (depth + 1) False esc (i + 1) s
      else if c = CHR ''}'' then
        (if depth - 1 = 0 then Some i else obj_scan (depth - 1) False esc (i + 1) s)
      else obj_scan depth False esc (i + 1) s)"

definition object_span :: "string \<Rightarrow> string option" where
  "object_span b =
     (case byte_find ((=) (CHR ''{'')) b of
        None \<Rightarrow> None
      | Some start \<Rightarrow> map_option (\<lambda>i. take (i + 1 - start) (drop start b)) (obj_scan 0 False False start (drop start b)))"

datatype anubis_error = Parse_Algorithm | Parse_Difficulty | Parse_Id | Parse_RandomData

record anubis_challenge =
  an_id :: string
  an_random_data :: string
  an_difficulty :: nat
  an_algorithm :: algorithm

definition anubis_scope :: "finder \<Rightarrow> string \<Rightarrow> string" where
  "anubis_scope mm json =
     (case mm json ''\"challenge\":'' of
        None \<Rightarrow> json
      | Some p \<Rightarrow>
          let rest = drop (p + length ''\"challenge\":'') json
          in case object_span rest of Some o' \<Rightarrow> o' | None \<Rightarrow> rest)"

definition anubis_parse :: "finder \<Rightarrow> string \<Rightarrow> (anubis_error + anubis_challenge) option" where
  "anubis_parse mm json =
     (let scope = anubis_scope mm json;
          alg_bytes = (case find_quoted mm scope ''\"method\":\"'' of
                         Some b \<Rightarrow> Some b | None \<Rightarrow> find_quoted mm scope ''\"algorithm\":\"'')
      in case (case alg_bytes of Some b \<Rightarrow> algorithm_parse b | None \<Rightarrow> Some Alg_Sha256) of
        None \<Rightarrow> Some (Inl Parse_Algorithm)
      | Some alg \<Rightarrow>
          (case find_quoted mm scope ''\"randomData\":\"'' of
             None \<Rightarrow> Some (Inl Parse_RandomData)
           | Some rd \<Rightarrow>
               if rd = [] \<or> 1024 < length rd then Some (Inl Parse_RandomData)
               else case find_quoted mm scope ''\"id\":\"'' of
                 None \<Rightarrow> Some (Inl Parse_Id)
               | Some cid \<Rightarrow>
                   if cid = [] \<or> 64 < length cid then Some (Inl Parse_Id)
                   else case find_u32 mm scope ''\"difficulty\":'' of
                     None \<Rightarrow> None
                   | Some None \<Rightarrow> Some (Inl Parse_Difficulty)
                   | Some (Some d) \<Rightarrow>
                       if d = 0 \<or> 16 < d then Some (Inl Parse_Difficulty)
                       else Some (Inr \<lparr>an_id = cid, an_random_data = rd, an_difficulty = d, an_algorithm = alg\<rparr>)))"

definition CHALLENGE_ROUNDS :: nat where "CHALLENGE_ROUNDS = 2"
definition CHALLENGE_MEM_COST :: nat where "CHALLENGE_MEM_COST = 8"
definition CHALLENGE_TIME_COST :: nat where "CHALLENGE_TIME_COST = 1"

definition to_challenge :: "anubis_challenge \<Rightarrow> nat \<Rightarrow> challenge" where
  "to_challenge a threads =
     \<lparr>ch_algorithm = an_algorithm a, ch_salt = an_random_data a, ch_key = [], ch_difficulty = an_difficulty a,
      ch_rounds = CHALLENGE_ROUNDS, ch_mem_cost = CHALLENGE_MEM_COST, ch_time_cost = CHALLENGE_TIME_COST,
      ch_threads = threads\<rparr>"

text \<open>The texts of floating-point numbers are arguments of the two printers.\<close>

definition answer_json :: "nat \<Rightarrow> string \<Rightarrow> string \<Rightarrow> nat \<Rightarrow> nat \<Rightarrow> string \<Rightarrow> string" where
  "answer_json nonce response_hex elapsed_text start_ms end_ms out =
     out @ ''{\"nonce\":'' @ dec nonce @ '',\"response\":\"'' @ response_hex @ ''\",\"elapsedTime\":'' @ elapsed_text @
     '',\"startMs\":'' @ dec start_ms @ '',\"endMs\":'' @ dec end_ms @ ''}''"

definition trim_end_matches :: "char \<Rightarrow> string \<Rightarrow> string" where
  "trim_end_matches c s = rev (dropWhile ((=) c) (rev s))"

definition build_pass_url ::
  "string \<Rightarrow> string \<Rightarrow> string \<Rightarrow> nat \<Rightarrow> string \<Rightarrow> string \<Rightarrow> string \<Rightarrow> string" where
  "build_pass_url origin cid response_hex nonce elapsed_text redir out =
     out @ trim_end_matches (CHR ''/'') origin @ ''/.within.website/x/cmd/anubis/api/pass-challenge'' @
     ''?id='' @ percent_encode_compact cid @ ''&response='' @ response_hex @ ''&nonce='' @ dec nonce @
     ''&redir='' @ percent_encode_compact redir @ ''&elapsedTime='' @ elapsed_text"

section \<open>Objects\<close>

text \<open>
  Text inside quotes: no quote but after a backslash; and the text between braces: other characters,
  quoted strings with any braces in them, and nested objects.
\<close>

inductive quoted_body :: "string \<Rightarrow> bool" where
  quoted_nil: "quoted_body []"
| quoted_char: "c \<noteq> CHR 0x22 \<Longrightarrow> c \<noteq> CHR 0x5C \<Longrightarrow> quoted_body s \<Longrightarrow> quoted_body (c # s)"
| quoted_esc: "quoted_body s \<Longrightarrow> quoted_body (CHR 0x5C # c # s)"

inductive object_body :: "string \<Rightarrow> bool" where
  body_nil: "object_body []"
| body_char: "c \<noteq> CHR 0x22 \<Longrightarrow> c \<noteq> CHR ''{'' \<Longrightarrow> c \<noteq> CHR ''}'' \<Longrightarrow> object_body s \<Longrightarrow> object_body (c # s)"
| body_string: "quoted_body q \<Longrightarrow> object_body s \<Longrightarrow> object_body (CHR 0x22 # q @ CHR 0x22 # s)"
| body_object: "object_body b \<Longrightarrow> object_body s \<Longrightarrow> object_body (CHR ''{'' # b @ CHR ''}'' # s)"

lemma obj_scan_quoted:
  "quoted_body q \<Longrightarrow> obj_scan d True False i (q @ CHR 0x22 # r) = obj_scan d False False (i + length q + 1) r"
  by (induction arbitrary: i rule: quoted_body.induct) simp_all

lemma obj_scan_body:
  "object_body b \<Longrightarrow> 0 < d \<Longrightarrow> obj_scan d False False i (b @ r) = obj_scan d False False (i + length b) r"
proof (induction arbitrary: d i r rule: object_body.induct)
  case (body_string q s)
  then show ?case using obj_scan_quoted [OF body_string(1)] by (simp add: ac_simps)
next
  case (body_object b s)
  then show ?case by (simp add: ac_simps)
qed simp_all

lemma object_span_body:
  assumes "CHR ''{'' \<notin> set pre" "object_body b"
  shows "object_span (pre @ CHR ''{'' # b @ CHR ''}'' # post) = Some (CHR ''{'' # b @ ''}'')"
proof -
  have "byte_find ((=) (CHR ''{'')) (pre @ CHR ''{'' # b @ CHR ''}'' # post) = Some (length pre)"
    by (rule byte_find_append) (use assms(1) in auto)
  then show ?thesis using obj_scan_body [OF assms(2), of 1] by (simp add: object_span_def)
qed





section \<open>Properties\<close>



text \<open>
  C17: The parser of Anubis challenges reads the fields of the object after the first \<open>challenge\<close> key
  and of nothing else: braces in strings, escaped quotes and nested objects do not end it early, and
  what follows the object, or precedes it without that key, has no influence.
\<close>

theorem anubis_scope_object:
  assumes "finds_first mm" "object_body b" "CHR ''{'' \<notin> set pre"
    "json = a @ ''\"challenge\":'' @ pre @ CHR ''{'' # b @ CHR ''}'' # post"
    "\<not> (\<exists>i < length a. occurs_at json ''\"challenge\":'' i)"
  shows "anubis_scope mm json = CHR ''{'' # b @ ''}''"
proof -
  have mm: "mm = str_find" by (rule finds_first_unique [OF assms(1)])
  have o: "occurs_at json ''\"challenge\":'' (length a)" by (simp add: assms(4) occurs_at_def)
  then obtain p where p: "str_find json ''\"challenge\":'' = Some p"
    using str_find_NoneD by (cases "str_find json ''\"challenge\":''") blast+
  have "p = length a"
    using str_find_SomeD [OF p] o assms(5) by (meson linorder_neqE_nat)
  then show ?thesis using p object_span_body [OF assms(3,2), of post]
    by (simp add: anubis_scope_def mm assms(4))
qed

theorem anubis_scope_object_witness:
  "anubis_scope str_find ''{\"challenge\": {\"id\":\"}x\"} ,\"id\":\"y\"}'' = ''{\"id\":\"}x\"}''"
proof -
  have b: "object_body ''\"id\":\"}x\"''"
    using body_string [OF quoted_char [OF _ _ quoted_char [OF _ _ quoted_nil]]
        body_char [OF _ _ _ body_string [OF quoted_char [OF _ _ quoted_char [OF _ _ quoted_nil]] body_nil]],
        of "CHR ''i''" "CHR ''d''" "CHR '':''" "CHR ''}''" "CHR ''x''"] by simp
  show ?thesis
    by (rule anubis_scope_object [OF str_find_finds_first b, of "'' ''" _ "''{''" "'' ,\"id\":\"y\"}''", simplified])
      (simp_all add: occurs_at_0)
qed

end
