(* ===== verification/Answer_Cache.thy ===== *)
theory Answer_Cache
  imports Prelude
begin

text \<open>
  The ring of slider answers of \<open>crates/challenge-solver/src/cache.rs\<close>: one slot per masked key, a
  slot being two atomics that are written one after the other. The hash of a payload and the slider
  search are arguments.
\<close>

section \<open>The ring\<close>

record slot =
  sl_key :: u64
  sl_xy :: u64

record answer_cache =
  ac_slots :: "slot list"
  ac_mask :: nat
  ac_len :: nat

function next_power_of_two :: "nat \<Rightarrow> nat \<Rightarrow> nat" where
  "next_power_of_two n p = (if n \<le> p \<or> p = 0 then p else next_power_of_two n (2 * p))"
  by pat_completeness auto
termination by (relation "measure (\<lambda>(n, p). n - p)") auto

declare next_power_of_two.simps [simp del]

definition cache_new :: "nat \<Rightarrow> answer_cache" where
  "cache_new cap =
     (let pow = next_power_of_two (max cap 64) 1
      in \<lparr>ac_slots = replicate pow \<lparr>sl_key = 0, sl_xy = 0\<rparr>, ac_mask = pow - 1, ac_len = 0\<rparr>)"

text \<open>The mask is one less than a power of two, so masking is the remainder.\<close>

definition slot_of :: "answer_cache \<Rightarrow> u64 \<Rightarrow> nat" where
  "slot_of c key = unat key mod Suc (ac_mask c)"

definition pack_xy :: "u32 \<Rightarrow> u32 \<Rightarrow> u64" where
  "pack_xy x y = or (push_bit 32 (ucast x)) (ucast y)"

definition unpack_xy :: "u64 \<Rightarrow> u32 \<times> u32" where
  "unpack_xy xy = (ucast (drop_bit 32 xy), ucast xy)"

text \<open>Both operations with no other thread in between.\<close>

definition cache_lookup :: "answer_cache \<Rightarrow> u64 \<Rightarrow> (u32 \<times> u32) option" where
  "cache_lookup c key =
     (let slot = ac_slots c ! slot_of c key
      in if sl_key slot \<noteq> key then None else Some (unpack_xy (sl_xy slot)))"

definition cache_record :: "u64 \<Rightarrow> u32 \<Rightarrow> u32 \<Rightarrow> answer_cache \<Rightarrow> answer_cache" where
  "cache_record key x y c =
     (let i = slot_of c key; old_key = sl_key (ac_slots c ! i)
      in if old_key = key then c
         else c\<lparr>ac_len := ac_len c + (if old_key = 0 then 1 else 0),
                ac_slots := (ac_slots c)[i := \<lparr>sl_key = key, sl_xy = pack_xy x y\<rparr>]\<rparr>)"

definition cache_len :: "answer_cache \<Rightarrow> nat" where
  "cache_len c = ac_len c"

datatype outcome_kind = Computed u64 | CacheHit

record slider_outcome =
  so_x :: u32
  so_y :: u32
  so_kind :: outcome_kind

text \<open>The search gives the position and its distance; the new cache comes with the result.\<close>

definition solve_with_cache ::
  "(string \<Rightarrow> u64) \<Rightarrow> ('e + u32 \<times> u32 \<times> u64) \<Rightarrow> string \<Rightarrow> answer_cache \<Rightarrow> ('e + slider_outcome) \<times> answer_cache" where
  "solve_with_cache key_of search payload c =
     (let key = key_of payload
      in case cache_lookup c key of
           Some (x, y) \<Rightarrow> (Inr \<lparr>so_x = x, so_y = y, so_kind = CacheHit\<rparr>, c)
         | None \<Rightarrow>
             (case search of
                Inl e \<Rightarrow> (Inl e, c)
              | Inr (x, y, ssd) \<Rightarrow> (Inr \<lparr>so_x = x, so_y = y, so_kind = Computed ssd\<rparr>, cache_record key x y c)))"

section \<open>Soundness\<close>

lemma unpack_pack: "unpack_xy (pack_xy x y) = (x, y)"
proof -
  have "ucast (drop_bit 32 (pack_xy x y)) = x"
    by (rule bit_word_eqI) (auto simp: pack_xy_def bit_simps dest: bit_imp_le_length)
  moreover have "ucast (pack_xy x y) = y"
    by (rule bit_word_eqI) (auto simp: pack_xy_def bit_simps)
  ultimately show ?thesis by (simp add: unpack_xy_def)
qed

definition ring_ok :: "(u64 \<times> u32 \<times> u32) set \<Rightarrow> answer_cache \<Rightarrow> bool" where
  "ring_ok R c \<longleftrightarrow> length (ac_slots c) = Suc (ac_mask c) \<and>
     (\<forall>s \<in> set (ac_slots c). sl_key s \<noteq> 0 \<longrightarrow> (sl_key s, unpack_xy (sl_xy s)) \<in> R)"

lemma next_power_of_two_pos: "0 < p \<Longrightarrow> 0 < next_power_of_two n p"
  by (induction n p rule: next_power_of_two.induct) (subst next_power_of_two.simps, auto)

lemma ring_ok_new: "ring_ok {} (cache_new cap)"
  using next_power_of_two_pos [of 1 "max cap 64"] by (auto simp: ring_ok_def cache_new_def Let_def)

lemma slot_in_ring: "ring_ok R c \<Longrightarrow> slot_of c key < length (ac_slots c)"
  by (simp add: ring_ok_def slot_of_def)




section \<open>Two threads\<close>

text \<open>
  The loads of a look-up and the stores of a record as steps of their own: a look-up that reads its
  key before a record of another key in the same slot, and the position after it, returns the
  position of the other key.
\<close>

definition store_xy :: "u64 \<Rightarrow> u32 \<Rightarrow> u32 \<Rightarrow> slot \<Rightarrow> slot" where
  "store_xy key x y s = (if sl_key s = key then s else s\<lparr>sl_xy := pack_xy x y\<rparr>)"

definition store_key :: "u64 \<Rightarrow> slot \<Rightarrow> slot" where
  "store_key key s = s\<lparr>sl_key := key\<rparr>"

definition key_seen :: "u64 \<Rightarrow> slot \<Rightarrow> bool" where
  "key_seen key s = (sl_key s = key)"

lemma torn_lookup:
  assumes "sl_key s = k" "k \<noteq> k'"
  shows "key_seen k s \<and> unpack_xy (sl_xy (store_xy k' x y s)) = (x, y) \<and> key_seen k (store_xy k' x y s)"
  using assms by (simp add: key_seen_def store_xy_def unpack_pack)

lemma empty_slot_hit: "cache_lookup (cache_new cap) 0 = Some (0, 0)"
proof -
  have "slot_of (cache_new cap) 0 < length (ac_slots (cache_new cap))"
    by (rule slot_in_ring [OF ring_ok_new])
  then show ?thesis by (simp add: cache_lookup_def cache_new_def Let_def unpack_xy_def)
qed

section \<open>Properties\<close>



end
