(* ===== verification/Query.thy ===== *)
theory Query
  imports Std_Text Encoding
begin

text \<open>
  The selector engine of \<open>crates/runtime-exec/src/query.rs\<close>: the parser of selectors, the matching of a
  node against a chain of compounds and the collection of matches. The document is a record of the
  functions of \<open>webidl.rs\<close> that the engine calls; the walk up the parents is a partial function, since
  nothing in the engine itself bounds it.
\<close>

section \<open>Selectors\<close>

datatype part_kind = Tag | Id | Class | Attr | AttrEq

record part =
  pt_kind :: part_kind
  pt_value :: string
  pt_value2 :: string

datatype combinator = Descendant | Child

type_synonym compound = "part list"
type_synonym selector = "(compound \<times> combinator) list"

definition RESULT_CAP :: nat where "RESULT_CAP = 256"

section \<open>Parsing\<close>

definition is_name_byte :: "char \<Rightarrow> bool" where
  "is_name_byte b = (is_alnum b \<or> b = CHR ''-'' \<or> b = CHR ''_'' \<or> b = CHR '':'')"

text \<open>The name at the front and what follows it.\<close>

definition take_name :: "string \<Rightarrow> (string \<times> string) option" where
  "take_name s =
     (let name = takeWhile is_name_byte s
      in if name = [] then None else Some (name, dropWhile is_name_byte s))"

definition unquote :: "string \<Rightarrow> string" where
  "unquote v =
     (if 2 \<le> length v \<and> (hd v = CHR 0x22 \<and> last v = CHR 0x22 \<or> hd v = CHR 0x27 \<and> last v = CHR 0x27)
      then butlast (tl v) else v)"

definition attr_part :: "string \<Rightarrow> part option" where
  "attr_part inner =
     (case split_once (CHR ''='') inner of
        Some (n, v) \<Rightarrow>
          let name = trim_ws n; v = unquote (trim_ws v)
          in if name = [] then None else Some \<lparr>pt_kind = AttrEq, pt_value = name, pt_value2 = v\<rparr>
      | None \<Rightarrow>
          let name = trim_ws inner
          in if name = [] then None else Some \<lparr>pt_kind = Attr, pt_value = name, pt_value2 = []\<rparr>)"

lemma take_name_length: "take_name s = Some (name, r) \<Longrightarrow> length r < length s"
  using length_dropWhile_le [of is_name_byte "tl s"]
  by (cases s) (auto simp: take_name_def Let_def split: if_splits)

lemma split_once_length: "split_once c s = Some (a, b) \<Longrightarrow> length b < length s"
  by (auto simp: split_once_Some)

function compound_parts :: "string \<Rightarrow> part list \<Rightarrow> part list option" where
  "compound_parts [] parts = Some parts"
| "compound_parts (c # s) parts =
     (if c = CHR ''#'' then
        (case take_name s of
           None \<Rightarrow> None
         | Some (name, r) \<Rightarrow> compound_parts r (parts @ [\<lparr>pt_kind = Id, pt_value = name, pt_value2 = []\<rparr>]))
      else if c = CHR ''.'' then
        (case take_name s of
           None \<Rightarrow> None
         | Some (name, r) \<Rightarrow> compound_parts r (parts @ [\<lparr>pt_kind = Class, pt_value = name, pt_value2 = []\<rparr>]))
      else if c = CHR ''['' then
        (case split_once (CHR '']'') s of
           None \<Rightarrow> None
         | Some (inner, r) \<Rightarrow>
             (case attr_part inner of None \<Rightarrow> None | Some p \<Rightarrow> compound_parts r (parts @ [p])))
      else
        (case take_name (c # s) of
           None \<Rightarrow> None
         | Some (name, r) \<Rightarrow> compound_parts r (\<lparr>pt_kind = Tag, pt_value = name, pt_value2 = []\<rparr> # parts)))"
  by pat_completeness auto

termination
  by (relation "measure (\<lambda>(s, _). length s)") (auto dest!: take_name_length split_once_length)

definition parse_compound :: "string \<Rightarrow> compound option" where
  "parse_compound s =
     (case compound_parts s [] of None \<Rightarrow> None | Some parts \<Rightarrow> if parts = [] then None else Some parts)"

text \<open>\<open>str::split_whitespace\<close>: the runs between white space, empty ones left out.\<close>

function split_ws :: "string \<Rightarrow> string \<Rightarrow> string list" where
  "split_ws run [] = (if run = [] then [] else [run])"
| "split_ws run (c # s) =
     (case find (\<lambda>w. w \<noteq> [] \<and> prefix w (c # s)) white_space of
        Some w \<Rightarrow> (if run = [] then [] else [run]) @ split_ws [] (drop (length w - 1) s)
      | None \<Rightarrow> split_ws (run @ [c]) s)"
  by pat_completeness auto
termination by (relation "measure (\<lambda>(_, s). length s)") auto

fun parse_segs :: "string list \<Rightarrow> bool \<Rightarrow> bool \<Rightarrow> selector option" where
  "parse_segs [] direct seen = Some []"
| "parse_segs (seg # segs) direct seen =
     (if seg = ''>'' then (if \<not> seen then None else parse_segs segs True seen)
      else if list_ex (\<lambda>c. c = CHR '','' \<or> c = CHR ''+'' \<or> c = CHR ''~'' \<or> c = CHR ''*'') seg then None
      else case parse_compound seg of
        None \<Rightarrow> None
      | Some cp \<Rightarrow>
          let (comb, direct) =
            (if \<not> seen then (Descendant, direct) else if direct then (Child, False) else (Descendant, direct))
          in map_option (\<lambda>chain. (cp, comb) # chain) (parse_segs segs direct True))"

definition parse_selector :: "string \<Rightarrow> selector option" where
  "parse_selector q =
     (let q = trim_ws q
      in if q = [] \<or> 256 < length q then None
         else case parse_segs (split_ws [] q) False False of
           None \<Rightarrow> None | Some chain \<Rightarrow> if chain = [] then None else Some chain)"

section \<open>Matching\<close>

record view =
  v_parent :: "nat \<Rightarrow> nat option"
  v_tag_ci :: "nat \<Rightarrow> string \<Rightarrow> bool"
  v_attr_eq :: "nat \<Rightarrow> string \<Rightarrow> string \<Rightarrow> bool"
  v_attr_is_some :: "nat \<Rightarrow> string \<Rightarrow> bool"
  v_attr_word :: "nat \<Rightarrow> string \<Rightarrow> string \<Rightarrow> bool"
  v_elements :: "nat list"
  v_subtree :: "nat \<Rightarrow> nat list"

definition match_part :: "view \<Rightarrow> nat \<Rightarrow> part \<Rightarrow> bool" where
  "match_part v node p =
     (case pt_kind p of
        Tag \<Rightarrow> v_tag_ci v node (pt_value p)
      | Id \<Rightarrow> v_attr_eq v node ''id'' (pt_value p)
      | Class \<Rightarrow> v_attr_word v node ''class'' (pt_value p)
      | Attr \<Rightarrow> v_attr_is_some v node (pt_value p)
      | AttrEq \<Rightarrow> v_attr_eq v node (pt_value p) (pt_value2 p))"

definition match_compound :: "view \<Rightarrow> nat \<Rightarrow> compound \<Rightarrow> bool" where
  "match_compound v node c = list_all (match_part v node) c"

text \<open>
  \<open>chain_ok\<close> and its loop over the ancestors in one function: \<open>walking\<close> says that the node is one of the
  loop, which goes on to the parent when the chain does not match here.
\<close>

partial_function (option) chain_run :: "view \<Rightarrow> selector \<Rightarrow> bool \<Rightarrow> nat \<Rightarrow> nat option \<Rightarrow> bool option" where
  "chain_run v sel walking depth cur =
     (case cur of
        None \<Rightarrow> Some False
      | Some node \<Rightarrow>
          Option.bind
            (if \<not> match_compound v node (fst (sel ! depth)) then Some False
             else if depth = 0 then Some True
             else case snd (sel ! depth) of
               Child \<Rightarrow> chain_run v sel False (depth - 1) (v_parent v node)
             | Descendant \<Rightarrow> chain_run v sel True (depth - 1) (v_parent v node))
            (\<lambda>ok. if walking \<and> \<not> ok then chain_run v sel True depth (v_parent v node) else Some ok))"

definition chain_ok :: "view \<Rightarrow> nat \<Rightarrow> selector \<Rightarrow> nat \<Rightarrow> bool option" where
  "chain_ok v node sel depth = chain_run v sel False depth (Some node)"

fun collect_matches :: "view \<Rightarrow> selector \<Rightarrow> nat list \<Rightarrow> nat list \<Rightarrow> nat list option" where
  "collect_matches v sel [] out = Some out"
| "collect_matches v sel (n # ns) out =
     (case chain_ok v n sel (length sel - 1) of
        None \<Rightarrow> None
      | Some True \<Rightarrow> let out = out @ [n] in if RESULT_CAP \<le> length out then Some out else collect_matches v sel ns out
      | Some False \<Rightarrow> collect_matches v sel ns out)"

text \<open>The outer option is None when a walk does not end, the inner one when the query does not parse.\<close>

definition select_all_view :: "view \<Rightarrow> selector \<Rightarrow> nat list option" where
  "select_all_view v sel = collect_matches v sel (v_elements v) []"

definition select_all :: "view \<Rightarrow> string \<Rightarrow> nat list option option" where
  "select_all v query =
     (case parse_selector query of None \<Rightarrow> Some None | Some sel \<Rightarrow> map_option Some (select_all_view v sel))"

definition select_all_under_view :: "view \<Rightarrow> nat \<Rightarrow> string \<Rightarrow> nat list option option" where
  "select_all_under_view v root query =
     (case parse_selector query of None \<Rightarrow> Some None
      | Some sel \<Rightarrow> map_option Some (collect_matches v sel (v_subtree v root) []))"

definition select_first :: "view \<Rightarrow> string \<Rightarrow> nat option option" where
  "select_first v query =
     map_option (\<lambda>r. case r of Some (n # _) \<Rightarrow> Some n | _ \<Rightarrow> None) (select_all v query)"

fun scan_tag :: "view \<Rightarrow> string \<Rightarrow> nat \<Rightarrow> nat list \<Rightarrow> nat list \<Rightarrow> nat list" where
  "scan_tag v tag cap [] out = out"
| "scan_tag v tag cap (n # ns) out =
     (if cap \<le> length out then out
      else scan_tag v tag cap ns (if v_tag_ci v n tag then out @ [n] else out))"

definition collect_by_tag :: "view \<Rightarrow> string \<Rightarrow> nat list \<Rightarrow> nat list" where
  "collect_by_tag v tag out =
     (if RESULT_CAP \<le> length out then out else scan_tag v tag RESULT_CAP (v_elements v) out)"

section \<open>What a selector selects\<close>

definition parents :: "view \<Rightarrow> (nat \<times> nat) set" where
  "parents v = {(p, n). v_parent v n = Some p}"

fun selects :: "view \<Rightarrow> selector \<Rightarrow> nat \<Rightarrow> nat \<Rightarrow> bool" where
  "selects v sel 0 n \<longleftrightarrow> match_compound v n (fst (sel ! 0))"
| "selects v sel (Suc d) n \<longleftrightarrow> match_compound v n (fst (sel ! Suc d)) \<and>
     (case snd (sel ! Suc d) of
        Child \<Rightarrow> \<exists>p. (p, n) \<in> parents v \<and> selects v sel d p
      | Descendant \<Rightarrow> \<exists>a. (a, n) \<in> (parents v)\<^sup>+ \<and> selects v sel d a)"

lemma chain_run_None: "chain_run v sel walking depth None = Some False"
  by (simp add: chain_run.simps [of v sel walking depth None])

text \<open>The ancestors of a node, itself included, that a walk from it meets.\<close>

definition some_above :: "view \<Rightarrow> selector \<Rightarrow> nat \<Rightarrow> nat option \<Rightarrow> bool" where
  "some_above v sel d cur \<longleftrightarrow> (case cur of None \<Rightarrow> False | Some n \<Rightarrow> \<exists>a. (a, n) \<in> (parents v)\<^sup>* \<and> selects v sel d a)"

lemma some_above_step:
  "some_above v sel d (Some n) \<longleftrightarrow> selects v sel d n \<or> some_above v sel d (v_parent v n)"
proof -
  have "(a, n) \<in> (parents v)\<^sup>* \<longleftrightarrow> a = n \<or> (\<exists>p. v_parent v n = Some p \<and> (a, p) \<in> (parents v)\<^sup>*)" for a
    by (subst rtrancl.simps) (auto simp: parents_def)
  then show ?thesis by (auto simp: some_above_def split: option.split)
qed

lemma some_above_parent:
  "some_above v sel d (v_parent v n) \<longleftrightarrow> (\<exists>a. (a, n) \<in> (parents v)\<^sup>+ \<and> selects v sel d a)"
proof -
  have "(a, n) \<in> (parents v)\<^sup>+ \<longleftrightarrow> (\<exists>p. v_parent v n = Some p \<and> (a, p) \<in> (parents v)\<^sup>*)" for a
    by (auto simp: trancl_unfold_right parents_def)
  then show ?thesis by (auto simp: some_above_def split: option.split)
qed

lemma selects_unfold:
  "selects v sel d n \<longleftrightarrow> match_compound v n (fst (sel ! d)) \<and>
     (d = 0 \<or> (case snd (sel ! d) of
        Child \<Rightarrow> (case v_parent v n of None \<Rightarrow> False | Some p \<Rightarrow> selects v sel (d - 1) p)
      | Descendant \<Rightarrow> some_above v sel (d - 1) (v_parent v n)))"
  by (cases d) (auto simp: some_above_parent parents_def split: combinator.split option.split)

text \<open>On a document whose parent chains end, the walk ends and decides selection.\<close>

lemma chain_run_spec:
  assumes "wf (parents v)"
  shows "chain_run v sel False d (Some n) = Some (selects v sel d n) \<and>
    chain_run v sel True d (Some n) = Some (some_above v sel d (Some n))"
proof (induction d arbitrary: n rule: less_induct)
  case (less d)
  have up: "chain_run v sel True e cur = Some (some_above v sel e cur)" if "e < d" for e cur
    using less [OF that] by (cases cur) (simp_all add: chain_run_None some_above_def)
  have child: "chain_run v sel False e cur = Some (case cur of None \<Rightarrow> False | Some p \<Rightarrow> selects v sel e p)" if "e < d" for e cur
    using less [OF that] by (cases cur) (simp_all add: chain_run_None)
  have here: "(if \<not> match_compound v m (fst (sel ! d)) then Some False
      else if d = 0 then Some True
      else case snd (sel ! d) of
        Child \<Rightarrow> chain_run v sel False (d - 1) (v_parent v m)
      | Descendant \<Rightarrow> chain_run v sel True (d - 1) (v_parent v m)) = Some (selects v sel d m)" for m
    by (simp add: selects_unfold [of v sel d m] up child split: combinator.split option.split)
  have "chain_run v sel False d (Some n) = Some (selects v sel d n)"
    by (simp add: chain_run.simps [of v sel False d "Some n"] here)
  moreover have "chain_run v sel True d (Some m) = Some (some_above v sel d (Some m))" for m
    using assms
  proof (induction m rule: wf_induct_rule)
    case (less m)
    have "chain_run v sel True d (v_parent v m) = Some (some_above v sel d (v_parent v m))"
      using less [of "the (v_parent v m)"]
      by (cases "v_parent v m") (simp_all add: chain_run_None some_above_def parents_def)
    then show ?case
      by (simp add: chain_run.simps [of v sel True d "Some m"] here some_above_step [of v sel d m])
  qed
  ultimately show ?case by blast
qed

lemma collect_matches_spec:
  assumes "wf (parents v)" "length out < RESULT_CAP"
  shows "collect_matches v sel ns out = Some (take RESULT_CAP (out @ filter (selects v sel (length sel - 1)) ns))"
  using assms(2)
proof (induction ns arbitrary: out)
  case (Cons n ns)
  have c: "chain_ok v n sel (length sel - 1) = Some (selects v sel (length sel - 1) n)"
    using chain_run_spec [OF assms(1)] by (simp add: chain_ok_def)
  have "RESULT_CAP - length out = Suc (RESULT_CAP - Suc (length out))" using Cons.prems by simp
  then show ?case using Cons c by (auto simp: Let_def)
qed simp


lemma wf_parents_iff_acyclic: "finite {n. v_parent v n \<noteq> None} \<Longrightarrow> acyclic (parents v) \<Longrightarrow> wf (parents v)"
proof -
  assume f: "finite {n. v_parent v n \<noteq> None}" and a: "acyclic (parents v)"
  have "parents v \<subseteq> (\<lambda>n. (the (v_parent v n), n)) ` {n. v_parent v n \<noteq> None}"
    by (force simp: parents_def)
  then have "finite (parents v)" using f finite_surj by blast
  then show ?thesis using a by (rule finite_acyclic_wf)
qed

section \<open>Properties\<close>

text \<open>
  C33: On every document with finitely many nodes and no cycle among the parents, the search for a
  selector ends, and returns in document order the first 256 elements the selector selects by the
  rules of CSS: the last compound matches the element, and every earlier one its parent or some
  ancestor as the combinator says, with every choice of ancestor tried.
\<close>

theorem select_all_semantics:
  assumes "finite {n. v_parent v n \<noteq> None}" "acyclic (parents v)"
  shows "select_all v query = Some (map_option
    (\<lambda>sel. take 256 (filter (selects v sel (length sel - 1)) (v_elements v))) (parse_selector query))"
  using collect_matches_spec [OF wf_parents_iff_acyclic [OF assms], of "[]"]
  by (auto simp: select_all_def select_all_view_def RESULT_CAP_def split: option.split)

theorem select_all_semantics_witness:
  "\<exists>r. select_all \<lparr>v_parent = (\<lambda>n. if n = 1 then Some 0 else None), v_tag_ci = (\<lambda>n t. t = ''p''),
     v_attr_eq = (\<lambda>_ _ _. False), v_attr_is_some = (\<lambda>_ _. False), v_attr_word = (\<lambda>_ _ _. False),
     v_elements = [0, 1], v_subtree = (\<lambda>_. [])\<rparr> ''p'' = Some r"
proof -
  let ?v = "\<lparr>v_parent = (\<lambda>n. if n = 1 then Some 0 else None), v_tag_ci = (\<lambda>n t. t = ''p''),
     v_attr_eq = (\<lambda>_ _ _. False), v_attr_is_some = (\<lambda>_ _. False), v_attr_word = (\<lambda>_ _ _. False),
     v_elements = [0, 1], v_subtree = (\<lambda>_. [])\<rparr>"
  have "finite {n. v_parent ?v n \<noteq> None}" by simp
  moreover have "parents ?v \<subseteq> measure id" by (auto simp: parents_def split: if_splits)
  then have "acyclic (parents ?v)" by (rule acyclic_subset [OF wf_acyclic [OF wf_measure]])
  ultimately show ?thesis using select_all_semantics by blast
qed

end
