(* ===== verification/Zone_Tables.thy ===== *)
theory Zone_Tables
  imports Prelude "HOL-Library.List_Lexorder" "HOL-Library.Char_ord"
begin

text \<open>
  The tables of \<open>crates/core-utils/src/tz.rs\<close>, row by row: the daylight-saving rules, the transitions of the
  zones that follow no rule, and the names, offsets and display names of the zones.
\<close>

section \<open>Data\<close>

record transition_row =
  tt_month :: int
  tt_week :: int
  tt_weekday :: int
  tt_hour :: int

definition tz_transition :: "int \<Rightarrow> int \<Rightarrow> int \<Rightarrow> int \<Rightarrow> transition_row" where
  "tz_transition m w d h = \<lparr>tt_month = m, tt_week = w, tt_weekday = d, tt_hour = h\<rparr>"

record rule_row =
  tr_dst_add_min :: int
  tr_start :: transition_row
  tr_end :: transition_row

definition tz_rule :: "int \<Rightarrow> transition_row \<Rightarrow> transition_row \<Rightarrow> rule_row" where
  "tz_rule a s e = \<lparr>tr_dst_add_min = a, tr_start = s, tr_end = e\<rparr>"

record zone_core =
  zc_std_min :: int
  zc_rule :: nat
  zc_emb :: nat
  zc_pre :: int

record zone_disp =
  zd_abbr_std :: string
  zd_abbr_dst :: string
  zd_country :: string

definition RULE_NONE :: nat where "RULE_NONE = 65535"

record emb_table =
  em_ts :: "int list"
  em_off :: "int list"

definition RULES :: "rule_row list" where
  "RULES =
     [
      tz_rule 60 (tz_transition 3 (- 1) 0 2) (tz_transition 10 (- 1) 0 3),
      tz_rule 60 (tz_transition 3 2 0 2) (tz_transition 11 1 0 2),
      tz_rule 60 (tz_transition 3 2 0 0) (tz_transition 11 1 0 1),
      tz_rule 60 (tz_transition 3 (- 2) 6 23) (tz_transition 10 (- 1) 0 0),
      tz_rule 60 (tz_transition 10 1 0 2) (tz_transition 4 1 0 3),
      tz_rule 60 (tz_transition 9 (- 1) 0 2) (tz_transition 4 1 0 3),
      tz_rule 120 (tz_transition 3 (- 1) 0 1) (tz_transition 10 (- 1) 0 3),
      tz_rule 60 (tz_transition 3 (- 1) 0 0) (tz_transition 10 (- 1) 0 0),
      tz_rule 60 (tz_transition 3 (- 1) 0 3) (tz_transition 10 (- 1) 0 4),
      tz_rule 60 (tz_transition 3 (- 2) 5 2) (tz_transition 10 (- 1) 0 2),
      tz_rule 60 (tz_transition 3 (- 1) 0 0) (tz_transition 10 (- 1) 0 1),
      tz_rule 60 (tz_transition 3 (- 1) 0 1) (tz_transition 10 (- 1) 0 2),
      tz_rule 30 (tz_transition 10 1 0 2) (tz_transition 4 1 0 2)]"

definition EMB_CAIRO_TS :: "int list" where
  "EMB_CAIRO_TS =
    [1682632800, 1698354000, 1714082400, 1730408400, 1745532000, 1761858000, 1776981600, 1793307600,
     1809036000, 1824757200, 1840485600, 1856206800, 1871935200, 1887656400, 1903384800, 1919710800,
     1934834400, 1951160400, 1966888800, 1982610000, 1998338400, 2014059600, 2029788000, 2045509200,
     2061237600, 2076958800, 2092687200, 2109013200, 2124136800, 2140462800, 2156191200, 2171912400,
     2187640800, 2203362000, 2219090400, 2234811600, 2250540000, 2266866000, 2281989600, 2298315600,
     2313439200, 2329765200, 2345493600, 2361214800, 2376943200, 2392664400, 2408392800, 2424114000,
     2439842400, 2456168400, 2471292000, 2487618000, 2503346400, 2519067600, 2534796000, 2550517200]"

definition EMB_CAIRO_OFF :: "int list" where
  "EMB_CAIRO_OFF =
    [180, 120, 180, 120, 180, 120, 180, 120, 180, 120, 180, 120, 180, 120, 180, 120, 180, 120, 180, 120,
     180, 120, 180, 120, 180, 120, 180, 120, 180, 120, 180, 120, 180, 120, 180, 120, 180, 120, 180, 120,
     180, 120, 180, 120, 180, 120, 180, 120, 180, 120, 180, 120, 180, 120, 180, 120]"

definition EMB_CASABLANCA_TS :: "int list" where
  "EMB_CASABLANCA_TS =
    [1427594400, 1434247200, 1437271200, 1445738400, 1459044000, 1465092000, 1468116000, 1477792800,
     1490493600, 1495332000, 1498960800, 1509242400, 1521943200, 1526176800, 1529200800, 1557021600,
     1560045600, 1587261600, 1590890400, 1618106400, 1621130400, 1648346400, 1651975200, 1679191200,
     1682215200, 1710036000, 1713060000, 1740276000, 1743904800, 1771120800, 1774144800, 1801965600,
     1804989600, 1832205600, 1835834400, 1863050400, 1866074400, 1893290400, 1896919200, 1924135200,
     1927159200, 1954980000, 1958004000, 1985220000, 1988848800, 2016064800, 2019088800, 2046304800,
     2049933600, 2077149600, 2080778400, 2107994400, 2111018400, 2138234400, 2141863200, 2169079200,
     2172103200, 2199924000, 2202948000, 2230164000, 2233792800, 2261008800, 2264032800, 2291248800,
     2294877600, 2322093600, 2325722400, 2352938400, 2355962400, 2383178400, 2386807200, 2414023200,
     2417047200, 2444868000, 2447892000, 2475108000, 2478736800, 2505952800, 2508976800, 2536192800,
     2539821600]"

definition EMB_CASABLANCA_OFF :: "int list" where
  "EMB_CASABLANCA_OFF =
    [60, 0, 60, 0, 60, 0, 60, 0, 60, 0, 60, 0, 60, 0, 60, 0, 60, 0, 60, 0, 60, 0, 60, 0, 60, 0, 60, 0, 60,
     0, 60, 0, 60, 0, 60, 0, 60, 0, 60, 0, 60, 0, 60, 0, 60, 0, 60, 0, 60, 0, 60, 0, 60, 0, 60, 0, 60, 0,
     60, 0, 60, 0, 60, 0, 60, 0, 60, 0, 60, 0, 60, 0, 60, 0, 60, 0, 60, 0, 60, 0, 60]"

definition EMB_SANTIAGO_TS :: "int list" where
  "EMB_SANTIAGO_TS =
    [1463281200, 1471147200, 1494730800, 1502596800, 1526180400, 1534046400, 1554606000, 1567915200,
     1586055600, 1599364800, 1617505200, 1630814400, 1648954800, 1662868800, 1680404400, 1693713600,
     1712458800, 1725768000, 1743908400, 1757217600, 1775358000, 1788667200, 1806807600, 1820116800,
     1838257200, 1851566400, 1870311600, 1883016000, 1901761200, 1915070400, 1933210800, 1946520000,
     1964660400, 1977969600, 1996110000, 2009419200, 2027559600, 2040868800, 2059614000, 2072318400,
     2091063600, 2104372800, 2122513200, 2135822400, 2153962800, 2167272000, 2185412400, 2198721600,
     2217466800, 2230171200, 2248916400, 2262225600, 2280366000, 2293675200, 2311815600, 2325124800,
     2343265200, 2356574400, 2374714800, 2388024000, 2406769200, 2419473600, 2438218800, 2451528000,
     2469668400, 2482977600, 2501118000, 2514427200, 2532567600, 2545876800]"

definition EMB_SANTIAGO_OFF :: "int list" where
  "EMB_SANTIAGO_OFF =
    [- 240, - 180, - 240, - 180, - 240, - 180, - 240, - 180, - 240, - 180, - 240, - 180, - 240, - 180,
     - 240, - 180, - 240, - 180, - 240, - 180, - 240, - 180, - 240, - 180, - 240, - 180, - 240, - 180,
     - 240, - 180, - 240, - 180, - 240, - 180, - 240, - 180, - 240, - 180, - 240, - 180, - 240, - 180,
     - 240, - 180, - 240, - 180, - 240, - 180, - 240, - 180, - 240, - 180, - 240, - 180, - 240, - 180,
     - 240, - 180, - 240, - 180, - 240, - 180, - 240, - 180, - 240, - 180, - 240, - 180, - 240, - 180]"

definition EMB_GAZA_TS :: "int list" where
  "EMB_GAZA_TS =
    [1427493600, 1445551200, 1458946800, 1477692000, 1490396400, 1509141600, 1521846000, 1540591200,
     1553810400, 1572037200, 1585346400, 1603490400, 1616796000, 1635458400, 1648332000, 1666998000,
     1682726400, 1698447600, 1713571200, 1729897200, 1744416000, 1761346800, 1774656000, 1792796400,
     1806105600, 1824850800, 1837555200, 1856300400, 1869004800, 1887750000, 1901059200, 1919199600,
     1932508800, 1950649200, 1963958400, 1982703600, 1995408000, 2014153200, 2026857600, 2045602800,
     2058307200, 2077052400, 2090361600, 2107897200, 2121811200, 2138742000, 2153260800, 2168982000,
     2184710400, 2199826800, 2216160000, 2230066800, 2234304000, 2234905200, 2248214400, 2260911600,
     2264544000, 2266354800, 2279664000, 2291756400, 2295388800, 2297804400, 2311113600, 2321996400,
     2326233600, 2329254000, 2342563200, 2352841200, 2356473600, 2361308400, 2374012800, 2383686000,
     2387318400, 2392758000, 2405462400, 2413926000, 2418163200, 2424207600, 2437516800, 2444770800,
     2448403200, 2455657200, 2468966400, 2475010800, 2479248000, 2487106800, 2500416000, 2505855600,
     2509488000, 2519161200, 2531865600, 2536700400, 2540332800, 2550610800]"

definition EMB_GAZA_OFF :: "int list" where
  "EMB_GAZA_OFF =
    [180, 120, 180, 120, 180, 120, 180, 120, 180, 120, 180, 120, 180, 120, 180, 120, 180, 120, 180, 120,
     180, 120, 180, 120, 180, 120, 180, 120, 180, 120, 180, 120, 180, 120, 180, 120, 180, 120, 180, 120,
     180, 120, 180, 120, 180, 120, 180, 120, 180, 120, 180, 120, 180, 120, 180, 120, 180, 120, 180, 120,
     180, 120, 180, 120, 180, 120, 180, 120, 180, 120, 180, 120, 180, 120, 180, 120, 180, 120, 180, 120,
     180, 120, 180, 120, 180, 120, 180, 120, 180, 120, 180, 120, 180, 120]"

definition EMB_EASTER_OFF :: "int list" where
  "EMB_EASTER_OFF =
    [- 480, - 420, - 480, - 420, - 480, - 420, - 480, - 420, - 480, - 420, - 480, - 420, - 480, - 420,
     - 480, - 420, - 480, - 420, - 480, - 420, - 480, - 420, - 480, - 420, - 480, - 420, - 480, - 420,
     - 480, - 420, - 480, - 420, - 480, - 420, - 480, - 420, - 480, - 420, - 480, - 420, - 480, - 420,
     - 480, - 420, - 480, - 420, - 480, - 420, - 480, - 420, - 480, - 420, - 480, - 420, - 480, - 420,
     - 480, - 420, - 480, - 420, - 480, - 420, - 480, - 420, - 480, - 420, - 480, - 420, - 480, - 420]"

definition EMB_TABLES :: "emb_table list" where
  "EMB_TABLES =
     [\<lparr>em_ts = [], em_off = []\<rparr>,
      \<lparr>em_ts = EMB_CAIRO_TS, em_off = EMB_CAIRO_OFF\<rparr>,
      \<lparr>em_ts = EMB_CASABLANCA_TS, em_off = EMB_CASABLANCA_OFF\<rparr>,
      \<lparr>em_ts = EMB_SANTIAGO_TS, em_off = EMB_SANTIAGO_OFF\<rparr>,
      \<lparr>em_ts = EMB_GAZA_TS, em_off = EMB_GAZA_OFF\<rparr>,
      \<lparr>em_ts = EMB_SANTIAGO_TS, em_off = EMB_EASTER_OFF\<rparr>]"

definition zc :: "int \<Rightarrow> nat \<Rightarrow> nat \<Rightarrow> int \<Rightarrow> zone_core" where
  "zc s r e p = \<lparr>zc_std_min = s, zc_rule = r, zc_emb = e, zc_pre = p\<rparr>"

definition zd :: "string \<Rightarrow> string \<Rightarrow> string \<Rightarrow> zone_disp" where
  "zd s d c = \<lparr>zd_abbr_std = s, zd_abbr_dst = d, zd_country = c\<rparr>"

section \<open>The zones\<close>

definition ZONE_NAMES :: "string list" where
  "ZONE_NAMES =
    [''Africa/Abidjan'', ''Africa/Accra'', ''Africa/Addis_Ababa'', ''Africa/Algiers'',
     ''Africa/Asmara'', ''Africa/Bamako'', ''Africa/Bangui'', ''Africa/Banjul'', ''Africa/Bissau'',
     ''Africa/Blantyre'', ''Africa/Brazzaville'', ''Africa/Bujumbura'', ''Africa/Cairo'',
     ''Africa/Casablanca'', ''Africa/Ceuta'', ''Africa/Conakry'', ''Africa/Dakar'',
     ''Africa/Dar_es_Salaam'', ''Africa/Djibouti'', ''Africa/Douala'', ''Africa/El_Aaiun'',
     ''Africa/Freetown'', ''Africa/Gaborone'', ''Africa/Harare'', ''Africa/Johannesburg'',
     ''Africa/Juba'', ''Africa/Kampala'', ''Africa/Khartoum'', ''Africa/Kigali'', ''Africa/Kinshasa'',
     ''Africa/Lagos'', ''Africa/Libreville'', ''Africa/Lome'', ''Africa/Luanda'', ''Africa/Lubumbashi'',
     ''Africa/Lusaka'', ''Africa/Malabo'', ''Africa/Maputo'', ''Africa/Maseru'', ''Africa/Mbabane'',
     ''Africa/Mogadishu'', ''Africa/Monrovia'', ''Africa/Nairobi'', ''Africa/Ndjamena'',
     ''Africa/Niamey'', ''Africa/Nouakchott'', ''Africa/Ouagadougou'', ''Africa/Porto-Novo'',
     ''Africa/Sao_Tome'', ''Africa/Tripoli'', ''Africa/Tunis'', ''Africa/Windhoek'', ''America/Adak'',
     ''America/Anchorage'', ''America/Anguilla'', ''America/Antigua'', ''America/Araguaina'',
     ''America/Argentina/Buenos_Aires'', ''America/Argentina/Catamarca'', ''America/Argentina/Cordoba'',
     ''America/Argentina/Jujuy'', ''America/Argentina/La_Rioja'', ''America/Argentina/Mendoza'',
     ''America/Argentina/Rio_Gallegos'', ''America/Argentina/Salta'', ''America/Argentina/San_Juan'',
     ''America/Argentina/San_Luis'', ''America/Argentina/Tucuman'', ''America/Argentina/Ushuaia'',
     ''America/Aruba'', ''America/Asuncion'', ''America/Atikokan'', ''America/Bahia'',
     ''America/Bahia_Banderas'', ''America/Barbados'', ''America/Belem'', ''America/Belize'',
     ''America/Blanc-Sablon'', ''America/Boa_Vista'', ''America/Bogota'', ''America/Boise'',
     ''America/Cambridge_Bay'', ''America/Campo_Grande'', ''America/Cancun'', ''America/Caracas'',
     ''America/Cayenne'', ''America/Cayman'', ''America/Chicago'', ''America/Chihuahua'',
     ''America/Ciudad_Juarez'', ''America/Costa_Rica'', ''America/Coyhaique'', ''America/Creston'',
     ''America/Cuiaba'', ''America/Curacao'', ''America/Danmarkshavn'', ''America/Dawson'',
     ''America/Dawson_Creek'', ''America/Denver'', ''America/Detroit'', ''America/Dominica'',
     ''America/Edmonton'', ''America/Eirunepe'', ''America/El_Salvador'', ''America/Fort_Nelson'',
     ''America/Fortaleza'', ''America/Glace_Bay'', ''America/Goose_Bay'', ''America/Grand_Turk'',
     ''America/Grenada'', ''America/Guadeloupe'', ''America/Guatemala'', ''America/Guayaquil'',
     ''America/Guyana'', ''America/Halifax'', ''America/Havana'', ''America/Hermosillo'',
     ''America/Indiana/Indianapolis'', ''America/Indiana/Knox'', ''America/Indiana/Marengo'',
     ''America/Indiana/Petersburg'', ''America/Indiana/Tell_City'', ''America/Indiana/Vevay'',
     ''America/Indiana/Vincennes'', ''America/Indiana/Winamac'', ''America/Inuvik'',
     ''America/Iqaluit'', ''America/Jamaica'', ''America/Juneau'', ''America/Kentucky/Louisville'',
     ''America/Kentucky/Monticello'', ''America/La_Paz'', ''America/Lima'', ''America/Los_Angeles'',
     ''America/Maceio'', ''America/Managua'', ''America/Manaus'', ''America/Martinique'',
     ''America/Matamoros'', ''America/Mazatlan'', ''America/Menominee'', ''America/Merida'',
     ''America/Metlakatla'', ''America/Mexico_City'', ''America/Miquelon'', ''America/Moncton'',
     ''America/Monterrey'', ''America/Montevideo'', ''America/Montserrat'', ''America/Nassau'',
     ''America/New_York'', ''America/Nome'', ''America/Noronha'', ''America/North_Dakota/Beulah'',
     ''America/North_Dakota/Center'', ''America/North_Dakota/New_Salem'', ''America/Nuuk'',
     ''America/Ojinaga'', ''America/Panama'', ''America/Paramaribo'', ''America/Phoenix'',
     ''America/Port-au-Prince'', ''America/Port_of_Spain'', ''America/Porto_Velho'',
     ''America/Puerto_Rico'', ''America/Punta_Arenas'', ''America/Rankin_Inlet'', ''America/Recife'',
     ''America/Regina'', ''America/Resolute'', ''America/Rio_Branco'', ''America/Santarem'',
     ''America/Santiago'', ''America/Santo_Domingo'', ''America/Sao_Paulo'', ''America/Scoresbysund'',
     ''America/Sitka'', ''America/St_Johns'', ''America/St_Kitts'', ''America/St_Lucia'',
     ''America/St_Thomas'', ''America/St_Vincent'', ''America/Swift_Current'', ''America/Tegucigalpa'',
     ''America/Thule'', ''America/Tijuana'', ''America/Toronto'', ''America/Tortola'',
     ''America/Vancouver'', ''America/Whitehorse'', ''America/Winnipeg'', ''America/Yakutat'',
     ''Antarctica/Casey'', ''Antarctica/Davis'', ''Antarctica/DumontDUrville'',
     ''Antarctica/Macquarie'', ''Antarctica/Mawson'', ''Antarctica/McMurdo'', ''Antarctica/Palmer'',
     ''Antarctica/Rothera'', ''Antarctica/Syowa'', ''Antarctica/Troll'', ''Antarctica/Vostok'',
     ''Asia/Aden'', ''Asia/Almaty'', ''Asia/Amman'', ''Asia/Anadyr'', ''Asia/Aqtau'', ''Asia/Aqtobe'',
     ''Asia/Ashgabat'', ''Asia/Atyrau'', ''Asia/Baghdad'', ''Asia/Bahrain'', ''Asia/Baku'',
     ''Asia/Bangkok'', ''Asia/Barnaul'', ''Asia/Beirut'', ''Asia/Bishkek'', ''Asia/Brunei'',
     ''Asia/Chita'', ''Asia/Colombo'', ''Asia/Damascus'', ''Asia/Dhaka'', ''Asia/Dili'', ''Asia/Dubai'',
     ''Asia/Dushanbe'', ''Asia/Famagusta'', ''Asia/Gaza'', ''Asia/Hebron'', ''Asia/Ho_Chi_Minh'',
     ''Asia/Hong_Kong'', ''Asia/Hovd'', ''Asia/Irkutsk'', ''Asia/Jakarta'', ''Asia/Jayapura'',
     ''Asia/Jerusalem'', ''Asia/Kabul'', ''Asia/Kamchatka'', ''Asia/Karachi'', ''Asia/Kathmandu'',
     ''Asia/Khandyga'', ''Asia/Kolkata'', ''Asia/Krasnoyarsk'', ''Asia/Kuala_Lumpur'', ''Asia/Kuching'',
     ''Asia/Kuwait'', ''Asia/Macau'', ''Asia/Magadan'', ''Asia/Makassar'', ''Asia/Manila'',
     ''Asia/Muscat'', ''Asia/Nicosia'', ''Asia/Novokuznetsk'', ''Asia/Novosibirsk'', ''Asia/Omsk'',
     ''Asia/Oral'', ''Asia/Phnom_Penh'', ''Asia/Pontianak'', ''Asia/Pyongyang'', ''Asia/Qatar'',
     ''Asia/Qostanay'', ''Asia/Qyzylorda'', ''Asia/Riyadh'', ''Asia/Sakhalin'', ''Asia/Samarkand'',
     ''Asia/Seoul'', ''Asia/Shanghai'', ''Asia/Singapore'', ''Asia/Srednekolymsk'', ''Asia/Taipei'',
     ''Asia/Tashkent'', ''Asia/Tbilisi'', ''Asia/Tehran'', ''Asia/Thimphu'', ''Asia/Tokyo'',
     ''Asia/Tomsk'', ''Asia/Ulaanbaatar'', ''Asia/Urumqi'', ''Asia/Ust-Nera'', ''Asia/Vientiane'',
     ''Asia/Vladivostok'', ''Asia/Yakutsk'', ''Asia/Yangon'', ''Asia/Yekaterinburg'', ''Asia/Yerevan'',
     ''Atlantic/Azores'', ''Atlantic/Bermuda'', ''Atlantic/Canary'', ''Atlantic/Cape_Verde'',
     ''Atlantic/Faroe'', ''Atlantic/Madeira'', ''Atlantic/Reykjavik'', ''Atlantic/South_Georgia'',
     ''Atlantic/St_Helena'', ''Atlantic/Stanley'', ''Australia/Adelaide'', ''Australia/Brisbane'',
     ''Australia/Broken_Hill'', ''Australia/Darwin'', ''Australia/Eucla'', ''Australia/Hobart'',
     ''Australia/Lindeman'', ''Australia/Lord_Howe'', ''Australia/Melbourne'', ''Australia/Perth'',
     ''Australia/Sydney'', ''Etc/GMT'', ''Etc/GMT+1'', ''Etc/GMT+10'', ''Etc/GMT+11'', ''Etc/GMT+12'',
     ''Etc/GMT+2'', ''Etc/GMT+3'', ''Etc/GMT+4'', ''Etc/GMT+5'', ''Etc/GMT+6'', ''Etc/GMT+7'',
     ''Etc/GMT+8'', ''Etc/GMT+9'', ''Etc/GMT-1'', ''Etc/GMT-10'', ''Etc/GMT-11'', ''Etc/GMT-12'',
     ''Etc/GMT-13'', ''Etc/GMT-14'', ''Etc/GMT-2'', ''Etc/GMT-3'', ''Etc/GMT-4'', ''Etc/GMT-5'',
     ''Etc/GMT-6'', ''Etc/GMT-7'', ''Etc/GMT-8'', ''Etc/GMT-9'', ''Etc/UTC'', ''Europe/Amsterdam'',
     ''Europe/Andorra'', ''Europe/Astrakhan'', ''Europe/Athens'', ''Europe/Belgrade'',
     ''Europe/Berlin'', ''Europe/Brussels'', ''Europe/Bucharest'', ''Europe/Budapest'',
     ''Europe/Chisinau'', ''Europe/Copenhagen'', ''Europe/Dublin'', ''Europe/Gibraltar'',
     ''Europe/Guernsey'', ''Europe/Helsinki'', ''Europe/Isle_of_Man'', ''Europe/Istanbul'',
     ''Europe/Jersey'', ''Europe/Kaliningrad'', ''Europe/Kirov'', ''Europe/Kyiv'', ''Europe/Lisbon'',
     ''Europe/Ljubljana'', ''Europe/London'', ''Europe/Luxembourg'', ''Europe/Madrid'',
     ''Europe/Malta'', ''Europe/Minsk'', ''Europe/Monaco'', ''Europe/Moscow'', ''Europe/Oslo'',
     ''Europe/Paris'', ''Europe/Prague'', ''Europe/Riga'', ''Europe/Rome'', ''Europe/Samara'',
     ''Europe/Sarajevo'', ''Europe/Saratov'', ''Europe/Simferopol'', ''Europe/Skopje'',
     ''Europe/Sofia'', ''Europe/Stockholm'', ''Europe/Tallinn'', ''Europe/Tirane'',
     ''Europe/Ulyanovsk'', ''Europe/Vaduz'', ''Europe/Vienna'', ''Europe/Vilnius'',
     ''Europe/Volgograd'', ''Europe/Warsaw'', ''Europe/Zagreb'', ''Europe/Zurich'', ''Factory'',
     ''Indian/Antananarivo'', ''Indian/Chagos'', ''Indian/Christmas'', ''Indian/Cocos'',
     ''Indian/Comoro'', ''Indian/Kerguelen'', ''Indian/Mahe'', ''Indian/Maldives'',
     ''Indian/Mauritius'', ''Indian/Mayotte'', ''Indian/Reunion'', ''Pacific/Apia'',
     ''Pacific/Auckland'', ''Pacific/Bougainville'', ''Pacific/Chatham'', ''Pacific/Chuuk'',
     ''Pacific/Easter'', ''Pacific/Efate'', ''Pacific/Fakaofo'', ''Pacific/Fiji'', ''Pacific/Funafuti'',
     ''Pacific/Galapagos'', ''Pacific/Gambier'', ''Pacific/Guadalcanal'', ''Pacific/Guam'',
     ''Pacific/Honolulu'', ''Pacific/Kanton'', ''Pacific/Kiritimati'', ''Pacific/Kosrae'',
     ''Pacific/Kwajalein'', ''Pacific/Majuro'', ''Pacific/Marquesas'', ''Pacific/Midway'',
     ''Pacific/Nauru'', ''Pacific/Niue'', ''Pacific/Norfolk'', ''Pacific/Noumea'',
     ''Pacific/Pago_Pago'', ''Pacific/Palau'', ''Pacific/Pitcairn'', ''Pacific/Pohnpei'',
     ''Pacific/Port_Moresby'', ''Pacific/Rarotonga'', ''Pacific/Saipan'', ''Pacific/Tahiti'',
     ''Pacific/Tarawa'', ''Pacific/Tongatapu'', ''Pacific/Wake'', ''Pacific/Wallis'']"

definition ZCORE :: "zone_core list" where
  "ZCORE =
    [zc 0 RULE_NONE 0 0, zc 0 RULE_NONE 0 0, zc 180 RULE_NONE 0 180, zc 60 RULE_NONE 0 60,
     zc 180 RULE_NONE 0 180, zc 0 RULE_NONE 0 0, zc 60 RULE_NONE 0 60, zc 0 RULE_NONE 0 0,
     zc 0 RULE_NONE 0 0, zc 120 RULE_NONE 0 120, zc 60 RULE_NONE 0 60, zc 120 RULE_NONE 0 120,
     zc 120 RULE_NONE 1 120, zc 60 RULE_NONE 2 60, zc 60 0 0 60, zc 0 RULE_NONE 0 0, zc 0 RULE_NONE 0 0,
     zc 180 RULE_NONE 0 180, zc 180 RULE_NONE 0 180, zc 60 RULE_NONE 0 60, zc 60 RULE_NONE 2 60,
     zc 0 RULE_NONE 0 0, zc 120 RULE_NONE 0 120, zc 120 RULE_NONE 0 120, zc 120 RULE_NONE 0 120,
     zc 120 RULE_NONE 0 120, zc 180 RULE_NONE 0 180, zc 120 RULE_NONE 0 120, zc 120 RULE_NONE 0 120,
     zc 60 RULE_NONE 0 60, zc 60 RULE_NONE 0 60, zc 60 RULE_NONE 0 60, zc 0 RULE_NONE 0 0,
     zc 60 RULE_NONE 0 60, zc 120 RULE_NONE 0 120, zc 120 RULE_NONE 0 120, zc 60 RULE_NONE 0 60,
     zc 120 RULE_NONE 0 120, zc 120 RULE_NONE 0 120, zc 120 RULE_NONE 0 120, zc 180 RULE_NONE 0 180,
     zc 0 RULE_NONE 0 0, zc 180 RULE_NONE 0 180, zc 60 RULE_NONE 0 60, zc 60 RULE_NONE 0 60,
     zc 0 RULE_NONE 0 0, zc 0 RULE_NONE 0 0, zc 60 RULE_NONE 0 60, zc 0 RULE_NONE 0 0,
     zc 120 RULE_NONE 0 120, zc 60 RULE_NONE 0 60, zc 120 RULE_NONE 0 120, zc (- 600) 1 0 (- 600),
     zc (- 540) 1 0 (- 540), zc (- 240) RULE_NONE 0 (- 240), zc (- 240) RULE_NONE 0 (- 240),
     zc (- 180) RULE_NONE 0 (- 180), zc (- 180) RULE_NONE 0 (- 180), zc (- 180) RULE_NONE 0 (- 180),
     zc (- 180) RULE_NONE 0 (- 180), zc (- 180) RULE_NONE 0 (- 180), zc (- 180) RULE_NONE 0 (- 180),
     zc (- 180) RULE_NONE 0 (- 180), zc (- 180) RULE_NONE 0 (- 180), zc (- 180) RULE_NONE 0 (- 180),
     zc (- 180) RULE_NONE 0 (- 180), zc (- 180) RULE_NONE 0 (- 180), zc (- 180) RULE_NONE 0 (- 180),
     zc (- 180) RULE_NONE 0 (- 180), zc (- 240) RULE_NONE 0 (- 240), zc (- 180) RULE_NONE 0 (- 180),
     zc (- 300) RULE_NONE 0 (- 300), zc (- 180) RULE_NONE 0 (- 180), zc (- 360) RULE_NONE 0 (- 360),
     zc (- 240) RULE_NONE 0 (- 240), zc (- 180) RULE_NONE 0 (- 180), zc (- 360) RULE_NONE 0 (- 360),
     zc (- 240) RULE_NONE 0 (- 240), zc (- 240) RULE_NONE 0 (- 240), zc (- 300) RULE_NONE 0 (- 300),
     zc (- 420) 1 0 (- 420), zc (- 420) 1 0 (- 420), zc (- 240) RULE_NONE 0 (- 240),
     zc (- 300) RULE_NONE 0 (- 300), zc (- 240) RULE_NONE 0 (- 240), zc (- 180) RULE_NONE 0 (- 180),
     zc (- 300) RULE_NONE 0 (- 300), zc (- 360) 1 0 (- 360), zc (- 360) RULE_NONE 0 (- 360),
     zc (- 420) 1 0 (- 420), zc (- 360) RULE_NONE 0 (- 360), zc (- 180) RULE_NONE 0 (- 180),
     zc (- 420) RULE_NONE 0 (- 420), zc (- 240) RULE_NONE 0 (- 240), zc (- 240) RULE_NONE 0 (- 240),
     zc 0 RULE_NONE 0 0, zc (- 420) RULE_NONE 0 (- 420), zc (- 420) RULE_NONE 0 (- 420),
     zc (- 420) 1 0 (- 420), zc (- 300) 1 0 (- 300), zc (- 240) RULE_NONE 0 (- 240),
     zc (- 420) 1 0 (- 420), zc (- 300) RULE_NONE 0 (- 300), zc (- 360) RULE_NONE 0 (- 360),
     zc (- 420) RULE_NONE 0 (- 420), zc (- 180) RULE_NONE 0 (- 180), zc (- 240) 1 0 (- 240),
     zc (- 240) 1 0 (- 240), zc (- 300) 1 0 (- 300), zc (- 240) RULE_NONE 0 (- 240),
     zc (- 240) RULE_NONE 0 (- 240), zc (- 360) RULE_NONE 0 (- 360), zc (- 300) RULE_NONE 0 (- 300),
     zc (- 240) RULE_NONE 0 (- 240), zc (- 240) 1 0 (- 240), zc (- 300) 2 0 (- 300),
     zc (- 420) RULE_NONE 0 (- 420), zc (- 300) 1 0 (- 300), zc (- 360) 1 0 (- 360),
     zc (- 300) 1 0 (- 300), zc (- 300) 1 0 (- 300), zc (- 360) 1 0 (- 360), zc (- 300) 1 0 (- 300),
     zc (- 300) 1 0 (- 300), zc (- 300) 1 0 (- 300), zc (- 420) 1 0 (- 420), zc (- 300) 1 0 (- 300),
     zc (- 300) RULE_NONE 0 (- 300), zc (- 540) 1 0 (- 540), zc (- 300) 1 0 (- 300),
     zc (- 300) 1 0 (- 300), zc (- 240) RULE_NONE 0 (- 240), zc (- 300) RULE_NONE 0 (- 300),
     zc (- 480) 1 0 (- 480), zc (- 180) RULE_NONE 0 (- 180), zc (- 360) RULE_NONE 0 (- 360),
     zc (- 240) RULE_NONE 0 (- 240), zc (- 240) RULE_NONE 0 (- 240), zc (- 360) 1 0 (- 360),
     zc (- 420) RULE_NONE 0 (- 420), zc (- 360) 1 0 (- 360), zc (- 360) RULE_NONE 0 (- 360),
     zc (- 540) 1 0 (- 540), zc (- 360) RULE_NONE 0 (- 360), zc (- 180) 1 0 (- 180),
     zc (- 240) 1 0 (- 240), zc (- 360) RULE_NONE 0 (- 360), zc (- 180) RULE_NONE 0 (- 180),
     zc (- 240) RULE_NONE 0 (- 240), zc (- 300) 1 0 (- 300), zc (- 300) 1 0 (- 300),
     zc (- 540) 1 0 (- 540), zc (- 120) RULE_NONE 0 (- 120), zc (- 360) 1 0 (- 360),
     zc (- 360) 1 0 (- 360), zc (- 360) 1 0 (- 360), zc (- 120) 3 0 (- 120), zc (- 360) 1 0 (- 360),
     zc (- 300) RULE_NONE 0 (- 300), zc (- 180) RULE_NONE 0 (- 180), zc (- 420) RULE_NONE 0 (- 420),
     zc (- 300) 1 0 (- 300), zc (- 240) RULE_NONE 0 (- 240), zc (- 240) RULE_NONE 0 (- 240),
     zc (- 240) RULE_NONE 0 (- 240), zc (- 180) RULE_NONE 0 (- 180), zc (- 360) 1 0 (- 360),
     zc (- 180) RULE_NONE 0 (- 180), zc (- 360) RULE_NONE 0 (- 360), zc (- 360) 1 0 (- 360),
     zc (- 300) RULE_NONE 0 (- 300), zc (- 180) RULE_NONE 0 (- 180), zc (- 240) RULE_NONE 3 (- 240),
     zc (- 240) RULE_NONE 0 (- 240), zc (- 180) RULE_NONE 0 (- 180), zc (- 120) 3 0 (- 120),
     zc (- 540) 1 0 (- 540), zc (- 210) 1 0 (- 210), zc (- 240) RULE_NONE 0 (- 240),
     zc (- 240) RULE_NONE 0 (- 240), zc (- 240) RULE_NONE 0 (- 240), zc (- 240) RULE_NONE 0 (- 240),
     zc (- 360) RULE_NONE 0 (- 360), zc (- 360) RULE_NONE 0 (- 360), zc (- 240) 1 0 (- 240),
     zc (- 480) 1 0 (- 480), zc (- 300) 1 0 (- 300), zc (- 240) RULE_NONE 0 (- 240),
     zc (- 480) 1 0 (- 480), zc (- 420) RULE_NONE 0 (- 420), zc (- 360) 1 0 (- 360),
     zc (- 540) 1 0 (- 540), zc 480 RULE_NONE 0 480, zc 420 RULE_NONE 0 420, zc 600 RULE_NONE 0 600,
     zc 600 4 0 600, zc 300 RULE_NONE 0 300, zc 720 5 0 720, zc (- 180) RULE_NONE 0 (- 180),
     zc (- 180) RULE_NONE 0 (- 180), zc 180 RULE_NONE 0 180, zc 0 6 0 0, zc 300 RULE_NONE 0 300,
     zc 180 RULE_NONE 0 180, zc 300 RULE_NONE 0 300, zc 180 RULE_NONE 0 180, zc 720 RULE_NONE 0 720,
     zc 300 RULE_NONE 0 300, zc 300 RULE_NONE 0 300, zc 300 RULE_NONE 0 300, zc 300 RULE_NONE 0 300,
     zc 180 RULE_NONE 0 180, zc 180 RULE_NONE 0 180, zc 240 RULE_NONE 0 240, zc 420 RULE_NONE 0 420,
     zc 420 RULE_NONE 0 420, zc 120 7 0 120, zc 360 RULE_NONE 0 360, zc 480 RULE_NONE 0 480,
     zc 540 RULE_NONE 0 540, zc 330 RULE_NONE 0 330, zc 180 RULE_NONE 0 180, zc 360 RULE_NONE 0 360,
     zc 540 RULE_NONE 0 540, zc 240 RULE_NONE 0 240, zc 300 RULE_NONE 0 300, zc 120 8 0 120,
     zc 120 RULE_NONE 4 120, zc 120 RULE_NONE 4 120, zc 420 RULE_NONE 0 420, zc 480 RULE_NONE 0 480,
     zc 420 RULE_NONE 0 420, zc 480 RULE_NONE 0 480, zc 420 RULE_NONE 0 420, zc 540 RULE_NONE 0 540,
     zc 120 9 0 120, zc 270 RULE_NONE 0 270, zc 720 RULE_NONE 0 720, zc 300 RULE_NONE 0 300,
     zc 345 RULE_NONE 0 345, zc 540 RULE_NONE 0 540, zc 330 RULE_NONE 0 330, zc 420 RULE_NONE 0 420,
     zc 480 RULE_NONE 0 480, zc 480 RULE_NONE 0 480, zc 180 RULE_NONE 0 180, zc 480 RULE_NONE 0 480,
     zc 660 RULE_NONE 0 660, zc 480 RULE_NONE 0 480, zc 480 RULE_NONE 0 480, zc 240 RULE_NONE 0 240,
     zc 120 8 0 120, zc 420 RULE_NONE 0 420, zc 420 RULE_NONE 0 420, zc 360 RULE_NONE 0 360,
     zc 300 RULE_NONE 0 300, zc 420 RULE_NONE 0 420, zc 420 RULE_NONE 0 420, zc 540 RULE_NONE 0 540,
     zc 180 RULE_NONE 0 180, zc 300 RULE_NONE 0 300, zc 300 RULE_NONE 0 300, zc 180 RULE_NONE 0 180,
     zc 660 RULE_NONE 0 660, zc 300 RULE_NONE 0 300, zc 540 RULE_NONE 0 540, zc 480 RULE_NONE 0 480,
     zc 480 RULE_NONE 0 480, zc 660 RULE_NONE 0 660, zc 480 RULE_NONE 0 480, zc 300 RULE_NONE 0 300,
     zc 240 RULE_NONE 0 240, zc 210 RULE_NONE 0 210, zc 360 RULE_NONE 0 360, zc 540 RULE_NONE 0 540,
     zc 420 RULE_NONE 0 420, zc 480 RULE_NONE 0 480, zc 360 RULE_NONE 0 360, zc 600 RULE_NONE 0 600,
     zc 420 RULE_NONE 0 420, zc 600 RULE_NONE 0 600, zc 540 RULE_NONE 0 540, zc 390 RULE_NONE 0 390,
     zc 300 RULE_NONE 0 300, zc 240 RULE_NONE 0 240, zc (- 60) 10 0 (- 60), zc (- 240) 1 0 (- 240),
     zc 0 11 0 0, zc (- 60) RULE_NONE 0 (- 60), zc 0 11 0 0, zc 0 11 0 0, zc 0 RULE_NONE 0 0,
     zc (- 120) RULE_NONE 0 (- 120), zc 0 RULE_NONE 0 0, zc (- 180) RULE_NONE 0 (- 180), zc 570 4 0 570,
     zc 600 RULE_NONE 0 600, zc 570 4 0 570, zc 570 RULE_NONE 0 570, zc 525 RULE_NONE 0 525,
     zc 600 4 0 600, zc 600 RULE_NONE 0 600, zc 630 12 0 630, zc 600 4 0 600, zc 480 RULE_NONE 0 480,
     zc 600 4 0 600, zc 0 RULE_NONE 0 0, zc (- 60) RULE_NONE 0 (- 60), zc (- 600) RULE_NONE 0 (- 600),
     zc (- 660) RULE_NONE 0 (- 660), zc (- 720) RULE_NONE 0 (- 720), zc (- 120) RULE_NONE 0 (- 120),
     zc (- 180) RULE_NONE 0 (- 180), zc (- 240) RULE_NONE 0 (- 240), zc (- 300) RULE_NONE 0 (- 300),
     zc (- 360) RULE_NONE 0 (- 360), zc (- 420) RULE_NONE 0 (- 420), zc (- 480) RULE_NONE 0 (- 480),
     zc (- 540) RULE_NONE 0 (- 540), zc 60 RULE_NONE 0 60, zc 600 RULE_NONE 0 600,
     zc 660 RULE_NONE 0 660, zc 720 RULE_NONE 0 720, zc 780 RULE_NONE 0 780, zc 840 RULE_NONE 0 840,
     zc 120 RULE_NONE 0 120, zc 180 RULE_NONE 0 180, zc 240 RULE_NONE 0 240, zc 300 RULE_NONE 0 300,
     zc 360 RULE_NONE 0 360, zc 420 RULE_NONE 0 420, zc 480 RULE_NONE 0 480, zc 540 RULE_NONE 0 540,
     zc 0 RULE_NONE 0 0, zc 60 0 0 60, zc 60 0 0 60, zc 240 RULE_NONE 0 240, zc 120 8 0 120,
     zc 60 0 0 60, zc 60 0 0 60, zc 60 0 0 60, zc 120 8 0 120, zc 60 0 0 60, zc 120 8 0 120,
     zc 60 0 0 60, zc 0 11 0 0, zc 60 0 0 60, zc 0 11 0 0, zc 120 8 0 120, zc 0 11 0 0,
     zc 180 RULE_NONE 0 180, zc 0 11 0 0, zc 120 RULE_NONE 0 120, zc 180 RULE_NONE 0 180,
     zc 120 8 0 120, zc 0 11 0 0, zc 60 0 0 60, zc 0 11 0 0, zc 60 0 0 60, zc 60 0 0 60, zc 60 0 0 60,
     zc 180 RULE_NONE 0 180, zc 60 0 0 60, zc 180 RULE_NONE 0 180, zc 60 0 0 60, zc 60 0 0 60,
     zc 60 0 0 60, zc 120 8 0 120, zc 60 0 0 60, zc 240 RULE_NONE 0 240, zc 60 0 0 60,
     zc 240 RULE_NONE 0 240, zc 180 RULE_NONE 0 180, zc 60 0 0 60, zc 120 8 0 120, zc 60 0 0 60,
     zc 120 8 0 120, zc 60 0 0 60, zc 240 RULE_NONE 0 240, zc 60 0 0 60, zc 60 0 0 60, zc 120 8 0 120,
     zc 180 RULE_NONE 0 180, zc 60 0 0 60, zc 60 0 0 60, zc 60 0 0 60, zc 0 RULE_NONE 0 0,
     zc 180 RULE_NONE 0 180, zc 360 RULE_NONE 0 360, zc 420 RULE_NONE 0 420, zc 390 RULE_NONE 0 390,
     zc 180 RULE_NONE 0 180, zc 300 RULE_NONE 0 300, zc 240 RULE_NONE 0 240, zc 300 RULE_NONE 0 300,
     zc 240 RULE_NONE 0 240, zc 180 RULE_NONE 0 180, zc 240 RULE_NONE 0 240, zc 780 RULE_NONE 0 780,
     zc 720 5 0 720, zc 660 RULE_NONE 0 660, zc 765 5 0 765, zc 600 RULE_NONE 0 600,
     zc (- 360) RULE_NONE 5 (- 360), zc 660 RULE_NONE 0 660, zc 780 RULE_NONE 0 780,
     zc 720 RULE_NONE 0 720, zc 720 RULE_NONE 0 720, zc (- 360) RULE_NONE 0 (- 360),
     zc (- 540) RULE_NONE 0 (- 540), zc 660 RULE_NONE 0 660, zc 600 RULE_NONE 0 600,
     zc (- 600) RULE_NONE 0 (- 600), zc 780 RULE_NONE 0 780, zc 840 RULE_NONE 0 840,
     zc 660 RULE_NONE 0 660, zc 720 RULE_NONE 0 720, zc 720 RULE_NONE 0 720,
     zc (- 570) RULE_NONE 0 (- 570), zc (- 660) RULE_NONE 0 (- 660), zc 720 RULE_NONE 0 720,
     zc (- 660) RULE_NONE 0 (- 660), zc 660 4 0 660, zc 660 RULE_NONE 0 660,
     zc (- 660) RULE_NONE 0 (- 660), zc 540 RULE_NONE 0 540, zc (- 480) RULE_NONE 0 (- 480),
     zc 660 RULE_NONE 0 660, zc 600 RULE_NONE 0 600, zc (- 600) RULE_NONE 0 (- 600),
     zc 600 RULE_NONE 0 600, zc (- 600) RULE_NONE 0 (- 600), zc 720 RULE_NONE 0 720,
     zc 780 RULE_NONE 0 780, zc 720 RULE_NONE 0 720, zc 720 RULE_NONE 0 720]"

definition ZDISPLAY :: "zone_disp list" where
  "ZDISPLAY =
    [zd ''GMT'' ''GMT'' '''', zd ''GMT'' ''GMT'' '''', zd ''EAT'' ''EAT'' '''', zd ''CET'' ''CET'' '''',
     zd ''EAT'' ''EAT'' '''', zd ''GMT'' ''GMT'' '''', zd ''WAT'' ''WAT'' '''', zd ''GMT'' ''GMT'' '''',
     zd ''GMT'' ''GMT'' '''', zd ''CAT'' ''CAT'' '''', zd ''WAT'' ''WAT'' '''', zd ''CAT'' ''CAT'' '''',
     zd ''EET'' ''EEST'' '''', zd ''+01'' ''+01'' '''', zd ''CET'' ''CEST'' '''',
     zd ''GMT'' ''GMT'' '''', zd ''GMT'' ''GMT'' '''', zd ''EAT'' ''EAT'' '''', zd ''EAT'' ''EAT'' '''',
     zd ''WAT'' ''WAT'' '''', zd ''+01'' ''+01'' '''', zd ''GMT'' ''GMT'' '''', zd ''CAT'' ''CAT'' '''',
     zd ''CAT'' ''CAT'' '''', zd ''SAST'' ''SAST'' '''', zd ''CAT'' ''CAT'' '''',
     zd ''EAT'' ''EAT'' '''', zd ''CAT'' ''CAT'' '''', zd ''CAT'' ''CAT'' '''', zd ''WAT'' ''WAT'' '''',
     zd ''WAT'' ''WAT'' '''', zd ''WAT'' ''WAT'' '''', zd ''GMT'' ''GMT'' '''', zd ''WAT'' ''WAT'' '''',
     zd ''CAT'' ''CAT'' '''', zd ''CAT'' ''CAT'' '''', zd ''WAT'' ''WAT'' '''', zd ''CAT'' ''CAT'' '''',
     zd ''SAST'' ''SAST'' '''', zd ''SAST'' ''SAST'' '''', zd ''EAT'' ''EAT'' '''',
     zd ''GMT'' ''GMT'' '''', zd ''EAT'' ''EAT'' '''', zd ''WAT'' ''WAT'' '''', zd ''WAT'' ''WAT'' '''',
     zd ''GMT'' ''GMT'' '''', zd ''GMT'' ''GMT'' '''', zd ''WAT'' ''WAT'' '''', zd ''GMT'' ''GMT'' '''',
     zd ''EET'' ''EET'' '''', zd ''CET'' ''CET'' '''', zd ''CAT'' ''CAT'' '''', zd ''HST'' ''HDT'' '''',
     zd ''AKST'' ''AKDT'' '''', zd ''AST'' ''AST'' '''', zd ''AST'' ''AST'' '''',
     zd ''-03'' ''-03'' '''', zd ''-03'' ''-03'' '''', zd ''-03'' ''-03'' '''', zd ''-03'' ''-03'' '''',
     zd ''-03'' ''-03'' '''', zd ''-03'' ''-03'' '''', zd ''-03'' ''-03'' '''', zd ''-03'' ''-03'' '''',
     zd ''-03'' ''-03'' '''', zd ''-03'' ''-03'' '''', zd ''-03'' ''-03'' '''', zd ''-03'' ''-03'' '''',
     zd ''-03'' ''-03'' '''', zd ''AST'' ''AST'' '''', zd ''-03'' ''-03'' '''', zd ''EST'' ''EST'' '''',
     zd ''-03'' ''-03'' '''', zd ''CST'' ''CST'' '''', zd ''AST'' ''AST'' '''', zd ''-03'' ''-03'' '''',
     zd ''CST'' ''CST'' '''', zd ''AST'' ''AST'' '''', zd ''-04'' ''-04'' '''', zd ''-05'' ''-05'' '''',
     zd ''MST'' ''MDT'' '''', zd ''MST'' ''MDT'' '''', zd ''-04'' ''-04'' '''', zd ''EST'' ''EST'' '''',
     zd ''-04'' ''-04'' '''', zd ''-03'' ''-03'' '''', zd ''EST'' ''EST'' '''',
     zd ''CST'' ''CDT'' ''US'', zd ''CST'' ''CST'' '''', zd ''MST'' ''MDT'' '''',
     zd ''CST'' ''CST'' '''', zd ''-03'' ''-03'' '''', zd ''MST'' ''MST'' '''', zd ''-04'' ''-04'' '''',
     zd ''AST'' ''AST'' '''', zd ''GMT'' ''GMT'' '''', zd ''MST'' ''MST'' '''', zd ''MST'' ''MST'' '''',
     zd ''MST'' ''MDT'' ''US'', zd ''EST'' ''EDT'' ''US'', zd ''AST'' ''AST'' '''',
     zd ''MST'' ''MDT'' '''', zd ''-05'' ''-05'' '''', zd ''CST'' ''CST'' '''', zd ''MST'' ''MST'' '''',
     zd ''-03'' ''-03'' '''', zd ''AST'' ''ADT'' '''', zd ''AST'' ''ADT'' '''', zd ''EST'' ''EDT'' '''',
     zd ''AST'' ''AST'' '''', zd ''AST'' ''AST'' '''', zd ''CST'' ''CST'' '''', zd ''-05'' ''-05'' '''',
     zd ''-04'' ''-04'' '''', zd ''AST'' ''ADT'' '''', zd ''CST'' ''CDT'' '''', zd ''MST'' ''MST'' '''',
     zd ''EST'' ''EDT'' '''', zd ''CST'' ''CDT'' '''', zd ''EST'' ''EDT'' '''', zd ''EST'' ''EDT'' '''',
     zd ''CST'' ''CDT'' '''', zd ''EST'' ''EDT'' '''', zd ''EST'' ''EDT'' '''', zd ''EST'' ''EDT'' '''',
     zd ''MST'' ''MDT'' '''', zd ''EST'' ''EDT'' '''', zd ''EST'' ''EST'' '''',
     zd ''AKST'' ''AKDT'' '''', zd ''EST'' ''EDT'' '''', zd ''EST'' ''EDT'' '''',
     zd ''-04'' ''-04'' '''', zd ''-05'' ''-05'' '''', zd ''PST'' ''PDT'' ''US'',
     zd ''-03'' ''-03'' '''', zd ''CST'' ''CST'' '''', zd ''-04'' ''-04'' '''', zd ''AST'' ''AST'' '''',
     zd ''CST'' ''CDT'' '''', zd ''MST'' ''MST'' '''', zd ''CST'' ''CDT'' '''', zd ''CST'' ''CST'' '''',
     zd ''AKST'' ''AKDT'' '''', zd ''CST'' ''CST'' '''', zd ''-03'' ''-02'' '''',
     zd ''AST'' ''ADT'' '''', zd ''CST'' ''CST'' '''', zd ''-03'' ''-03'' '''', zd ''AST'' ''AST'' '''',
     zd ''EST'' ''EDT'' '''', zd ''EST'' ''EDT'' ''US'', zd ''AKST'' ''AKDT'' '''',
     zd ''-02'' ''-02'' '''', zd ''CST'' ''CDT'' '''', zd ''CST'' ''CDT'' '''', zd ''CST'' ''CDT'' '''',
     zd ''-02'' ''-01'' '''', zd ''CST'' ''CDT'' '''', zd ''EST'' ''EST'' '''', zd ''-03'' ''-03'' '''',
     zd ''MST'' ''MST'' ''US'', zd ''EST'' ''EDT'' '''', zd ''AST'' ''AST'' '''',
     zd ''-04'' ''-04'' '''', zd ''AST'' ''AST'' '''', zd ''-03'' ''-03'' '''', zd ''CST'' ''CDT'' '''',
     zd ''-03'' ''-03'' '''', zd ''CST'' ''CST'' '''', zd ''CST'' ''CDT'' '''', zd ''-05'' ''-05'' '''',
     zd ''-03'' ''-03'' '''', zd ''-04'' ''-03'' '''', zd ''AST'' ''AST'' '''',
     zd ''-03'' ''-03'' ''BR'', zd ''-02'' ''-01'' '''', zd ''AKST'' ''AKDT'' '''',
     zd ''NST'' ''NDT'' '''', zd ''AST'' ''AST'' '''', zd ''AST'' ''AST'' '''', zd ''AST'' ''AST'' '''',
     zd ''AST'' ''AST'' '''', zd ''CST'' ''CST'' '''', zd ''CST'' ''CST'' '''', zd ''AST'' ''ADT'' '''',
     zd ''PST'' ''PDT'' '''', zd ''EST'' ''EDT'' ''CA'', zd ''AST'' ''AST'' '''',
     zd ''PST'' ''PDT'' ''CA'', zd ''MST'' ''MST'' '''', zd ''CST'' ''CDT'' '''',
     zd ''AKST'' ''AKDT'' '''', zd ''+08'' ''+08'' '''', zd ''+07'' ''+07'' '''',
     zd ''+10'' ''+10'' '''', zd ''AEST'' ''AEDT'' '''', zd ''+05'' ''+05'' '''',
     zd ''NZST'' ''NZDT'' '''', zd ''-03'' ''-03'' '''', zd ''-03'' ''-03'' '''',
     zd ''+03'' ''+03'' '''', zd ''+00'' ''+02'' '''', zd ''+05'' ''+05'' '''', zd ''+03'' ''+03'' '''',
     zd ''+05'' ''+05'' '''', zd ''+03'' ''+03'' '''', zd ''+12'' ''+12'' '''', zd ''+05'' ''+05'' '''',
     zd ''+05'' ''+05'' '''', zd ''+05'' ''+05'' '''', zd ''+05'' ''+05'' '''', zd ''+03'' ''+03'' '''',
     zd ''+03'' ''+03'' '''', zd ''+04'' ''+04'' '''', zd ''+07'' ''+07'' '''', zd ''+07'' ''+07'' '''',
     zd ''EET'' ''EEST'' '''', zd ''+06'' ''+06'' '''', zd ''+08'' ''+08'' '''',
     zd ''+09'' ''+09'' '''', zd ''+0530'' ''+0530'' '''', zd ''+03'' ''+03'' '''',
     zd ''+06'' ''+06'' '''', zd ''+09'' ''+09'' '''', zd ''+04'' ''+04'' '''', zd ''+05'' ''+05'' '''',
     zd ''EET'' ''EEST'' '''', zd ''EET'' ''EEST'' '''', zd ''EET'' ''EEST'' '''',
     zd ''+07'' ''+07'' '''', zd ''HKT'' ''HKT'' ''CN'', zd ''+07'' ''+07'' '''',
     zd ''+08'' ''+08'' '''', zd ''WIB'' ''WIB'' '''', zd ''WIT'' ''WIT'' '''', zd ''IST'' ''IDT'' '''',
     zd ''+0430'' ''+0430'' '''', zd ''+12'' ''+12'' '''', zd ''PKT'' ''PKT'' '''',
     zd ''+0545'' ''+0545'' '''', zd ''+09'' ''+09'' '''', zd ''IST'' ''IST'' ''IN'',
     zd ''+07'' ''+07'' '''', zd ''+08'' ''+08'' '''', zd ''+08'' ''+08'' '''', zd ''+03'' ''+03'' '''',
     zd ''CST'' ''CST'' '''', zd ''+11'' ''+11'' '''', zd ''WITA'' ''WITA'' '''',
     zd ''PST'' ''PST'' '''', zd ''+04'' ''+04'' '''', zd ''EET'' ''EEST'' '''',
     zd ''+07'' ''+07'' '''', zd ''+07'' ''+07'' '''', zd ''+06'' ''+06'' '''', zd ''+05'' ''+05'' '''',
     zd ''+07'' ''+07'' '''', zd ''WIB'' ''WIB'' '''', zd ''KST'' ''KST'' '''', zd ''+03'' ''+03'' '''',
     zd ''+05'' ''+05'' '''', zd ''+05'' ''+05'' '''', zd ''+03'' ''+03'' '''', zd ''+11'' ''+11'' '''',
     zd ''+05'' ''+05'' '''', zd ''KST'' ''KST'' ''KR'', zd ''CST'' ''CST'' ''CN'',
     zd ''+08'' ''+08'' ''SG'', zd ''+11'' ''+11'' '''', zd ''CST'' ''CST'' ''CN'',
     zd ''+05'' ''+05'' '''', zd ''+04'' ''+04'' '''', zd ''+0330'' ''+0330'' '''',
     zd ''+06'' ''+06'' '''', zd ''JST'' ''JST'' ''JP'', zd ''+07'' ''+07'' '''',
     zd ''+08'' ''+08'' '''', zd ''+06'' ''+06'' '''', zd ''+10'' ''+10'' '''', zd ''+07'' ''+07'' '''',
     zd ''+10'' ''+10'' '''', zd ''+09'' ''+09'' '''', zd ''+0630'' ''+0630'' '''',
     zd ''+05'' ''+05'' '''', zd ''+04'' ''+04'' '''', zd ''-01'' ''+00'' '''', zd ''AST'' ''ADT'' '''',
     zd ''WET'' ''WEST'' '''', zd ''-01'' ''-01'' '''', zd ''WET'' ''WEST'' '''',
     zd ''WET'' ''WEST'' '''', zd ''GMT'' ''GMT'' '''', zd ''-02'' ''-02'' '''',
     zd ''GMT'' ''GMT'' '''', zd ''-03'' ''-03'' '''', zd ''ACST'' ''ACDT'' ''AU'',
     zd ''AEST'' ''AEST'' ''AU'', zd ''ACST'' ''ACDT'' ''AU'', zd ''ACST'' ''ACST'' ''AU'',
     zd ''+0845'' ''+0845'' ''AU'', zd ''AEST'' ''AEDT'' ''AU'', zd ''AEST'' ''AEST'' ''AU'',
     zd ''+1030'' ''+11'' ''AU'', zd ''AEST'' ''AEDT'' ''AU'', zd ''AWST'' ''AWST'' ''AU'',
     zd ''AEST'' ''AEDT'' ''AU'', zd ''GMT'' ''GMT'' '''', zd ''-01'' ''-01'' '''',
     zd ''-10'' ''-10'' '''', zd ''-11'' ''-11'' '''', zd ''-12'' ''-12'' '''', zd ''-02'' ''-02'' '''',
     zd ''-03'' ''-03'' '''', zd ''-04'' ''-04'' '''', zd ''-05'' ''-05'' '''', zd ''-06'' ''-06'' '''',
     zd ''-07'' ''-07'' '''', zd ''-08'' ''-08'' '''', zd ''-09'' ''-09'' '''', zd ''+01'' ''+01'' '''',
     zd ''+10'' ''+10'' '''', zd ''+11'' ''+11'' '''', zd ''+12'' ''+12'' '''', zd ''+13'' ''+13'' '''',
     zd ''+14'' ''+14'' '''', zd ''+02'' ''+02'' '''', zd ''+03'' ''+03'' '''', zd ''+04'' ''+04'' '''',
     zd ''+05'' ''+05'' '''', zd ''+06'' ''+06'' '''', zd ''+07'' ''+07'' '''', zd ''+08'' ''+08'' '''',
     zd ''+09'' ''+09'' '''', zd ''UTC'' ''UTC'' '''', zd ''CET'' ''CEST'' ''NL'',
     zd ''CET'' ''CEST'' '''', zd ''+04'' ''+04'' '''', zd ''EET'' ''EEST'' '''',
     zd ''CET'' ''CEST'' '''', zd ''CET'' ''CEST'' ''DE'', zd ''CET'' ''CEST'' '''',
     zd ''EET'' ''EEST'' ''RO'', zd ''CET'' ''CEST'' '''', zd ''EET'' ''EEST'' '''',
     zd ''CET'' ''CEST'' '''', zd ''GMT'' ''IST'' '''', zd ''CET'' ''CEST'' '''',
     zd ''GMT'' ''BST'' '''', zd ''EET'' ''EEST'' '''', zd ''GMT'' ''BST'' '''',
     zd ''+03'' ''+03'' '''', zd ''GMT'' ''BST'' '''', zd ''EET'' ''EET'' '''', zd ''MSK'' ''MSK'' '''',
     zd ''EET'' ''EEST'' '''', zd ''WET'' ''WEST'' '''', zd ''CET'' ''CEST'' '''',
     zd ''GMT'' ''BST'' ''GB'', zd ''CET'' ''CEST'' '''', zd ''CET'' ''CEST'' ''ES'',
     zd ''CET'' ''CEST'' '''', zd ''+03'' ''+03'' '''', zd ''CET'' ''CEST'' '''',
     zd ''MSK'' ''MSK'' ''RU'', zd ''CET'' ''CEST'' '''', zd ''CET'' ''CEST'' ''FR'',
     zd ''CET'' ''CEST'' '''', zd ''EET'' ''EEST'' '''', zd ''CET'' ''CEST'' ''IT'',
     zd ''+04'' ''+04'' '''', zd ''CET'' ''CEST'' '''', zd ''+04'' ''+04'' '''',
     zd ''MSK'' ''MSK'' '''', zd ''CET'' ''CEST'' '''', zd ''EET'' ''EEST'' '''',
     zd ''CET'' ''CEST'' ''SE'', zd ''EET'' ''EEST'' '''', zd ''CET'' ''CEST'' '''',
     zd ''+04'' ''+04'' '''', zd ''CET'' ''CEST'' '''', zd ''CET'' ''CEST'' '''',
     zd ''EET'' ''EEST'' '''', zd ''MSK'' ''MSK'' '''', zd ''CET'' ''CEST'' ''PL'',
     zd ''CET'' ''CEST'' '''', zd ''CET'' ''CEST'' '''', zd ''-00'' ''-00'' '''',
     zd ''EAT'' ''EAT'' '''', zd ''+06'' ''+06'' '''', zd ''+07'' ''+07'' '''',
     zd ''+0630'' ''+0630'' '''', zd ''EAT'' ''EAT'' '''', zd ''+05'' ''+05'' '''',
     zd ''+04'' ''+04'' '''', zd ''+05'' ''+05'' '''', zd ''+04'' ''+04'' '''', zd ''EAT'' ''EAT'' '''',
     zd ''+04'' ''+04'' '''', zd ''+13'' ''+13'' '''', zd ''NZST'' ''NZDT'' '''',
     zd ''+11'' ''+11'' '''', zd ''+1245'' ''+1345'' '''', zd ''+10'' ''+10'' '''',
     zd ''-06'' ''-05'' '''', zd ''+11'' ''+11'' '''', zd ''+13'' ''+13'' '''', zd ''+12'' ''+12'' '''',
     zd ''+12'' ''+12'' '''', zd ''-06'' ''-06'' '''', zd ''-09'' ''-09'' '''', zd ''+11'' ''+11'' '''',
     zd ''ChST'' ''ChST'' '''', zd ''HST'' ''HST'' '''', zd ''+13'' ''+13'' '''',
     zd ''+14'' ''+14'' '''', zd ''+11'' ''+11'' '''', zd ''+12'' ''+12'' '''', zd ''+12'' ''+12'' '''',
     zd ''-0930'' ''-0930'' '''', zd ''SST'' ''SST'' '''', zd ''+12'' ''+12'' '''',
     zd ''-11'' ''-11'' '''', zd ''+11'' ''+12'' '''', zd ''+11'' ''+11'' '''', zd ''SST'' ''SST'' '''',
     zd ''+09'' ''+09'' '''', zd ''-08'' ''-08'' '''', zd ''+11'' ''+11'' '''', zd ''+10'' ''+10'' '''',
     zd ''-10'' ''-10'' '''', zd ''ChST'' ''ChST'' '''', zd ''-10'' ''-10'' '''',
     zd ''+12'' ''+12'' '''', zd ''+13'' ''+12'' '''', zd ''+12'' ''+12'' '''', zd ''+12'' ''+12'' '''']"


definition long_names :: "(string \<times> string) list" where
  "long_names =
     [(''EST'', ''Eastern Standard Time''),
      (''EDT'', ''Eastern Daylight Time''),
      (''CST'', ''Central Standard Time''),
      (''CDT'', ''Central Daylight Time''),
      (''MST'', ''Mountain Standard Time''),
      (''MDT'', ''Mountain Daylight Time''),
      (''PST'', ''Pacific Standard Time''),
      (''PDT'', ''Pacific Daylight Time''),
      (''AKST'', ''Alaska Standard Time''),
      (''AKDT'', ''Alaska Daylight Time''),
      (''HST'', ''Hawaii-Aleutian Standard Time''),
      (''GMT'', ''Greenwich Mean Time''),
      (''BST'', ''British Summer Time''),
      (''CET'', ''Central European Standard Time''),
      (''CEST'', ''Central European Summer Time''),
      (''EET'', ''Eastern European Standard Time''),
      (''EEST'', ''Eastern European Summer Time''),
      (''WET'', ''Western European Standard Time''),
      (''WEST'', ''Western European Summer Time''),
      (''MSK'', ''Moscow Standard Time''),
      (''UTC'', ''Coordinated Universal Time''),
      (''IST'', ''India Standard Time''),
      (''JST'', ''Japan Standard Time''),
      (''KST'', ''Korea Standard Time''),
      (''AWST'', ''Australian Western Standard Time''),
      (''ACST'', ''Australian Central Standard Time''),
      (''ACDT'', ''Australian Central Daylight Time''),
      (''AEST'', ''Australian Eastern Standard Time''),
      (''AEDT'', ''Australian Eastern Daylight Time''),
      (''NZST'', ''New Zealand Standard Time''),
      (''NZDT'', ''New Zealand Daylight Time''),
      (''HKT'', ''Hong Kong Standard Time''),
      (''SGT'', ''Singapore Standard Time''),
      (''WAT'', ''West Africa Standard Time''),
      (''EAT'', ''East Africa Standard Time''),
      (''CAT'', ''Central Africa Time''),
      (''SAST'', ''South Africa Standard Time''),
      (''GST'', ''Gulf Standard Time''),
      (''TRT'', ''Turkey Time''),
      (''PKT'', ''Pakistan Standard Time''),
      (''BDT'', ''Bangladesh Standard Time''),
      (''ICT'', ''Indochina Time''),
      (''WIB'', ''Western Indonesia Time''),
      (''BRST'', ''Brasilia Summer Time''),
      (''BRT'', ''Brasilia Time''),
      (''ART'', ''Argentina Time''),
      (''CLT'', ''Chile Standard Time''),
      (''CLST'', ''Chile Summer Time''),
      (''COT'', ''Colombia Time''),
      (''PET'', ''Peru Time''),
      (''VET'', ''Venezuela Time'')]"

section \<open>The tables are well formed\<close>

fun ascending :: "'a::linorder list \<Rightarrow> bool" where
  "ascending (x # y # xs) = (x < y \<and> ascending (y # xs))"
| "ascending xs = True"

lemma ascending_sorted: "ascending xs = sorted_wrt (<) xs"
  by (induction xs rule: ascending.induct) (auto intro: less_trans)

definition emb_ok :: "emb_table \<Rightarrow> bool" where
  "emb_ok t = (length (em_off t) = length (em_ts t) \<and> ascending (em_ts t))"

lemma emb_tables_ok: "list_all emb_ok EMB_TABLES"
  by (simp add: EMB_TABLES_def emb_ok_def EMB_CAIRO_TS_def EMB_CAIRO_OFF_def EMB_CASABLANCA_TS_def
      EMB_CASABLANCA_OFF_def EMB_SANTIAGO_TS_def EMB_SANTIAGO_OFF_def EMB_GAZA_TS_def EMB_GAZA_OFF_def
      EMB_EASTER_OFF_def)

definition row_ok :: "transition_row \<Rightarrow> bool" where
  "row_ok t = (1 \<le> tt_month t \<and> tt_month t \<le> 12 \<and> 0 \<le> tt_weekday t \<and> tt_weekday t \<le> 6 \<and>
     (1 \<le> tt_week t \<and> tt_week t \<le> 5 \<or> - 4 \<le> tt_week t \<and> tt_week t \<le> - 1))"

lemma rules_ok: "list_all (\<lambda>r. row_ok (tr_start r) \<and> row_ok (tr_end r)) RULES"
  by (simp add: RULES_def tz_rule_def tz_transition_def row_ok_def)

definition core_ok :: "zone_core \<Rightarrow> bool" where
  "core_ok c = (zc_emb c < 6 \<and> (zc_rule c < 13 \<or> zc_rule c = RULE_NONE))"

lemma core_ok_zc: "core_ok (zc s r e p) = (e < 6 \<and> (r < 13 \<or> r = RULE_NONE))"
  by (simp add: core_ok_def zc_def)

lemma zcore_ok: "list_all core_ok ZCORE"
  unfolding ZCORE_def by (simp add: core_ok_zc)

lemma table_lengths [simp]: "length ZONE_NAMES = 436" "length ZCORE = 436" "length ZDISPLAY = 436"
    "length RULES = 13" "length EMB_TABLES = 6"
  by (simp_all add: ZONE_NAMES_def ZCORE_def ZDISPLAY_def RULES_def EMB_TABLES_def)

lemma char_less_byte: "(x :: char) < y \<longleftrightarrow> (of_char x :: nat) < of_char y"
  by (simp add: less_char_def)

lemma zone_names_ascending: "ascending ZONE_NAMES"
  unfolding ZONE_NAMES_def by (simp add: char_less_byte)

end
