(* ===== verification/Time_Zone.thy ===== *)
theory Time_Zone
  imports Zone_Tables Calendar Math_Util Std_Text "HOL-Library.List_Lexorder" "HOL-Library.Char_ord"
begin

text \<open>
  Time zones of \<open>crates/core-utils/src/tz.rs\<close>: the lookup of a zone, the day of a transition, the offset of a
  zone at an instant with the cache of the last rule, and the labels. The tables are those of Zone_Tables.
\<close>

section \<open>Zones\<close>

text \<open>\<open>slice::binary_search\<close> on a strictly ascending list: Inr the index, Inl where it would go.\<close>

definition binary_search :: "'a::linorder list \<Rightarrow> 'a \<Rightarrow> nat + nat" where
  "binary_search xs x =
     (let i = length (takeWhile (\<lambda>y. y < x) xs)
      in if i < length xs \<and> xs ! i = x then Inr i else Inl i)"

record civil =
  cv_year :: int
  cv_month :: int
  cv_day :: int
  cv_hour :: int
  cv_minute :: int
  cv_second :: int
  cv_dow :: int

definition civil_of :: "int \<Rightarrow> int \<Rightarrow> civil" where
  "civil_of unix_ms off_min =
     (let loc = unix_ms + off_min * MS_MIN; days = loc div MS_DAY; rem = loc mod MS_DAY
      in case civil_from_days days of (y, m, d) \<Rightarrow>
           \<lparr>cv_year = y, cv_month = m, cv_day = d, cv_hour = rem div MS_HOUR, cv_minute = rem mod MS_HOUR div MS_MIN,
            cv_second = rem mod MS_MIN div 1000, cv_dow = dow_from_days days\<rparr>)"

definition nth_weekday_of_month :: "int \<Rightarrow> int \<Rightarrow> int \<Rightarrow> int \<Rightarrow> int" where
  "nth_weekday_of_month year month week weekday =
     (let first = days_from_civil year month 1;
          first_dow = dow_from_days first;
          delta = (weekday + 7 - first_dow) smod 7
      in if 1 \<le> week then
           (let delta = delta + (week - 1) * 7;
                dim = days_in_month year month;
                day = 1 + delta
            in first + (if dim < day then delta - 7 else delta))
         else
           (let dim = days_in_month year month;
                last_dow = (first_dow + dim - 1) smod 7;
                back = (last_dow + 7 - weekday) smod 7
            in first + (dim - 1 - back - (- week - 1) * 7)))"

definition transition_ms_utc :: "int \<Rightarrow> transition_row \<Rightarrow> int \<Rightarrow> int" where
  "transition_ms_utc year t frame_off_min =
     (let days = nth_weekday_of_month year (tt_month t) (tt_week t) (tt_weekday t);
          wall_ms = days * MS_DAY + tt_hour t * MS_HOUR
      in wall_ms - frame_off_min * MS_MIN)"

definition emb_offset :: "emb_table \<Rightarrow> int \<Rightarrow> int option" where
  "emb_offset emb unix_ms =
     (let sec = unix_ms div MS_SEC;
          i = (case binary_search (em_ts emb) sec of Inr i \<Rightarrow> i | Inl i \<Rightarrow> if i = 0 then 0 else i - 1)
      in if i < length (em_off emb) then Some (em_off emb ! i) else None)"

record rule_cache =
  rc_zone :: nat
  rc_year :: int
  rc_on :: int
  rc_off :: int
  rc_dst :: int

definition RULE_CACHE :: rule_cache where
  "RULE_CACHE = \<lparr>rc_zone = 65535, rc_year = 0, rc_on = 0, rc_off = 0, rc_dst = 0\<rparr>"

definition fill_cache :: "nat \<Rightarrow> int \<Rightarrow> int \<Rightarrow> rule_row \<Rightarrow> rule_cache" where
  "fill_cache zone year std_min rule =
     \<lparr>rc_zone = zone, rc_year = year,
      rc_on = transition_ms_utc year (tr_start rule) std_min,
      rc_off = transition_ms_utc year (tr_end rule) (std_min + tr_dst_add_min rule),
      rc_dst = std_min + tr_dst_add_min rule\<rparr>"

definition in_dst :: "rule_cache \<Rightarrow> int \<Rightarrow> bool" where
  "in_dst rv unix_ms =
     (if rc_on rv \<le> rc_off rv then rc_on rv \<le> unix_ms \<and> unix_ms < rc_off rv
      else rc_on rv \<le> unix_ms \<or> unix_ms < rc_off rv)"

text \<open>None is a panic: an index out of a table.\<close>

definition tz_offset_min :: "nat \<Rightarrow> int \<Rightarrow> rule_cache \<Rightarrow> (int \<times> rule_cache) option" where
  "tz_offset_min zone unix_ms rc =
     (if length ZCORE \<le> zone then None
      else let c = ZCORE ! zone in
        if zc_emb c \<noteq> 0 then
          (if length EMB_TABLES \<le> zc_emb c then None
           else let t = EMB_TABLES ! zc_emb c; sec = unix_ms div MS_SEC
             in if em_ts t = [] \<or> sec < hd (em_ts t) then Some (zc_pre c, rc)
                else map_option (\<lambda>o'. (o', rc)) (emb_offset t unix_ms))
        else if zc_rule c = RULE_NONE then Some (zc_std_min c, rc)
        else
          let year = year_from_days (unix_ms div MS_DAY); std_min = zc_std_min c in
          if rc_zone rc = zone \<and> rc_year rc = year
          then Some (if in_dst rc unix_ms then rc_dst rc else std_min, rc)
          else if length RULES \<le> zc_rule c then None
          else let nb = fill_cache zone year std_min (RULES ! zc_rule c)
            in Some (if in_dst nb unix_ms then rc_dst nb else std_min, nb))"

definition tz_offset_zone :: "nat option \<Rightarrow> int \<Rightarrow> rule_cache \<Rightarrow> (int \<times> rule_cache) option" where
  "tz_offset_zone zone unix_ms rc =
     (case zone of None \<Rightarrow> Some (0, rc) | Some z \<Rightarrow> tz_offset_min z unix_ms rc)"

definition zone_of :: "string \<Rightarrow> nat option" where
  "zone_of name = (case binary_search ZONE_NAMES name of Inr i \<Rightarrow> Some (i mod 65536) | Inl _ \<Rightarrow> None)"

definition zone_name :: "nat \<Rightarrow> string option" where
  "zone_name zone = (if zone < length ZONE_NAMES then Some (ZONE_NAMES ! zone) else None)"

definition tz_offset_for :: "string \<Rightarrow> int \<Rightarrow> rule_cache \<Rightarrow> (int \<times> rule_cache) option" where
  "tz_offset_for name unix_ms rc = tz_offset_zone (zone_of name) unix_ms rc"

text \<open>The outer None is the panic of an index out of the table.\<close>

definition country_of :: "string \<Rightarrow> string option option" where
  "country_of name =
     (case zone_of name of
        None \<Rightarrow> Some None
      | Some z \<Rightarrow>
          if length ZDISPLAY \<le> z then None
          else let c = zd_country (ZDISPLAY ! z) in Some (if c = [] then None else Some c))"

section \<open>Labels\<close>

definition abbr_is_offset_form :: "string \<Rightarrow> bool" where
  "abbr_is_offset_form b =
     (b \<noteq> [] \<and> (hd b = CHR ''+'' \<or> hd b = CHR ''-'') \<and> 2 \<le> length b \<or> b = [] \<or> b = ''GMT'' \<or> b = ''UT'')"

definition push_offset_into :: "string \<Rightarrow> int \<Rightarrow> bool \<Rightarrow> string option" where
  "push_offset_into out off_min colon =
     (let sign = (if off_min < 0 then CHR ''-'' else CHR ''+''); a = \<bar>off_min\<bar>; h = a div 60; m = a mod 60;
          out = out @ [sign]
      in if colon then
           (case push_int_into out h of
              None \<Rightarrow> None
            | Some out \<Rightarrow> if m \<noteq> 0 then push_int_padded_into (out @ '':'') m 2 else Some out)
         else case push_int_padded_into out h 2 of None \<Rightarrow> None | Some out \<Rightarrow> push_int_padded_into out m 2)"

definition zone_abbr :: "zone_disp \<Rightarrow> bool \<Rightarrow> string" where
  "zone_abbr d dst = (if dst then zd_abbr_dst d else zd_abbr_std d)"

definition push_abbrev :: "zone_disp \<Rightarrow> string \<Rightarrow> bool \<Rightarrow> int \<Rightarrow> string option" where
  "push_abbrev d out dst off_min =
     (let abbr = zone_abbr d dst
      in if abbr_is_offset_form abbr then push_offset_into out off_min True else Some (out @ abbr))"

definition long_name_of :: "zone_disp \<Rightarrow> bool \<Rightarrow> string option" where
  "long_name_of d dst =
     (let abbr = zone_abbr d dst in if abbr_is_offset_form abbr then None else map_of long_names abbr)"

definition push_long_name :: "zone_disp \<Rightarrow> string \<Rightarrow> bool \<Rightarrow> int \<Rightarrow> string option" where
  "push_long_name d out dst off_min =
     (case long_name_of d dst of Some long \<Rightarrow> Some (out @ long) | None \<Rightarrow> push_abbrev d out dst off_min)"

definition zone_label_zone ::
  "nat option \<Rightarrow> int \<Rightarrow> bool \<Rightarrow> string \<Rightarrow> rule_cache \<Rightarrow> (string \<times> rule_cache) option" where
  "zone_label_zone zone unix_ms long out rc =
     (case zone of
        None \<Rightarrow> Some (out @ ''UTC'', rc)
      | Some z \<Rightarrow>
          (case tz_offset_min z unix_ms rc of
             None \<Rightarrow> None
           | Some (off, rc') \<Rightarrow>
               if length ZDISPLAY \<le> z then None
               else let dst = off \<noteq> zc_std_min (ZCORE ! z)
                 in map_option (\<lambda>out. (out, rc'))
                      ((if long then push_long_name else push_abbrev) (ZDISPLAY ! z) out dst off)))"

section \<open>The day of a transition\<close>

lemma days_from_civil_day: "days_from_civil y m d = days_from_civil y m 1 + (d - 1)"
  by (simp add: days_from_civil_def Let_def)

lemma dow_range: "0 \<le> dow_from_days d" "dow_from_days d \<le> 6"
  by (simp_all add: dow_from_days_def)

lemma dow_add: "dow_from_days (d + k) = (dow_from_days d + k) mod 7"
  by (simp add: dow_from_days_def mod_simps algebra_simps)

lemma dim_range: "1 \<le> m \<Longrightarrow> m \<le> 12 \<Longrightarrow> 28 \<le> days_in_month y m \<and> days_in_month y m \<le> 31"
proof -
  assume m: "1 \<le> m" "m \<le> 12"
  have "m = 1 \<or> m = 2 \<or> m = 3 \<or> m = 4 \<or> m = 5 \<or> m = 6 \<or> m = 7 \<or> m = 8 \<or> m = 9 \<or> m = 10 \<or> m = 11 \<or> m = 12"
    using m by presburger
  then show ?thesis unfolding days_in_month_def by (elim disjE) simp_all
qed

lemma smod7: "0 \<le> x \<Longrightarrow> x smod 7 = (x :: int) mod 7"
  by (auto simp: signed_modulo_int_def sgn_if)

lemma from_first: "0 \<le> w \<Longrightarrow> w \<le> 6 \<Longrightarrow> 0 \<le> f \<Longrightarrow> f \<le> 6 \<Longrightarrow> (f + (w + 7 - f) mod 7) mod 7 = (w :: int)"
  by presburger

lemma from_last:
  assumes "0 \<le> w" "w \<le> 6"
  shows "(f + (n - 1 - ((f + n - 1) mod 7 + 7 - w) mod 7)) mod 7 = (w :: int)"
proof -
  define t where "t = f + n - 1"
  have "f + (n - 1 - (t mod 7 + 7 - w) mod 7) = t - (t mod 7 + 7 - w) mod 7" by (simp add: t_def)
  then have "(f + (n - 1 - (t mod 7 + 7 - w) mod 7)) mod 7 = (t - (t mod 7 + 7 - w)) mod 7"
    by (simp only: mod_diff_right_eq)
  also have "t - (t mod 7 + 7 - w) = w + 7 * (t div 7 - 1)"
    using mult_div_mod_eq [of 7 t] by (simp add: algebra_simps)
  also have "(w + 7 * (t div 7 - 1)) mod 7 = w mod 7" by (rule mod_mult_self2)
  also have "w mod 7 = w" using assms by simp
  finally show ?thesis by (simp add: t_def)
qed

definition in_week :: "int \<Rightarrow> int \<Rightarrow> int \<Rightarrow> bool" where
  "in_week dim w k \<longleftrightarrow>
     (if 1 \<le> w \<and> w \<le> 4 then (k - 1) div 7 = w - 1
      else if w = 5 then dim < k + 7
      else (dim - k) div 7 = - w - 1)"

lemma week_div: "0 \<le> d \<Longrightarrow> d \<le> 6 \<Longrightarrow> (d + c * 7) div 7 = (c :: int)"
  by (simp add: div_pos_pos_trivial)

lemma in_week_first:
  "1 \<le> w \<Longrightarrow> w \<le> 4 \<Longrightarrow> 0 \<le> d \<Longrightarrow> d \<le> 6 \<Longrightarrow> in_week n w (1 + (d + (w - 1) * 7))"
  using week_div [of d "w - 1"] by (simp add: in_week_def)

lemma in_week_last:
  "w \<le> - 1 \<Longrightarrow> 0 \<le> b \<Longrightarrow> b \<le> 6 \<Longrightarrow> in_week n w (1 + (n - 1 - b - (- w - 1) * 7))"
  using week_div [of b "- w - 1"] by (simp add: in_week_def algebra_simps)

lemma nth_weekday_lemma:
  assumes m: "1 \<le> m" "m \<le> 12" and wd: "0 \<le> wd" "wd \<le> 6" and w: "1 \<le> w \<and> w \<le> 5 \<or> - 4 \<le> w \<and> w \<le> - 1"
  shows "\<exists>k. nth_weekday_of_month y m w wd = days_from_civil y m k \<and> 1 \<le> k \<and> k \<le> days_in_month y m \<and>
    dow_from_days (nth_weekday_of_month y m w wd) = wd \<and> in_week (days_in_month y m) w k"
proof -
  define first where "first = days_from_civil y m 1"
  define f where "f = dow_from_days first"
  define n where "n = days_in_month y m"
  have f: "0 \<le> f" "f \<le> 6" using dow_range by (simp_all add: f_def)
  have n: "28 \<le> n" "n \<le> 31" using dim_range [OF m] by (simp_all add: n_def)
  have day: "days_from_civil y m (1 + k) = first + k" for k
    using days_from_civil_day [of y m "1 + k"] by (simp add: first_def)
  have dow: "dow_from_days (first + k) = (f + k) mod 7" for k by (simp add: dow_add f_def)
  show ?thesis
  proof (cases "1 \<le> w")
    case True
    define d where "d = (wd + 7 - f) mod 7"
    have d: "0 \<le> d" "d \<le> 6" "(f + d) mod 7 = wd"
      using from_first [OF wd f] by (simp_all add: d_def)
    define e where "e = d + (w - 1) * 7"
    define k where "k = (if n < 1 + e then e - 7 else e)"
    have nth: "nth_weekday_of_month y m w wd = first + k"
      using True wd f smod7 [of "wd + 7 - f"]
      by (simp add: nth_weekday_of_month_def Let_def k_def e_def d_def flip: first_def f_def n_def)
    obtain q where q: "k = d + 7 * q" "0 \<le> k" "k < n" "in_week n w (1 + k)"
    proof (cases "n < 1 + e")
      case big: True
      have w5: "w = 5"
      proof (rule ccontr)
        assume "w \<noteq> 5"
        then have "w \<le> 4" using w True by linarith
        then show False using big n d by (simp add: e_def)
      qed
      then have k: "k = d + 21" using big by (simp add: k_def e_def)
      show ?thesis
      proof (rule that [of 3])
        show "in_week n w (1 + k)" using n d big by (simp add: in_week_def w5 k e_def)
      qed (use k d n in simp_all)
    next
      case False
      then have k: "k = d + (w - 1) * 7" by (simp add: k_def e_def)
      show ?thesis
      proof (rule that [of "w - 1"])
        show "in_week n w (1 + k)"
        proof (cases "w = 5")
          case True
          then show ?thesis using n d by (simp add: in_week_def k)
        next
          case w4: False
          then show ?thesis unfolding k using True w d by (intro in_week_first) auto
        qed
        show "k < n" using False by (simp add: k e_def)
      qed (use k d True in simp_all)
    qed
    have "(f + k) mod 7 = wd" using d(3) by (simp add: q(1) flip: add.assoc)
    then show ?thesis using q day [of k] dow [of k] by (intro exI [of _ "1 + k"]) (simp add: nth n_def)
  next
    case False
    define b where "b = ((f + n - 1) mod 7 + 7 - wd) mod 7"
    have b: "0 \<le> b" "b \<le> 6" by (simp_all add: b_def)
    define k where "k = n - 1 - b - (- w - 1) * 7"
    have l: "0 \<le> f + n - 1" "0 \<le> (f + n - 1) mod 7 + 7 - wd" using f n wd by auto
    have nth: "nth_weekday_of_month y m w wd = first + k"
      using False smod7 [OF l(1)] smod7 [OF l(2)]
      by (simp add: nth_weekday_of_month_def Let_def k_def b_def flip: first_def f_def n_def)
    have "f + k = f + (n - 1 - b) + 7 * (w + 1)" by (simp add: k_def)
    then have "(f + k) mod 7 = (f + (n - 1 - b)) mod 7" by (simp only: mod_mult_self2)
    then have "(f + k) mod 7 = wd" using from_last [OF wd, of f n] by (simp add: b_def)
    moreover have "in_week n w (1 + k)" unfolding k_def using False w b by (intro in_week_last) auto
    moreover have "0 \<le> k" "k < n" using False w n b by (simp_all add: k_def)
    ultimately show ?thesis using day [of k] dow [of k] by (intro exI [of _ "1 + k"]) (simp add: nth n_def)
  qed
qed


section \<open>Looking up a zone\<close>

lemma less_sorted_nth: "sorted_wrt (<) (xs :: 'a::linorder list) \<Longrightarrow> i < length xs \<Longrightarrow> length (takeWhile (\<lambda>y. y < xs ! i) xs) = i"
proof (induction xs arbitrary: i)
  case (Cons x xs)
  show ?case
  proof (cases i)
    case (Suc j)
    then have "x < xs ! j" "j < length xs" using Cons.prems by auto
    then show ?thesis using Cons.IH [of j] Cons.prems by (simp add: Suc)
  qed simp
qed simp

lemma binary_search_found:
  assumes "ascending xs"
  shows "binary_search xs x = Inr i \<longleftrightarrow> i < length xs \<and> xs ! i = x"
  using less_sorted_nth [of xs i] assms by (auto simp: binary_search_def Let_def ascending_sorted)

lemma binary_search_least:
  assumes "ascending xs"
  shows "length (filter (\<lambda>y. y \<le> x) xs) = (case binary_search xs x of Inr i \<Rightarrow> Suc i | Inl i \<Rightarrow> i)"
  using assms
proof (induction xs)
  case (Cons y ys)
  have IH: "length (filter (\<lambda>y. y \<le> x) ys) = (case binary_search ys x of Inr i \<Rightarrow> Suc i | Inl i \<Rightarrow> i)"
    using Cons by (simp add: ascending_sorted)
  show ?case
  proof (cases "y < x")
    case True
    then show ?thesis using IH by (auto simp: binary_search_def Let_def split: if_splits)
  next
    case False
    then have "\<not> z \<le> x" if "z \<in> set ys" for z using Cons.prems that by (auto simp: ascending_sorted)
    then have none: "filter (\<lambda>y. y \<le> x) ys = []" by (simp add: filter_empty_conv)
    show ?thesis using False none by (auto simp: binary_search_def Let_def)
  qed
qed (simp add: binary_search_def)


text \<open>
  C37: \<open>zone_of\<close> finds exactly the names of the table, each at its own index: the binary search is right on
  all 436 names, whose byte order is strictly ascending.
\<close>

theorem zone_of_correct: "zone_of name = Some z \<longleftrightarrow> zone_name z = Some name"
  using binary_search_found [OF zone_names_ascending, of name z]
  by (auto simp: zone_of_def zone_name_def split: sum.splits
      dest: binary_search_found [OF zone_names_ascending, THEN iffD1]
            binary_search_found [OF zone_names_ascending, THEN iffD2, OF conjI, OF _ refl])

section \<open>Offsets do not depend on the cache\<close>

definition offset_at :: "nat \<Rightarrow> int \<Rightarrow> int" where
  "offset_at zone unix_ms =
     (let c = ZCORE ! zone; std = zc_std_min c
      in if zc_emb c \<noteq> 0 then
           (let t = EMB_TABLES ! zc_emb c; past = filter (\<lambda>s. s \<le> unix_ms div MS_SEC) (em_ts t)
            in if past = [] then zc_pre c else em_off t ! (length past - 1))
         else if zc_rule c = RULE_NONE then std
         else
           (let rule = RULES ! zc_rule c; year = year_from_days (unix_ms div MS_DAY);
                on = transition_ms_utc year (tr_start rule) std;
                off = transition_ms_utc year (tr_end rule) (std + tr_dst_add_min rule)
            in if (if on \<le> off then on \<le> unix_ms \<and> unix_ms < off else on \<le> unix_ms \<or> unix_ms < off)
               then std + tr_dst_add_min rule else std))"

fun tz_calls :: "(nat \<times> int) list \<Rightarrow> rule_cache \<Rightarrow> (int list \<times> rule_cache) option" where
  "tz_calls [] rc = Some ([], rc)"
| "tz_calls ((zone, unix_ms) # calls) rc =
     (case tz_offset_min zone unix_ms rc of
        None \<Rightarrow> None
      | Some (o', rc') \<Rightarrow> map_option (\<lambda>(os, rc''). (o' # os, rc'')) (tz_calls calls rc'))"

definition cache_ok :: "rule_cache \<Rightarrow> bool" where
  "cache_ok rc = (rc_zone rc < 436 \<longrightarrow>
     (let c = ZCORE ! rc_zone rc in rc = fill_cache (rc_zone rc) (rc_year rc) (zc_std_min c) (RULES ! zc_rule c)))"

lemma cache_ok_start: "cache_ok RULE_CACHE"
  by (simp add: cache_ok_def RULE_CACHE_def)

lemma cache_ok_fill: "cache_ok (fill_cache z y (zc_std_min (ZCORE ! z)) (RULES ! zc_rule (ZCORE ! z)))"
  by (simp add: cache_ok_def fill_cache_def)

lemma zcore_row: "z < 436 \<Longrightarrow> zc_emb (ZCORE ! z) < 6 \<and> (zc_rule (ZCORE ! z) < 13 \<or> zc_rule (ZCORE ! z) = RULE_NONE)"
  using zcore_ok by (simp add: list_all_length core_ok_def)

lemma emb_row: "e < 6 \<Longrightarrow> emb_ok (EMB_TABLES ! e)"
  using emb_tables_ok by (simp add: list_all_length)

lemma emb_offset_past:
  assumes "emb_ok t" "em_ts t \<noteq> []" "hd (em_ts t) \<le> ms div MS_SEC"
  shows "emb_offset t ms = Some (em_off t ! (length (filter (\<lambda>s. s \<le> ms div MS_SEC) (em_ts t)) - 1))"
    and "filter (\<lambda>s. s \<le> ms div MS_SEC) (em_ts t) \<noteq> []"
proof -
  let ?f = "filter (\<lambda>s. s \<le> ms div MS_SEC) (em_ts t)"
  show ne: "?f \<noteq> []" using assms(2,3) by (auto simp: filter_empty_conv intro!: bexI [of _ "hd (em_ts t)"])
  have "length ?f = (case binary_search (em_ts t) (ms div MS_SEC) of Inr i \<Rightarrow> Suc i | Inl i \<Rightarrow> i)"
    using assms(1) by (intro binary_search_least) (simp add: emb_ok_def)
  moreover have "length ?f \<le> length (em_off t)" using assms(1) by (simp add: emb_ok_def)
  moreover have "0 < length ?f" using ne by blast
  ultimately show "emb_offset t ms = Some (em_off t ! (length ?f - 1))"
    by (auto simp: emb_offset_def Let_def split: sum.splits)
qed


lemma tz_offset_step:
  assumes z: "zone < 436" and rc: "cache_ok rc"
  shows "\<exists>rc'. tz_offset_min zone ms rc = Some (offset_at zone ms, rc') \<and> cache_ok rc'"
proof -
  define c where "c = ZCORE ! zone"
  have row: "zc_emb c < 6" "zc_rule c < 13 \<or> zc_rule c = RULE_NONE"
    using zcore_row [OF z] by (simp_all add: c_def)
  consider (emb) "zc_emb c \<noteq> 0" | (none) "zc_emb c = 0" "zc_rule c = RULE_NONE"
    | (rule) "zc_emb c = 0" "zc_rule c \<noteq> RULE_NONE" by blast
  then show ?thesis
  proof cases
    case emb
    define t where "t = EMB_TABLES ! zc_emb c"
    have t: "emb_ok t" using emb_row [OF row(1)] by (simp add: t_def)
    show ?thesis
    proof (cases "em_ts t = [] \<or> ms div MS_SEC < hd (em_ts t)")
      case True
      then have "filter (\<lambda>s. s \<le> ms div MS_SEC) (em_ts t) = []"
        using t by (cases "em_ts t") (auto simp: emb_ok_def ascending_sorted filter_empty_conv)
      then show ?thesis using True z emb row rc
        by (simp add: tz_offset_min_def offset_at_def Let_def flip: c_def t_def)
    next
      case False
      then show ?thesis using emb_offset_past [OF t, of ms] z emb row rc
        by (simp add: tz_offset_min_def offset_at_def Let_def flip: c_def t_def)
    qed
  next
    case none
    then show ?thesis using z rc by (simp add: tz_offset_min_def offset_at_def Let_def flip: c_def)
  next
    case rule
    let ?y = "year_from_days (ms div MS_DAY)"
    let ?n = "fill_cache zone ?y (zc_std_min c) (RULES ! zc_rule c)"
    have new: "(if in_dst ?n ms then rc_dst ?n else zc_std_min c) = offset_at zone ms"
      using rule by (simp add: offset_at_def Let_def in_dst_def fill_cache_def flip: c_def)
    have hit: "rc = ?n" if "rc_zone rc = zone" "rc_year rc = ?y"
      using rc z that by (simp add: cache_ok_def Let_def c_def)
    have ok: "cache_ok ?n" using cache_ok_fill by (simp add: c_def)
    have "tz_offset_min zone ms rc = Some (offset_at zone ms, ?n)"
    proof (cases "rc_zone rc = zone \<and> rc_year rc = ?y")
      case True
      then have "rc = ?n" using hit by simp
      then show ?thesis using rule row z new True by (simp add: tz_offset_min_def Let_def flip: c_def)
    next
      case False
      then show ?thesis using rule row z
        by (cases "rc_zone rc = zone") (simp_all add: tz_offset_min_def Let_def new flip: c_def)
    qed
    then show ?thesis using ok by blast
  qed
qed

lemma tz_calls_sound:
  "list_all (\<lambda>(zone, _). zone < 436) calls \<Longrightarrow> cache_ok rc \<Longrightarrow>
   \<exists>rc'. tz_calls calls rc = Some (map (\<lambda>(zone, ms). offset_at zone ms) calls, rc')"
proof (induction calls arbitrary: rc)
  case (Cons call calls)
  obtain zone ms where call: "call = (zone, ms)" by fastforce
  obtain rc1 where "tz_offset_min zone ms rc = Some (offset_at zone ms, rc1)" "cache_ok rc1"
    using tz_offset_step [of zone rc ms] Cons.prems by (auto simp: call)
  then show ?case using Cons.IH [of rc1] Cons.prems by (auto simp: call)
qed simp

text \<open>
  C34: whatever calls came before, each call of \<open>tz_offset_min\<close> returns the offset of its own zone at its own
  instant: the cached rule of an earlier zone or year never leaks into the answer, and no table is read out of
  its bounds. The offset is that of the last listed transition that is not later, of the zone's rule evaluated
  in the year, or the standard one.
\<close>

theorem tz_calls_exact:
  assumes "list_all (\<lambda>(zone, _). zone < length ZONE_NAMES) calls"
  shows "\<exists>rc. tz_calls calls RULE_CACHE = Some (map (\<lambda>(zone, ms). offset_at zone ms) calls, rc)"
  using assms by (intro tz_calls_sound cache_ok_start) simp


lemma zcore_examples: "ZCORE ! 339 = zc 60 0 0 60" "ZCORE ! 403 = zc (- 360) RULE_NONE 5 (- 360)"
  by (simp_all add: ZCORE_def)

lemma berlin_year: "year_from_days 19907 = 2024" "year_from_days 20023 = 2024"
  unfolding year_from_days_def era_floor by code_simp+

lemma berlin_transitions:
  "transition_ms_utc 2024 (tz_transition 3 (- 1) 0 2) 60 = 1711846800000"
  "transition_ms_utc 2024 (tz_transition 10 (- 1) 0 3) 120 = 1729990800000"
  by code_simp+

lemma berlin_summer: "offset_at 339 1720000000000 = 120" "offset_at 339 1730000000000 = 60"
  by (simp_all add: offset_at_def zcore_examples zc_def RULE_NONE_def RULES_def tz_rule_def MS_DAY_def
      berlin_year berlin_transitions)


theorem tz_calls_exact_witness:
  "\<exists>rc. tz_calls [(339, 1720000000000), (12, 0), (339, 1730000000000)] RULE_CACHE =
     Some ([120, offset_at 12 0, 60], rc)"
  using tz_calls_exact [of "[(339, 1720000000000), (12, 0), (339, 1730000000000)]"] by (simp add: berlin_summer)

text \<open>
  C38: the day \<open>nth_weekday_of_month\<close> gives for a transition lies in its month, is the wanted weekday, and is
  the wanted occurrence: the week-th of the month, the last one for week 5, and counted from the end for a
  negative week; in every year, months that start or end on that weekday included.
\<close>

theorem nth_weekday:
  assumes "1 \<le> m" "m \<le> 12" and "0 \<le> wd" "wd \<le> 6" and "1 \<le> w \<and> w \<le> 5 \<or> - 4 \<le> w \<and> w \<le> - 1"
  shows "\<exists>k. nth_weekday_of_month y m w wd = days_from_civil y m k \<and> 1 \<le> k \<and> k \<le> days_in_month y m \<and>
    dow_from_days (nth_weekday_of_month y m w wd) = wd \<and> in_week (days_in_month y m) w k"
  by (rule nth_weekday_lemma [OF assms])

theorem nth_weekday_witness:
  "\<exists>k. nth_weekday_of_month 2024 3 (- 1) 0 = days_from_civil 2024 3 k \<and> 1 \<le> k \<and> k \<le> 31 \<and>
    dow_from_days (nth_weekday_of_month 2024 3 (- 1) 0) = 0 \<and> (31 - k) div 7 = 0"
  using nth_weekday [of 3 0 "- 1" 2024] by (simp add: days_in_month_def in_week_def)

section \<open>The table of Easter Island\<close>

text \<open>
  From the first listed transition on, the offset of Pacific/Easter is 8 or 7 hours behind, never the 6 hours
  of the zone's own standard offset nor the 5 of its summer time.
\<close>

lemma easter_offset:
  assumes "1463281200 \<le> ms div MS_SEC"
  shows "ZONE_NAMES ! 403 = ''Pacific/Easter''" "zc_std_min (ZCORE ! 403) = - 360" "offset_at 403 ms \<in> {- 480, - 420}"
proof -
  let ?t = "EMB_TABLES ! 5"
  show "ZONE_NAMES ! 403 = ''Pacific/Easter''" by (simp add: ZONE_NAMES_def)
  have c: "zc_std_min (ZCORE ! 403) = - 360" "zc_emb (ZCORE ! 403) = 5" by (simp_all add: zcore_examples zc_def)
  then show "zc_std_min (ZCORE ! 403) = - 360" by simp
  have t: "em_ts ?t = EMB_SANTIAGO_TS" "em_off ?t = EMB_EASTER_OFF" "emb_ok ?t"
    using emb_row [of 5] by (simp_all add: EMB_TABLES_def)
  let ?f = "filter (\<lambda>s. s \<le> ms div MS_SEC) EMB_SANTIAGO_TS"
  have h: "EMB_SANTIAGO_TS \<noteq> []" "hd EMB_SANTIAGO_TS = 1463281200" by (simp_all add: EMB_SANTIAGO_TS_def)
  then have ne: "?f \<noteq> []" using emb_offset_past(2) [OF t(3), of ms] assms by (simp add: t)
  have "length ?f - 1 < length EMB_EASTER_OFF"
  proof -
    have "length ?f \<le> length EMB_SANTIAGO_TS" by simp
    moreover have "length EMB_SANTIAGO_TS = length EMB_EASTER_OFF" using t by (simp add: emb_ok_def)
    moreover have "0 < length ?f" using ne by blast
    ultimately show ?thesis by linarith
  qed
  then have "EMB_EASTER_OFF ! (length ?f - 1) \<in> set EMB_EASTER_OFF" by (rule nth_mem)
  moreover have "set EMB_EASTER_OFF \<subseteq> {- 480, - 420}" by (simp add: EMB_EASTER_OFF_def)
  moreover have "offset_at 403 ms = EMB_EASTER_OFF ! (length ?f - 1)"
    using ne by (simp add: offset_at_def Let_def c t)
  ultimately show "offset_at 403 ms \<in> {- 480, - 420}" by auto
qed


section \<open>Civil time\<close>

text \<open>
  C39: as long as the local time fits an \<open>i64\<close>, \<open>civil_of\<close> splits it into a valid date and a time of day in
  range, with the weekday of the date, and \<open>epoch_ms_from_civil\<close> puts the local time together again from them.
\<close>

theorem civil_of_roundtrip:
  assumes "- (2 ^ 63) \<le> unix_ms + off_min * MS_MIN" "unix_ms + off_min * MS_MIN < 2 ^ 63"
  shows "let c = civil_of unix_ms off_min; loc = unix_ms + off_min * MS_MIN
    in valid_date (cv_year c) (cv_month c) (cv_day c) \<and>
       0 \<le> cv_hour c \<and> cv_hour c < 24 \<and> 0 \<le> cv_minute c \<and> cv_minute c < 60 \<and> 0 \<le> cv_second c \<and> cv_second c < 60 \<and>
       cv_dow c = dow_from_days (days_from_civil (cv_year c) (cv_month c) (cv_day c)) \<and>
       epoch_ms_from_civil (cv_year c) (cv_month c) (cv_day c) (cv_hour c) (cv_minute c) (cv_second c)
         (loc mod 1000) = loc"
proof -
  define loc where "loc = unix_ms + off_min * MS_MIN"
  define days where "days = loc div MS_DAY"
  define t where "t = loc mod MS_DAY"
  obtain y m d where ymd: "civil_from_days days = (y, m, d)" by (cases "civil_from_days days") auto
  have "\<bar>days\<bar> \<le> 700000000000" using assms by (simp add: days_def MS_DAY_def flip: loc_def)
  from days_date_days [OF this ymd] have date: "valid_date y m d" "days_from_civil y m d = days" by simp_all
  have t: "0 \<le> t" "t < 86400000" by (simp_all add: t_def MS_DAY_def)
  have loc: "loc = days * 86400000 + t" by (simp add: days_def t_def MS_DAY_def)
  have "loc mod 1000 = t mod 1000"
    using mod_mult_self3 [of "days * 86400" 1000 t] by (simp add: loc mult.commute)
  moreover have "t mod 3600000 mod 60000 = t mod 60000" "t mod 60000 mod 1000 = t mod 1000"
    by (simp_all add: mod_mod_cancel)
  moreover have "t = 3600000 * (t div 3600000) + t mod 3600000"
    "t mod 3600000 = 60000 * (t mod 3600000 div 60000) + t mod 3600000 mod 60000"
    "t mod 60000 = 1000 * (t mod 60000 div 1000) + t mod 60000 mod 1000" by simp_all
  ultimately have sum: "days * 86400000 + t div 3600000 * 3600000 + t mod 3600000 div 60000 * 60000 +
      t mod 60000 div 1000 * 1000 + loc mod 1000 = loc" using loc by linarith
  have c: "civil_of unix_ms off_min = \<lparr>cv_year = y, cv_month = m, cv_day = d, cv_hour = t div 3600000,
      cv_minute = t mod 3600000 div 60000, cv_second = t mod 60000 div 1000, cv_dow = dow_from_days days\<rparr>"
    unfolding civil_of_def Let_def loc_def [symmetric] days_def [symmetric] t_def [symmetric] ymd prod.case
    by (simp add: MS_MIN_def MS_HOUR_def)
  have "0 \<le> t div 3600000" "t div 3600000 < 24" "0 \<le> t mod 3600000 div 60000" "t mod 3600000 div 60000 < 60"
    "0 \<le> t mod 60000 div 1000" "t mod 60000 div 1000 < 60"
    using t by (auto simp: pos_imp_zdiv_nonneg_iff)
  moreover have "epoch_ms_from_civil y m d (t div 3600000) (t mod 3600000 div 60000) (t mod 60000 div 1000)
      (loc mod 1000) = loc"
    unfolding epoch_ms_from_civil_def MS_DAY_def MS_HOUR_def MS_MIN_def MS_SEC_def date(2) by (rule sum)
  ultimately show ?thesis unfolding Let_def loc_def [symmetric] c civil.select_convs date(2)
    using date(1) by blast
qed

theorem civil_of_roundtrip_witness:
  "let c = civil_of 1720000000000 120 in valid_date (cv_year c) (cv_month c) (cv_day c) \<and> cv_hour c < 24 \<and>
     epoch_ms_from_civil (cv_year c) (cv_month c) (cv_day c) (cv_hour c) (cv_minute c) (cv_second c) 0 =
       1720007200000"
  using civil_of_roundtrip [of 1720000000000 120] by (simp add: MS_MIN_def Let_def)

end
