(* ===== verification/Sibling_Links.thy ===== *)
theory Sibling_Links
  imports Prelude
begin

text \<open>
  Trees kept as doubly linked lists of siblings, the representation shared by the parsed document
  (\<open>crates/parser-pipeline/src/dom.rs\<close>) and by the nodes that scripts create
  (\<open>crates/runtime-exec/src/webidl.rs\<close>): five links per node, where \<open>u32::MAX\<close> stands for none. A list of
  children is described by a path predicate along the links; linking at the end, unlinking and inserting in
  front of a sibling are shown to be the operations on lists of children that they stand for.
\<close>

definition NIL :: nat where "NIL = 4294967295"

record links =
  lk_par :: "nat \<Rightarrow> nat"
  lk_first :: "nat \<Rightarrow> nat"
  lk_last :: "nat \<Rightarrow> nat"
  lk_next :: "nat \<Rightarrow> nat"
  lk_prev :: "nat \<Rightarrow> nat"

section \<open>Lists of siblings\<close>

fun seg :: "links \<Rightarrow> nat \<Rightarrow> nat \<Rightarrow> nat list \<Rightarrow> nat \<Rightarrow> bool" where
  "seg h p pr [] nx = True"
| "seg h p pr (c # cs) nx =
     (c \<noteq> NIL \<and> lk_par h c = p \<and> lk_prev h c = pr \<and> lk_next h c = hd (cs @ [nx]) \<and> seg h p c cs nx)"

lemma seg_append: "seg h p pr (as @ bs) nx \<longleftrightarrow> seg h p pr as (hd (bs @ [nx])) \<and> seg h p (last (pr # as)) bs nx"
proof (induction as arbitrary: pr)
  case (Cons a as)
  have "hd ((as @ bs) @ [nx]) = hd (as @ [hd (bs @ [nx])])" by (cases as) simp_all
  then show ?case using Cons by auto
qed simp

lemma seg_frame:
  "(\<And>c. c \<in> set cs \<Longrightarrow> lk_par h c = lk_par h' c \<and> lk_next h c = lk_next h' c \<and> lk_prev h c = lk_prev h' c) \<Longrightarrow>
   seg h p pr cs nx = seg h' p pr cs nx"
  by (induction cs arbitrary: pr) auto

lemma seg_member: "seg h p pr cs nx \<Longrightarrow> c \<in> set cs \<Longrightarrow> lk_par h c = p \<and> c \<noteq> NIL"
  by (induction cs arbitrary: pr) auto

definition kids_ok :: "links \<Rightarrow> nat \<Rightarrow> nat list \<Rightarrow> bool" where
  "kids_ok h p cs \<longleftrightarrow>
     lk_first h p = hd (cs @ [NIL]) \<and> lk_last h p = last (NIL # cs) \<and> seg h p NIL cs NIL \<and> distinct cs"

text \<open>Every parent of \<open>P\<close> has its list of children.\<close>

definition forest :: "links \<Rightarrow> nat set \<Rightarrow> (nat \<Rightarrow> nat list) \<Rightarrow> bool" where
  "forest h P K \<longleftrightarrow> (\<forall>p\<in>P. kids_ok h p (K p))"

lemma forestD: "forest h P K \<Longrightarrow> p \<in> P \<Longrightarrow> kids_ok h p (K p)"
  by (simp add: forest_def)

lemma forest_parent: "forest h P K \<Longrightarrow> p \<in> P \<Longrightarrow> c \<in> set (K p) \<Longrightarrow> lk_par h c = p \<and> c \<noteq> NIL"
  using seg_member by (fastforce simp: forest_def kids_ok_def)

lemma forest_disjoint: "forest h P K \<Longrightarrow> p \<in> P \<Longrightarrow> q \<in> P \<Longrightarrow> c \<in> set (K p) \<Longrightarrow> c \<in> set (K q) \<Longrightarrow> p = q"
  using forest_parent by blast

lemma kids_ok_frame:
  assumes "kids_ok h p cs" "lk_first h' p = lk_first h p" "lk_last h' p = lk_last h p"
    and "\<And>c. c \<in> set cs \<Longrightarrow> lk_par h c = lk_par h' c \<and> lk_next h c = lk_next h' c \<and> lk_prev h c = lk_prev h' c"
  shows "kids_ok h' p cs"
  using assms seg_frame [of cs h h' p NIL NIL] by (simp add: kids_ok_def)

section \<open>Changing the links\<close>

definition link_end :: "nat \<Rightarrow> nat \<Rightarrow> links \<Rightarrow> links" where
  "link_end p c h =
     (let pr = lk_last h p
      in h\<lparr>lk_par := (lk_par h)(c := p),
           lk_first := (if pr = NIL then (lk_first h)(p := c) else lk_first h),
           lk_last := (lk_last h)(p := c),
           lk_next := (if pr = NIL then lk_next h else (lk_next h)(pr := c)),
           lk_prev := (if pr = NIL then lk_prev h else (lk_prev h)(c := pr))\<rparr>)"

definition link_out :: "nat \<Rightarrow> links \<Rightarrow> links" where
  "link_out c h =
     (let p = lk_par h c; pr = lk_prev h c; nx = lk_next h c
      in h\<lparr>lk_first := (if pr = NIL then (lk_first h)(p := nx) else lk_first h),
           lk_last := (if nx = NIL then (lk_last h)(p := pr) else lk_last h),
           lk_next := (if pr = NIL then lk_next h else (lk_next h)(pr := nx))(c := NIL),
           lk_prev := (if nx = NIL then lk_prev h else (lk_prev h)(nx := pr))(c := NIL)\<rparr>)"

definition link_before :: "nat \<Rightarrow> nat \<Rightarrow> links \<Rightarrow> links" where
  "link_before r c h =
     (let p = lk_par h r; pr = lk_prev h r
      in h\<lparr>lk_par := (lk_par h)(c := p),
           lk_first := (if pr = NIL then (lk_first h)(p := c) else lk_first h),
           lk_next := (if pr = NIL then lk_next h else (lk_next h)(pr := c))(c := r),
           lk_prev := (lk_prev h)(r := c, c := pr)\<rparr>)"

lemma last_kid_member: "kids_ok h p cs \<Longrightarrow> lk_last h p \<noteq> NIL \<Longrightarrow> lk_last h p \<in> set cs"
  by (cases cs rule: rev_cases) (simp_all add: kids_ok_def)

lemma link_end_forest:
  assumes f: "forest h P K" and p: "p \<in> P" and c: "c \<noteq> NIL" "lk_next h c = NIL" "lk_prev h c = NIL"
    and fresh: "\<And>q. q \<in> P \<Longrightarrow> c \<notin> set (K q)"
  shows "forest (link_end p c h) P (K(p := K p @ [c]))"
proof -
  let ?h = "link_end p c h"
  have "kids_ok ?h q ((K(p := K p @ [c])) q)" if q: "q \<in> P" for q
  proof (cases "q = p")
    case False
    have "c \<notin> set (K q)" "lk_last h p \<notin> set (K q) \<or> lk_last h p = NIL"
      using fresh [OF q] last_kid_member [OF forestD [OF f p]] forest_disjoint [OF f p q] False by auto
    then show ?thesis using False
      by (simp, intro kids_ok_frame [OF forestD [OF f q]]) (auto simp: link_end_def Let_def)
  next
    case True
    have k: "kids_ok h p (K p)" by (rule forestD [OF f p])
    show ?thesis
    proof (cases "K p" rule: rev_cases)
      case Nil
      then show ?thesis using k c True by (simp add: kids_ok_def link_end_def Let_def)
    next
      case (snoc as z)
      have z: "z \<noteq> NIL" "lk_last h p = z" "z \<noteq> c" "c \<notin> set as" "z \<notin> set as"
        using k fresh [OF p] by (auto simp: kids_ok_def seg_append snoc)
      have "seg ?h p NIL as z = seg h p NIL as z"
        by (rule seg_frame) (use z in \<open>auto simp: link_end_def Let_def\<close>)
      then show ?thesis using k c z True
        by (simp add: kids_ok_def seg_append snoc) (auto simp: link_end_def Let_def hd_append)
    qed
  qed
  then show ?thesis by (simp add: forest_def)
qed


lemma link_out_forest:
  assumes f: "forest h P K" and p: "p \<in> P" and k: "K p = as @ c # bs"
  shows "forest (link_out c h) P (K(p := as @ bs))" "lk_next (link_out c h) c = NIL" "lk_prev (link_out c h) c = NIL"
proof -
  let ?h = "link_out c h"
  have kp: "kids_ok h p (as @ c # bs)" using forestD [OF f p] by (simp add: k)
  have c: "lk_par h c = p" "lk_prev h c = last (NIL # as)" "lk_next h c = hd (bs @ [NIL])"
    "c \<noteq> NIL" "c \<notin> set as" "c \<notin> set bs"
    using kp by (auto simp: kids_ok_def seg_append)
  define pr where "pr = last (NIL # as)"
  define nx where "nx = hd (bs @ [NIL])"
  note c = c [folded pr_def nx_def]
  have upd: "lk_par ?h x = lk_par h x"
    "lk_next ?h x = (if x = c then NIL else if x = pr \<and> pr \<noteq> NIL then nx else lk_next h x)"
    "lk_prev ?h x = (if x = c then NIL else if x = nx \<and> nx \<noteq> NIL then pr else lk_prev h x)"
    "lk_first ?h x = (if x = p \<and> pr = NIL then nx else lk_first h x)"
    "lk_last ?h x = (if x = p \<and> nx = NIL then pr else lk_last h x)" for x
    by (simp_all add: link_out_def Let_def c)
  have nil: "NIL \<notin> set as" "NIL \<notin> set bs"
    using forest_parent [OF f p] by (auto simp: k)
  have pr: "pr = NIL \<and> as = [] \<or> pr \<in> set as" by (cases as rule: rev_cases) (simp_all add: pr_def)
  have nx: "nx = NIL \<and> bs = [] \<or> nx \<in> set bs" by (cases bs) (simp_all add: nx_def)
  have d: "distinct as" "distinct bs" "set as \<inter> set bs = {}" using kp by (simp_all add: kids_ok_def)
  have "kids_ok ?h q ((K(p := as @ bs)) q)" if q: "q \<in> P" for q
  proof (cases "q = p")
    case False
    have "x \<notin> set (K q)" if "x \<in> set (as @ c # bs)" for x
      using forest_disjoint [OF f p q] that False by (auto simp: k)
    then have "c \<notin> set (K q)" "pr = NIL \<or> pr \<notin> set (K q)" "nx = NIL \<or> nx \<notin> set (K q)" using pr nx by auto
    then show ?thesis using False
      by (simp, intro kids_ok_frame [OF forestD [OF f q]]) (auto simp: upd)
  next
    case True
    have s: "seg h p NIL as c" "seg h p c bs NIL" using kp by (simp_all add: kids_ok_def seg_append)
    have "seg ?h p NIL as nx"
    proof (cases as rule: rev_cases)
      case (snoc as' z)
      have z: "pr = z" "z \<noteq> nx" "z \<noteq> c" "z \<noteq> NIL" using d nx nil c by (auto simp: pr_def snoc)
      have "seg ?h p NIL as' z = seg h p NIL as' z"
        using d nx nil c z by (intro seg_frame) (auto simp: upd snoc)
      then show ?thesis using s(1) z by (simp add: snoc seg_append upd)
    qed simp
    moreover have "seg ?h p pr bs NIL"
    proof (cases bs)
      case (Cons z bs')
      have z: "nx = z" "z \<noteq> pr" "z \<noteq> c" "z \<noteq> NIL" using d pr nil c by (auto simp: nx_def Cons)
      have "seg ?h p z bs' NIL = seg h p z bs' NIL"
        using d pr nil c z by (intro seg_frame) (auto simp: upd Cons)
      then show ?thesis using s(2) z by (simp add: Cons upd)
    qed simp
    moreover have "lk_first ?h p = hd ((as @ bs) @ [NIL])"
      using kp pr nil by (cases as) (auto simp: upd kids_ok_def nx_def)
    moreover have "lk_last ?h p = last (NIL # as @ bs)"
      using kp nx nil by (cases bs) (auto simp: upd kids_ok_def pr_def)
    ultimately show ?thesis using d True by (simp add: kids_ok_def seg_append pr_def nx_def)
  qed
  then show "forest ?h P (K(p := as @ bs))" by (simp add: forest_def)
  show "lk_next ?h c = NIL" "lk_prev ?h c = NIL" by (simp_all add: upd)
qed


lemma link_before_forest:
  assumes f: "forest h P K" and p: "p \<in> P" and k: "K p = as @ r # bs" and cn: "c \<noteq> NIL"
    and fresh: "\<And>q. q \<in> P \<Longrightarrow> c \<notin> set (K q)"
  shows "forest (link_before r c h) P (K(p := as @ c # r # bs))"
proof -
  let ?h = "link_before r c h"
  have kp: "kids_ok h p (as @ r # bs)" using forestD [OF f p] by (simp add: k)
  define pr where "pr = last (NIL # as)"
  have r: "lk_par h r = p" "lk_prev h r = pr" "lk_next h r = hd (bs @ [NIL])"
    "r \<noteq> NIL" "r \<notin> set as" "r \<notin> set bs"
    using kp by (auto simp: kids_ok_def seg_append pr_def)
  have c: "c \<notin> set as" "c \<noteq> r" "c \<notin> set bs" using fresh [OF p] by (auto simp: k)
  have nil: "NIL \<notin> set as" "NIL \<notin> set bs" using forest_parent [OF f p] by (auto simp: k)
  have pr: "pr = NIL \<and> as = [] \<or> pr \<in> set as" by (cases as rule: rev_cases) (simp_all add: pr_def)
  then have prc: "pr \<noteq> c" "pr \<noteq> r" using c(1) cn r(4,5) by auto
  have upd: "lk_par ?h x = (if x = c then p else lk_par h x)"
    "lk_next ?h x = (if x = c then r else if x = pr \<and> pr \<noteq> NIL then c else lk_next h x)"
    "lk_prev ?h x = (if x = c then pr else if x = r then c else lk_prev h x)"
    "lk_first ?h x = (if x = p \<and> pr = NIL then c else lk_first h x)"
    "lk_last ?h x = lk_last h x" for x
    using c(2) by (auto simp: link_before_def Let_def r)
  have d: "distinct as" "distinct bs" "set as \<inter> set bs = {}" using kp by (simp_all add: kids_ok_def)
  have "kids_ok ?h q ((K(p := as @ c # r # bs)) q)" if q: "q \<in> P" for q
  proof (cases "q = p")
    case False
    have "x \<notin> set (K q)" if "x \<in> set (as @ r # bs)" for x
      using forest_disjoint [OF f p q] that False by (auto simp: k)
    then have "c \<notin> set (K q)" "r \<notin> set (K q)" "pr = NIL \<or> pr \<notin> set (K q)" using pr fresh [OF q] by auto
    then show ?thesis using False
      by (simp, intro kids_ok_frame [OF forestD [OF f q]]) (auto simp: upd)
  next
    case True
    have s: "seg h p NIL as r" "seg h p r bs NIL" using kp by (simp_all add: kids_ok_def seg_append)
    have "seg ?h p NIL as c"
    proof (cases as rule: rev_cases)
      case (snoc as' z)
      have z: "pr = z" "z \<noteq> c" "z \<noteq> r" "z \<noteq> NIL" using c r nil by (auto simp: pr_def snoc)
      have "seg ?h p NIL as' z = seg h p NIL as' z"
        using d nil c r z by (intro seg_frame) (auto simp: upd snoc)
      then show ?thesis using s(1) z by (simp add: snoc seg_append upd)
    qed simp
    moreover have "seg ?h p r bs NIL = seg h p r bs NIL"
      using d pr nil c r by (intro seg_frame) (auto simp: upd)
    moreover have "lk_first ?h p = hd ((as @ c # r # bs) @ [NIL])"
      using kp pr nil by (cases as) (auto simp: upd kids_ok_def)
    moreover have "lk_last ?h p = last (NIL # as @ c # r # bs)"
      using kp by (simp add: upd kids_ok_def)
    ultimately show ?thesis using d s r c True prc cn
      by (simp add: kids_ok_def seg_append upd) (simp add: pr_def)
  qed
  then show ?thesis by (simp add: forest_def)
qed

section \<open>Walking along the siblings\<close>

text \<open>What a loop that follows the links collects, read off the list of children.\<close>

lemma seg_next: "seg h p pr (as @ c # bs) nx \<Longrightarrow> lk_next h c = hd (bs @ [nx])"
  by (simp add: seg_append)

lemma seg_prev: "seg h p pr (as @ c # bs) nx \<Longrightarrow> lk_prev h c = last (pr # as)"
  by (simp add: seg_append)

end
