(* ===== verification/Dom_Tree.thy ===== *)
theory Dom_Tree
  imports Sibling_Links Math_Util Encoding "HOL-Library.Monad_Syntax"
begin

unbundle bit_operations_syntax

text \<open>
  The document of \<open>crates/parser-pipeline/src/dom.rs\<close>: nodes in parallel vectors linked as in
  Sibling_Links, a free list with generations, attributes and text in pools, removal of a whole subtree in a
  loop without a stack, and the numbering that answers descendant queries by two comparisons. An index out of
  a vector is a panic, None. The 64-bit hash of identifiers is an argument.
\<close>

section \<open>State\<close>

type_synonym span = "nat \<times> nat"

record node_id =
  ni_index :: nat
  ni_generation :: nat

record attr_ent =
  at_name :: nat
  at_value :: span

record dom_tree =
  dt_parents :: "nat list"
  dt_first :: "nat list"
  dt_last :: "nat list"
  dt_next :: "nat list"
  dt_prev :: "nat list"
  dt_tags :: "nat list"
  dt_flags :: "nat list"
  dt_gens :: "nat list"
  dt_spans :: "span list"
  dt_attr_start :: "nat list"
  dt_attr_count :: "nat list"
  dt_attrs :: "attr_ent list"
  dt_pool :: string
  dt_free :: "nat list"
  dt_roots_head :: nat
  dt_roots_tail :: nat
  dt_truncated :: bool
  dt_id_index :: "(nat \<times> node_id) list"
  dt_pre :: "nat list"
  dt_post :: "nat list"
  dt_scripts :: "nat list"
  dt_forms :: "nat list"
  dt_inputs :: "nat list"
  dt_title :: "nat option"
  dt_meta_desc :: "nat option"
  dt_tag_names :: "string list"
  dt_attr_names :: "string list"

definition MAX_NODES :: nat where "MAX_NODES = 20000"
definition MAX_ATTRS :: nat where "MAX_ATTRS = 16384"
definition ID_INDEX_CAP :: nat where "ID_INDEX_CAP = 4096"
definition POOL_BYTES :: nat where "POOL_BYTES = 262144"
definition TEXT_NODE_BYTES :: nat where "TEXT_NODE_BYTES = 4096"
definition TAG_UNKNOWN :: nat where "TAG_UNKNOWN = 65535"
definition NIL_SPAN :: span where "NIL_SPAN = (0, 0)"
definition FLAG_ELEMENT :: nat where "FLAG_ELEMENT = 1"
definition FLAG_TEXT :: nat where "FLAG_TEXT = 2"
definition FLAG_HIDDEN :: nat where "FLAG_HIDDEN = 4"

definition dom_new :: dom_tree where
  "dom_new =
     \<lparr>dt_parents = [], dt_first = [], dt_last = [], dt_next = [], dt_prev = [], dt_tags = [], dt_flags = [],
      dt_gens = [], dt_spans = [], dt_attr_start = [], dt_attr_count = [], dt_attrs = [], dt_pool = [],
      dt_free = [], dt_roots_head = NIL, dt_roots_tail = NIL, dt_truncated = False, dt_id_index = [],
      dt_pre = [], dt_post = [], dt_scripts = [], dt_forms = [], dt_inputs = [], dt_title = None,
      dt_meta_desc = None, dt_tag_names = [], dt_attr_names = []\<rparr>"

section \<open>Checked indexing\<close>

definition get_at :: "'a list \<Rightarrow> nat \<Rightarrow> 'a option" where
  "get_at xs i = (if i < length xs then Some (xs ! i) else None)"

definition put_at :: "'a list \<Rightarrow> nat \<Rightarrow> 'a \<Rightarrow> 'a list option" where
  "put_at xs i v = (if i < length xs then Some (xs[i := v]) else None)"

lemma get_at_in [simp]: "i < length xs \<Longrightarrow> get_at xs i = Some (xs ! i)"
  by (simp add: get_at_def)

lemma put_at_in [simp]: "i < length xs \<Longrightarrow> put_at xs i v = Some (xs[i := v])"
  by (simp add: put_at_def)

section \<open>Slots and links\<close>

definition dom_alloc_slot :: "dom_tree \<Rightarrow> nat option \<times> dom_tree" where
  "dom_alloc_slot d =
     (if dt_free d \<noteq> [] then (Some (last (dt_free d)), d\<lparr>dt_free := butlast (dt_free d)\<rparr>)
      else if length (dt_parents d) < MAX_NODES then (Some (length (dt_parents d)), d)
      else (None, d\<lparr>dt_truncated := True\<rparr>))"

definition dom_head :: "dom_tree \<Rightarrow> nat \<Rightarrow> nat option" where
  "dom_head d p = (if p = NIL then Some (dt_roots_head d) else get_at (dt_first d) p)"

definition dom_tail :: "dom_tree \<Rightarrow> nat \<Rightarrow> nat option" where
  "dom_tail d p = (if p = NIL then Some (dt_roots_tail d) else get_at (dt_last d) p)"

definition dom_set_head :: "nat \<Rightarrow> nat \<Rightarrow> dom_tree \<Rightarrow> dom_tree option" where
  "dom_set_head p v d =
     (if p = NIL then Some (d\<lparr>dt_roots_head := v\<rparr>) else map_option (\<lambda>xs. d\<lparr>dt_first := xs\<rparr>) (put_at (dt_first d) p v))"

definition dom_set_tail :: "nat \<Rightarrow> nat \<Rightarrow> dom_tree \<Rightarrow> dom_tree option" where
  "dom_set_tail p v d =
     (if p = NIL then Some (d\<lparr>dt_roots_tail := v\<rparr>) else map_option (\<lambda>xs. d\<lparr>dt_last := xs\<rparr>) (put_at (dt_last d) p v))"

definition dom_set_next :: "nat \<Rightarrow> nat \<Rightarrow> dom_tree \<Rightarrow> dom_tree option" where
  "dom_set_next i v d = map_option (\<lambda>xs. d\<lparr>dt_next := xs\<rparr>) (put_at (dt_next d) i v)"

definition dom_set_prev :: "nat \<Rightarrow> nat \<Rightarrow> dom_tree \<Rightarrow> dom_tree option" where
  "dom_set_prev i v d = map_option (\<lambda>xs. d\<lparr>dt_prev := xs\<rparr>) (put_at (dt_prev d) i v)"

definition link_child :: "nat \<Rightarrow> nat \<Rightarrow> dom_tree \<Rightarrow> dom_tree option" where
  "link_child parent child d = do {
     ps \<leftarrow> put_at (dt_parents d) child parent;
     let d = d\<lparr>dt_parents := ps\<rparr>;
     prev \<leftarrow> dom_tail d parent;
     d \<leftarrow> (if prev = NIL then dom_set_head parent child d
          else do { d \<leftarrow> dom_set_next prev child d; dom_set_prev child prev d });
     dom_set_tail parent child d
   }"

definition dom_unlink :: "nat \<Rightarrow> dom_tree \<Rightarrow> dom_tree option" where
  "dom_unlink node d = do {
     prev \<leftarrow> get_at (dt_prev d) node;
     nx \<leftarrow> get_at (dt_next d) node;
     parent \<leftarrow> get_at (dt_parents d) node;
     d \<leftarrow> (if prev \<noteq> NIL then dom_set_next prev nx d else dom_set_head parent nx d);
     d \<leftarrow> (if nx \<noteq> NIL then dom_set_prev nx prev d else dom_set_tail parent prev d);
     d \<leftarrow> dom_set_prev node NIL d;
     dom_set_next node NIL d
   }"

text \<open>The vectors grow together, so a fresh slot is appended to each.\<close>

definition grow_slot :: "dom_tree \<Rightarrow> dom_tree" where
  "grow_slot d = d
     \<lparr>dt_parents := dt_parents d @ [NIL], dt_first := dt_first d @ [NIL], dt_last := dt_last d @ [NIL],
      dt_next := dt_next d @ [NIL], dt_prev := dt_prev d @ [NIL], dt_tags := dt_tags d @ [TAG_UNKNOWN],
      dt_flags := dt_flags d @ [0], dt_gens := dt_gens d @ [0], dt_spans := dt_spans d @ [NIL_SPAN],
      dt_attr_start := dt_attr_start d @ [0], dt_attr_count := dt_attr_count d @ [0]\<rparr>"

definition reset_slot :: "nat \<Rightarrow> nat \<Rightarrow> nat \<Rightarrow> span \<Rightarrow> dom_tree \<Rightarrow> dom_tree option" where
  "reset_slot i tag fl sp d = do {
     first \<leftarrow> put_at (dt_first d) i NIL;
     lst \<leftarrow> put_at (dt_last d) i NIL;
     nx \<leftarrow> put_at (dt_next d) i NIL;
     prev \<leftarrow> put_at (dt_prev d) i NIL;
     tags \<leftarrow> put_at (dt_tags d) i tag;
     flags \<leftarrow> put_at (dt_flags d) i fl;
     spans \<leftarrow> put_at (dt_spans d) i sp;
     start \<leftarrow> put_at (dt_attr_start d) i 0;
     cnt \<leftarrow> put_at (dt_attr_count d) i 0;
     Some (d\<lparr>dt_first := first, dt_last := lst, dt_next := nx, dt_prev := prev, dt_tags := tags,
       dt_flags := flags, dt_spans := spans, dt_attr_start := start, dt_attr_count := cnt\<rparr>)
   }"

definition push_slot :: "nat \<Rightarrow> nat \<Rightarrow> nat \<Rightarrow> span \<Rightarrow> dom_tree \<Rightarrow> (nat option \<times> dom_tree) option" where
  "push_slot parent tag fl sp d =
     (case dom_alloc_slot d of
        (None, d) \<Rightarrow> Some (None, d)
      | (Some i, d) \<Rightarrow> do {
          let d = (if i = length (dt_parents d) then grow_slot d else d);
          d \<leftarrow> reset_slot i tag fl sp d;
          d \<leftarrow> link_child parent i d;
          Some (Some i, d)
        })"


section \<open>Elements and text\<close>

definition pool_put :: "string \<Rightarrow> dom_tree \<Rightarrow> span \<times> dom_tree" where
  "pool_put bytes d =
     (let bytes = (if 65535 < length bytes then take (floor_char_boundary_bytes bytes 65535) bytes else bytes)
      in if POOL_BYTES < length (dt_pool d) + length bytes then (NIL_SPAN, d\<lparr>dt_truncated := True\<rparr>)
         else ((length (dt_pool d), length bytes), d\<lparr>dt_pool := dt_pool d @ bytes\<rparr>))"

definition is_hidden_type :: "string \<Rightarrow> bool" where
  "is_hidden_type value = eq_ci value ''hidden''"

definition ATTR_TYPE :: nat where "ATTR_TYPE = 50"
definition ATTR_ID :: nat where "ATTR_ID = 17"
definition ATTR_NAME :: nat where "ATTR_NAME = 26"

text \<open>The loop over the attributes: the count of attributes (a byte, which wraps), the hidden flag and the hash of the identifier so far.\<close>

fun open_attrs :: "(string \<Rightarrow> nat) \<Rightarrow> (nat \<times> string) list \<Rightarrow> nat \<Rightarrow> bool \<Rightarrow> nat option \<Rightarrow> dom_tree \<Rightarrow>
    nat \<times> bool \<times> nat option \<times> dom_tree" where
  "open_attrs hash [] cnt hidden id_hash d = (cnt, hidden, id_hash, d)"
| "open_attrs hash ((name, value) # as) cnt hidden id_hash d =
     (if MAX_ATTRS \<le> length (dt_attrs d) then (cnt, hidden, id_hash, d\<lparr>dt_truncated := True\<rparr>)
      else case pool_put value d of (sp, d) \<Rightarrow>
        let hidden = (if name = ATTR_TYPE then is_hidden_type value else hidden);
            id_hash = (if name \<noteq> ATTR_TYPE \<and> name = ATTR_ID then Some (hash value) else id_hash);
            d = d\<lparr>dt_attrs := dt_attrs d @ [\<lparr>at_name = name, at_value = sp\<rparr>]\<rparr>
        in open_attrs hash as ((cnt + 1) mod 256) hidden id_hash d)"

definition TAG_SCRIPT :: nat where "TAG_SCRIPT = 84"
definition TAG_FORM :: nat where "TAG_FORM = 38"
definition TAG_META :: nat where "TAG_META = 64"
definition TAG_TITLE :: nat where "TAG_TITLE = 106"
definition INPUT_TAGS :: "nat list" where "INPUT_TAGS = [53, 87, 101, 15]"

definition note_special :: "nat \<Rightarrow> (nat \<times> string) list \<Rightarrow> nat \<Rightarrow> dom_tree \<Rightarrow> dom_tree" where
  "note_special tag as node d =
     (if tag = TAG_SCRIPT then d\<lparr>dt_scripts := dt_scripts d @ [node]\<rparr>
      else if tag = TAG_FORM then d\<lparr>dt_forms := dt_forms d @ [node]\<rparr>
      else if tag \<in> set INPUT_TAGS then d\<lparr>dt_inputs := dt_inputs d @ [node]\<rparr>
      else if tag = TAG_TITLE \<and> dt_title d = None then d\<lparr>dt_title := Some node\<rparr>
      else if tag = TAG_META \<and> dt_meta_desc d = None then
        (if list_ex (\<lambda>(n, v). n = ATTR_NAME \<and> eq_ci v ''description'') as then d\<lparr>dt_meta_desc := Some node\<rparr> else d)
      else d)"

definition open_element ::
  "(string \<Rightarrow> nat) \<Rightarrow> nat \<Rightarrow> nat \<Rightarrow> (nat \<times> string) list \<Rightarrow> dom_tree \<Rightarrow> (nat option \<times> dom_tree) option" where
  "open_element hash parent tag as d = do {
     r \<leftarrow> push_slot parent tag FLAG_ELEMENT NIL_SPAN d;
     case r of
       (None, d) \<Rightarrow> Some (None, d)
     | (Some node, d) \<Rightarrow>
         (let start = length (dt_attrs d)
          in case open_attrs hash as 0 False None d of (cnt, hidden, id_hash, d) \<Rightarrow> do {
            starts \<leftarrow> put_at (dt_attr_start d) node start;
            counts \<leftarrow> put_at (dt_attr_count d) node cnt;
            fl \<leftarrow> get_at (dt_flags d) node;
            gen \<leftarrow> get_at (dt_gens d) node;
            let d = d\<lparr>dt_attr_start := starts, dt_attr_count := counts,
              dt_flags := (if hidden then (dt_flags d)[node := fl OR FLAG_HIDDEN] else dt_flags d),
              dt_id_index := (case id_hash of
                  Some h \<Rightarrow> if length (dt_id_index d) < ID_INDEX_CAP
                    then dt_id_index d @ [(h, \<lparr>ni_index = node, ni_generation = gen\<rparr>)] else dt_id_index d
                | None \<Rightarrow> dt_id_index d)\<rparr>;
            Some (Some node, note_special tag as node d)
          })
   }"

definition push_text :: "nat \<Rightarrow> string \<Rightarrow> dom_tree \<Rightarrow> dom_tree option" where
  "push_text parent txt d =
     (if parent = NIL then Some d
      else let cut = floor_char_boundary_bytes txt (min (length txt) TEXT_NODE_BYTES)
        in case pool_put (take cut txt) d of (sp, d) \<Rightarrow> do {
          lst \<leftarrow> get_at (dt_last d) parent;
          merged \<leftarrow> (if lst = NIL then Some None
            else do {
              fl \<leftarrow> get_at (dt_flags d) lst;
              ls \<leftarrow> get_at (dt_spans d) lst;
              Some (if fl AND FLAG_TEXT \<noteq> 0 \<and> fst ls + snd ls = fst sp \<and> snd ls + snd sp \<le> 65535
                    then Some (d\<lparr>dt_spans := (dt_spans d)[lst := (fst ls, snd ls + snd sp)]\<rparr>) else None)
            });
          case merged of Some d \<Rightarrow> Some d
          | None \<Rightarrow> map_option snd (push_slot parent TAG_UNKNOWN FLAG_TEXT sp d)
        })"

section \<open>Removal\<close>

definition free_node :: "nat \<Rightarrow> dom_tree \<Rightarrow> dom_tree option" where
  "free_node i d = do {
     g \<leftarrow> get_at (dt_gens d) i;
     parents \<leftarrow> put_at (dt_parents d) i NIL;
     d \<leftarrow> reset_slot i TAG_UNKNOWN 0 NIL_SPAN (d\<lparr>dt_gens := (dt_gens d)[i := (g + 1) mod 2 ^ 32], dt_parents := parents\<rparr>);
     Some (d\<lparr>dt_free := dt_free d @ [i]\<rparr>)
   }"

definition is_valid :: "dom_tree \<Rightarrow> node_id \<Rightarrow> bool option" where
  "is_valid d x =
     (if length (dt_parents d) \<le> ni_index x then Some False
      else do {
        fl \<leftarrow> get_at (dt_flags d) (ni_index x);
        g \<leftarrow> get_at (dt_gens d) (ni_index x);
        Some (fl \<noteq> 0 \<and> g = ni_generation x)
      })"

text \<open>
  The two nested loops: going down to a node without children (\<open>up\<close> false), freeing it and going on to its
  sibling or back up to its parent.
\<close>

partial_function (option) remove_loop :: "nat \<Rightarrow> bool \<Rightarrow> nat \<Rightarrow> dom_tree \<Rightarrow> dom_tree option" where
  "remove_loop root up node d =
     (if \<not> up then do {
        child \<leftarrow> get_at (dt_first d) node;
        if child \<noteq> NIL then remove_loop root False child d else remove_loop root True node d
      } else do {
        parent \<leftarrow> get_at (dt_parents d) node;
        nx \<leftarrow> get_at (dt_next d) node;
        d \<leftarrow> free_node node d;
        if node = root then Some d
        else if nx \<noteq> NIL then (if nx = root then Some d else remove_loop root False nx d)
        else remove_loop root True parent d
      })"

text \<open>The node that a special index holds survives if its flags do.\<close>

definition still_used :: "dom_tree \<Rightarrow> nat \<Rightarrow> bool option" where
  "still_used d node = map_option (\<lambda>fl. fl \<noteq> 0) (get_at (dt_flags d) node)"

fun retain_used :: "dom_tree \<Rightarrow> nat list \<Rightarrow> nat list option" where
  "retain_used d [] = Some []"
| "retain_used d (x # xs) = do {
     u \<leftarrow> still_used d x;
     ys \<leftarrow> retain_used d xs;
     Some (if u then x # ys else ys)
   }"

definition retain_opt :: "dom_tree \<Rightarrow> nat option \<Rightarrow> nat option option" where
  "retain_opt d x =
     (case x of None \<Rightarrow> Some None | Some n \<Rightarrow> map_option (\<lambda>u. if u then Some n else None) (still_used d n))"


section \<open>Numbering and queries\<close>

text \<open>The loop along \<open>next_sibling\<close> that collects the nodes from one on; None also if it never ends.\<close>

partial_function (option) siblings_from :: "dom_tree \<Rightarrow> nat \<Rightarrow> nat list option" where
  "siblings_from d cur =
     (if cur = NIL then Some []
      else do { nx \<leftarrow> get_at (dt_next d) cur; rest \<leftarrow> siblings_from d nx; Some (cur # rest) })"

definition dom_children :: "dom_tree \<Rightarrow> nat \<Rightarrow> nat list option" where
  "dom_children d i = do { h \<leftarrow> dom_head d i; siblings_from d h }"

partial_function (option) order_loop ::
  "dom_tree \<Rightarrow> (nat \<times> bool) list \<Rightarrow> nat \<Rightarrow> nat list \<Rightarrow> nat list \<Rightarrow> (nat list \<times> nat list) option" where
  "order_loop d st tick pre post =
     (case st of
        [] \<Rightarrow> Some (pre, post)
      | (node, exit) # st \<Rightarrow>
          if exit then do { post \<leftarrow> put_at post node tick; order_loop d st ((tick + 1) mod 2 ^ 32) pre post }
          else do {
            pre \<leftarrow> put_at pre node tick;
            h \<leftarrow> get_at (dt_first d) node;
            kids \<leftarrow> siblings_from d h;
            order_loop d (map (\<lambda>k. (k, False)) kids @ (node, True) # st) ((tick + 1) mod 2 ^ 32) pre post
          })"

definition compute_orders :: "dom_tree \<Rightarrow> dom_tree option" where
  "compute_orders d = do {
     let n = length (dt_parents d);
     roots \<leftarrow> siblings_from d (dt_roots_head d);
     (pre, post) \<leftarrow> order_loop d (map (\<lambda>k. (k, False)) roots) 0 (replicate n NIL) (replicate n NIL);
     Some (d\<lparr>dt_pre := pre, dt_post := post\<rparr>)
   }"

definition remove_node :: "node_id \<Rightarrow> dom_tree \<Rightarrow> (bool \<times> dom_tree) option" where
  "remove_node x d = do {
     ok \<leftarrow> is_valid d x;
     if \<not> ok then Some (False, d)
     else do {
       d \<leftarrow> dom_unlink (ni_index x) d;
       d \<leftarrow> remove_loop (ni_index x) False (ni_index x) d;
       scripts \<leftarrow> retain_used d (dt_scripts d);
       forms \<leftarrow> retain_used d (dt_forms d);
       inputs \<leftarrow> retain_used d (dt_inputs d);
       title \<leftarrow> retain_opt d (dt_title d);
       meta \<leftarrow> retain_opt d (dt_meta_desc d);
       d \<leftarrow> compute_orders (d\<lparr>dt_scripts := scripts, dt_forms := forms, dt_inputs := inputs,
         dt_title := title, dt_meta_desc := meta\<rparr>);
       Some (True, d)
     }
   }"

text \<open>The walk up the parents of \<open>is_descendant\<close>, with its limit of hops.\<close>

function up_hops :: "dom_tree \<Rightarrow> nat \<Rightarrow> nat \<Rightarrow> nat \<Rightarrow> bool option" where
  "up_hops d root cur hops =
     (if cur = NIL then Some False
      else if cur = root then Some True
      else case get_at (dt_parents d) cur of
        None \<Rightarrow> None
      | Some p \<Rightarrow> if 512 < hops + 1 then Some False else up_hops d root p (hops + 1))"
  by pat_completeness auto
termination by (relation "measure (\<lambda>(_, _, _, hops). 512 - hops)") auto

definition is_descendant :: "dom_tree \<Rightarrow> nat \<Rightarrow> nat \<Rightarrow> bool option" where
  "is_descendant d node root =
     (let n = length (dt_parents d)
      in if node = root then Some True
         else if n \<le> node \<or> n \<le> root then Some False
         else do {
           fn \<leftarrow> get_at (dt_flags d) node;
           fr \<leftarrow> get_at (dt_flags d) root;
           if fn = 0 \<or> fr = 0 then Some False
           else if length (dt_pre d) = n then do {
             pr \<leftarrow> get_at (dt_pre d) root;
             pn \<leftarrow> get_at (dt_pre d) node;
             if \<not> pr \<le> pn then Some False
             else do {
               qn \<leftarrow> get_at (dt_post d) node;
               qr \<leftarrow> get_at (dt_post d) root;
               Some (qn \<le> qr)
             }
           } else do { p \<leftarrow> get_at (dt_parents d) node; up_hops d root p 0 }
         })"

text \<open>\<open>binary_search_by\<close> may return any of several equal entries: the choice is the argument \<open>search\<close>.\<close>

definition dom_attr :: "dom_tree \<Rightarrow> nat \<Rightarrow> nat \<Rightarrow> string option option" where
  "dom_attr d i name = do {
     start \<leftarrow> get_at (dt_attr_start d) i;
     cnt \<leftarrow> get_at (dt_attr_count d) i;
     if length (dt_attrs d) < start + cnt then None
     else Some (map_option (\<lambda>a. take (snd (at_value a)) (drop (fst (at_value a)) (dt_pool d)))
       (find (\<lambda>a. at_name a = name) (take cnt (drop start (dt_attrs d)))))
   }"

fun scan_ids :: "dom_tree \<Rightarrow> string \<Rightarrow> nat \<Rightarrow> (nat \<times> node_id) list \<Rightarrow> nat option option" where
  "scan_ids d name h [] = Some None"
| "scan_ids d name h ((ih, x) # rest) =
     (if ih \<noteq> h then Some None
      else do {
        ok \<leftarrow> is_valid d x;
        hit \<leftarrow> (if ok then map_option (\<lambda>v. v = Some name) (dom_attr d (ni_index x) ATTR_ID) else Some False);
        if hit then Some (Some (ni_index x)) else scan_ids d name h rest
      })"

definition find_by_id :: "(nat list \<Rightarrow> nat \<Rightarrow> nat option) \<Rightarrow> (string \<Rightarrow> nat) \<Rightarrow> string \<Rightarrow> dom_tree \<Rightarrow> nat option option" where
  "find_by_id search hash name d =
     (case search (map fst (dt_id_index d)) (hash name) of
        None \<Rightarrow> Some None
      | Some pos \<Rightarrow> scan_ids d name (hash name) (drop pos (dt_id_index d)))"

text \<open>The code sorts with an unstable sort; entries of equal hash keep their order here, which it may change.\<close>

definition attach_name_tables :: "string list \<Rightarrow> string list \<Rightarrow> dom_tree \<Rightarrow> dom_tree option" where
  "attach_name_tables tag_names attr_names d =
     compute_orders (d\<lparr>dt_id_index := sort_key fst (dt_id_index d), dt_tag_names := tag_names,
       dt_attr_names := attr_names\<rparr>)"

definition dom_parent :: "dom_tree \<Rightarrow> nat \<Rightarrow> nat option option" where
  "dom_parent d i = map_option (\<lambda>p. if p = NIL then None else Some p) (get_at (dt_parents d) i)"

definition dom_last_child :: "dom_tree \<Rightarrow> nat \<Rightarrow> nat option" where
  "dom_last_child d i = dom_tail d i"

definition dom_next_sibling :: "dom_tree \<Rightarrow> nat \<Rightarrow> nat option" where
  "dom_next_sibling d i = (if i = NIL then Some NIL else get_at (dt_next d) i)"

definition dom_prev_sibling :: "dom_tree \<Rightarrow> nat \<Rightarrow> nat option" where
  "dom_prev_sibling d i = (if i = NIL then Some NIL else get_at (dt_prev d) i)"

definition dom_len :: "dom_tree \<Rightarrow> nat" where
  "dom_len d = length (dt_parents d) - length (dt_free d)"

definition dom_text :: "dom_tree \<Rightarrow> nat \<Rightarrow> string option option" where
  "dom_text d i = do {
     fl \<leftarrow> get_at (dt_flags d) i;
     if fl AND FLAG_TEXT = 0 then Some None
     else do { sp \<leftarrow> get_at (dt_spans d) i; Some (Some (take (snd sp) (drop (fst sp) (dt_pool d)))) }
   }"

end
