(* ===== verification/Dom_Forest.thy ===== *)
theory Dom_Forest
  imports Dom_Tree
begin

text \<open>
  The forest that a document of Dom_Tree stands for: the function \<open>K\<close> from a node to the list of its children,
  with the roots as the children of \<open>NIL\<close>. Adding a slot appends one leaf, removing a node takes away exactly
  its subtree, the loops end, and the numbering decides descent.
\<close>

section \<open>The links of a document\<close>

definition dom_size :: "dom_tree \<Rightarrow> nat" where
  "dom_size d = length (dt_parents d)"

definition node_link :: "nat list \<Rightarrow> nat \<Rightarrow> nat" where
  "node_link xs i = (if i < length xs then xs ! i else NIL)"

definition root_link :: "nat \<Rightarrow> nat list \<Rightarrow> nat \<Rightarrow> nat" where
  "root_link r xs p = (if p = NIL then r else node_link xs p)"

definition links_of :: "dom_tree \<Rightarrow> links" where
  "links_of d =
     \<lparr>lk_par = node_link (dt_parents d), lk_first = root_link (dt_roots_head d) (dt_first d),
      lk_last = root_link (dt_roots_tail d) (dt_last d), lk_next = node_link (dt_next d), lk_prev = node_link (dt_prev d)\<rparr>"

lemma node_link_update: "i < length xs \<Longrightarrow> node_link (xs[i := v]) = (node_link xs)(i := v)"
  by (auto simp: node_link_def fun_eq_iff)

lemma root_link_update: "i < length xs \<Longrightarrow> i \<noteq> NIL \<Longrightarrow> root_link r (xs[i := v]) = (root_link r xs)(i := v)"
  by (auto simp: root_link_def node_link_update fun_eq_iff)

lemma root_link_root: "root_link v xs = (root_link r xs)(NIL := v)"
  by (auto simp: root_link_def fun_eq_iff)

definition dims :: "dom_tree \<Rightarrow> bool" where
  "dims d \<longleftrightarrow> (let n = dom_size d in n \<le> MAX_NODES \<and> length (dt_first d) = n \<and> length (dt_last d) = n \<and>
     length (dt_next d) = n \<and> length (dt_prev d) = n \<and> length (dt_tags d) = n \<and> length (dt_flags d) = n \<and>
     length (dt_gens d) = n \<and> length (dt_spans d) = n \<and> length (dt_attr_start d) = n \<and> length (dt_attr_count d) = n)"

lemmas dims_simps = dims_def Let_def dom_size_def

text \<open>What an operation on the links leaves alone.\<close>

definition same_rest :: "dom_tree \<Rightarrow> dom_tree \<Rightarrow> bool" where
  "same_rest d d' \<longleftrightarrow> dt_tags d' = dt_tags d \<and> dt_flags d' = dt_flags d \<and> dt_gens d' = dt_gens d \<and> dt_spans d' = dt_spans d \<and>
     dt_attr_start d' = dt_attr_start d \<and> dt_attr_count d' = dt_attr_count d \<and> dt_attrs d' = dt_attrs d \<and>
     dt_pool d' = dt_pool d \<and> dt_free d' = dt_free d \<and> dt_id_index d' = dt_id_index d \<and>
     dt_scripts d' = dt_scripts d \<and> dt_forms d' = dt_forms d \<and> dt_inputs d' = dt_inputs d \<and>
     dt_title d' = dt_title d \<and> dt_meta_desc d' = dt_meta_desc d \<and> dom_size d' = dom_size d"

lemma NIL_large: "dims d \<Longrightarrow> i < dom_size d \<Longrightarrow> i \<noteq> NIL"
  by (auto simp: dims_def Let_def MAX_NODES_def NIL_def)

lemma links_eqI:
  "lk_par h = lk_par h' \<Longrightarrow> lk_first h = lk_first h' \<Longrightarrow> lk_last h = lk_last h' \<Longrightarrow> lk_next h = lk_next h' \<Longrightarrow>
   lk_prev h = lk_prev h' \<Longrightarrow> h = (h' :: links)"
  by simp

lemma dims_lengths:
  assumes "dims d"
  shows "length (dt_parents d) = dom_size d" "length (dt_first d) = dom_size d" "length (dt_last d) = dom_size d"
    "length (dt_next d) = dom_size d" "length (dt_prev d) = dom_size d" "length (dt_tags d) = dom_size d"
    "length (dt_flags d) = dom_size d" "length (dt_gens d) = dom_size d" "length (dt_spans d) = dom_size d"
    "length (dt_attr_start d) = dom_size d" "length (dt_attr_count d) = dom_size d"
  using assms by (simp_all add: dims_simps)

text \<open>A step that only changes the links, to \<open>h\<close>.\<close>

definition links_step :: "dom_tree \<Rightarrow> dom_tree \<Rightarrow> links \<Rightarrow> bool" where
  "links_step d d' h \<longleftrightarrow> links_of d' = h \<and> dims d' \<and> same_rest d d'"

lemma same_rest_trans: "same_rest d d' \<Longrightarrow> same_rest d' d'' \<Longrightarrow> same_rest d d''"
  by (simp add: same_rest_def)

lemmas step_defs = links_step_def links_of_def same_rest_def dom_size_def dims_def Let_def

lemma set_parent_step:
  assumes "dims d" "i < dom_size d"
  shows "links_step d (d\<lparr>dt_parents := (dt_parents d)[i := v]\<rparr>)
    ((links_of d)\<lparr>lk_par := (lk_par (links_of d))(i := v)\<rparr>)"
  using assms by (simp add: step_defs node_link_update)

lemma set_next_step:
  assumes "dims d" "i < dom_size d"
  shows "\<exists>d'. dom_set_next i v d = Some d' \<and> links_step d d' ((links_of d)\<lparr>lk_next := (lk_next (links_of d))(i := v)\<rparr>)"
  using assms by (simp add: dom_set_next_def step_defs node_link_update)

lemma set_prev_step:
  assumes "dims d" "i < dom_size d"
  shows "\<exists>d'. dom_set_prev i v d = Some d' \<and> links_step d d' ((links_of d)\<lparr>lk_prev := (lk_prev (links_of d))(i := v)\<rparr>)"
  using assms by (simp add: dom_set_prev_def step_defs node_link_update)

lemma set_head_step:
  assumes d: "dims d" and p: "p = NIL \<or> p < dom_size d"
  shows "\<exists>d'. dom_set_head p v d = Some d' \<and> links_step d d' ((links_of d)\<lparr>lk_first := (lk_first (links_of d))(p := v)\<rparr>)"
proof (cases "p = NIL")
  case True
  then show ?thesis using d root_link_root [of v _ "dt_roots_head d"] by (simp add: dom_set_head_def step_defs)
next
  case False
  then show ?thesis using d p by (simp add: dom_set_head_def step_defs root_link_update)
qed

lemma set_tail_step:
  assumes d: "dims d" and p: "p = NIL \<or> p < dom_size d"
  shows "\<exists>d'. dom_set_tail p v d = Some d' \<and> links_step d d' ((links_of d)\<lparr>lk_last := (lk_last (links_of d))(p := v)\<rparr>)"
proof (cases "p = NIL")
  case True
  then show ?thesis using d root_link_root [of v _ "dt_roots_tail d"] by (simp add: dom_set_tail_def step_defs)
next
  case False
  then show ?thesis using d p by (simp add: dom_set_tail_def step_defs root_link_update)
qed


lemma links_step_trans:
  "links_step d d' h \<Longrightarrow> links_step d' d'' h' \<Longrightarrow> links_step d d'' h'"
  by (auto simp: links_step_def intro: same_rest_trans)

lemma step_size: "links_step d d' h \<Longrightarrow> dom_size d' = dom_size d \<and> dims d' \<and> links_of d' = h"
  by (simp add: links_step_def same_rest_def)

lemma tail_reads: "dims d \<Longrightarrow> p = NIL \<or> p < dom_size d \<Longrightarrow> dom_tail d p = Some (lk_last (links_of d) p)"
  using NIL_large [of d p] by (auto simp: dom_tail_def links_of_def root_link_def node_link_def dims_lengths)

lemma head_reads: "dims d \<Longrightarrow> p = NIL \<or> p < dom_size d \<Longrightarrow> dom_head d p = Some (lk_first (links_of d) p)"
  using NIL_large [of d p] by (auto simp: dom_head_def links_of_def root_link_def node_link_def dims_lengths)

lemma node_reads:
  assumes "dims d" "i < dom_size d"
  shows "get_at (dt_parents d) i = Some (lk_par (links_of d) i)" "get_at (dt_next d) i = Some (lk_next (links_of d) i)"
    "get_at (dt_prev d) i = Some (lk_prev (links_of d) i)" "get_at (dt_first d) i = Some (lk_first (links_of d) i)"
    "get_at (dt_last d) i = Some (lk_last (links_of d) i)"
  using assms NIL_large [OF assms] by (simp_all add: links_of_def root_link_def node_link_def dims_lengths)

lemma link_child_links:
  assumes d: "dims d" and c: "c < dom_size d" and p: "p = NIL \<or> p < dom_size d"
    and t: "lk_last (links_of d) p = NIL \<or> lk_last (links_of d) p < dom_size d"
  shows "\<exists>d'. link_child p c d = Some d' \<and> links_step d d' (link_end p c (links_of d))"
proof -
  define pr where "pr = lk_last (links_of d) p"
  define d1 where "d1 = d\<lparr>dt_parents := (dt_parents d)[c := p]\<rparr>"
  have s1: "links_step d d1 ((links_of d)\<lparr>lk_par := (lk_par (links_of d))(c := p)\<rparr>)"
    using set_parent_step [OF d c] by (simp add: d1_def)
  note z1 = step_size [OF s1]
  have e: "link_child p c d = Option.bind (if pr = NIL then dom_set_head p c d1
      else do { d \<leftarrow> dom_set_next pr c d1; dom_set_prev c pr d }) (dom_set_tail p c)"
    using c p z1 tail_reads [of d1 p] dims_lengths [OF d] by (simp add: link_child_def pr_def flip: d1_def)
  show ?thesis
  proof (cases "pr = NIL")
    case True
    obtain d2 where s2: "dom_set_head p c d1 = Some d2"
      "links_step d1 d2 ((links_of d1)\<lparr>lk_first := (lk_first (links_of d1))(p := c)\<rparr>)"
      using set_head_step [of d1 p c] z1 p by auto
    obtain d3 where s3: "dom_set_tail p c d2 = Some d3"
      "links_step d2 d3 ((links_of d2)\<lparr>lk_last := (lk_last (links_of d2))(p := c)\<rparr>)"
      using set_tail_step [of d2 p c] step_size [OF s2(2)] z1 p by auto
    have "links_step d d3 ((links_of d2)\<lparr>lk_last := (lk_last (links_of d2))(p := c)\<rparr>)"
      using s1 s2 s3 links_step_trans by blast
    then show ?thesis using True s2 s3 z1 step_size [OF s2(2)]
      by (simp add: e link_end_def Let_def flip: pr_def)
  next
    case False
    then have pn: "pr < dom_size d" using t by (simp add: pr_def)
    obtain d2 where s2: "dom_set_next pr c d1 = Some d2"
      "links_step d1 d2 ((links_of d1)\<lparr>lk_next := (lk_next (links_of d1))(pr := c)\<rparr>)"
      using set_next_step [of d1 pr c] z1 pn by auto
    note z2 = step_size [OF s2(2)]
    obtain d3 where s3: "dom_set_prev c pr d2 = Some d3"
      "links_step d2 d3 ((links_of d2)\<lparr>lk_prev := (lk_prev (links_of d2))(c := pr)\<rparr>)"
      using set_prev_step [of d2 c pr] z1 z2 c by auto
    note z3 = step_size [OF s3(2)]
    obtain d4 where s4: "dom_set_tail p c d3 = Some d4"
      "links_step d3 d4 ((links_of d3)\<lparr>lk_last := (lk_last (links_of d3))(p := c)\<rparr>)"
      using set_tail_step [of d3 p c] z1 z2 z3 p by auto
    have "links_step d d4 ((links_of d3)\<lparr>lk_last := (lk_last (links_of d3))(p := c)\<rparr>)"
      using s1 s2 s3 s4 links_step_trans by blast
    moreover have "(links_of d3)\<lparr>lk_last := (lk_last (links_of d3))(p := c)\<rparr> = link_end p c (links_of d)"
      using False by (intro links_eqI) (simp_all add: z3 z2 z1 link_end_def Let_def flip: pr_def)
    ultimately show ?thesis using False s2 s3 s4 by (simp add: e)
  qed
qed

lemma unlink_links:
  assumes d: "dims d" and c: "c < dom_size d"
    and b: "lk_par (links_of d) c = NIL \<or> lk_par (links_of d) c < dom_size d"
      "lk_prev (links_of d) c = NIL \<or> lk_prev (links_of d) c < dom_size d"
      "lk_next (links_of d) c = NIL \<or> lk_next (links_of d) c < dom_size d"
  shows "\<exists>d'. dom_unlink c d = Some d' \<and> links_step d d' (link_out c (links_of d))"
proof -
  define p where "p = lk_par (links_of d) c"
  define pr where "pr = lk_prev (links_of d) c"
  define nx where "nx = lk_next (links_of d) c"
  note b = b [folded p_def pr_def nx_def]
  define h1 where "h1 = (if pr \<noteq> NIL then (links_of d)\<lparr>lk_next := (lk_next (links_of d))(pr := nx)\<rparr>
    else (links_of d)\<lparr>lk_first := (lk_first (links_of d))(p := nx)\<rparr>)"
  obtain d1 where s1: "(if pr \<noteq> NIL then dom_set_next pr nx d else dom_set_head p nx d) = Some d1" "links_step d d1 h1"
    using set_next_step [OF d, of pr nx] set_head_step [OF d, of p nx] b by (cases "pr = NIL") (auto simp: h1_def)
  note z1 = step_size [OF s1(2)]
  define h2 where "h2 = (if nx \<noteq> NIL then h1\<lparr>lk_prev := (lk_prev h1)(nx := pr)\<rparr>
    else h1\<lparr>lk_last := (lk_last h1)(p := pr)\<rparr>)"
  obtain d2 where s2: "(if nx \<noteq> NIL then dom_set_prev nx pr d1 else dom_set_tail p pr d1) = Some d2" "links_step d1 d2 h2"
    using set_prev_step [of d1 nx pr] set_tail_step [of d1 p pr] b z1 by (cases "nx = NIL") (auto simp: h2_def)
  note z2 = step_size [OF s2(2)]
  obtain d3 where s3: "dom_set_prev c NIL d2 = Some d3" "links_step d2 d3 (h2\<lparr>lk_prev := (lk_prev h2)(c := NIL)\<rparr>)"
    using set_prev_step [of d2 c NIL] z1 z2 c by auto
  note z3 = step_size [OF s3(2)]
  obtain d4 where s4: "dom_set_next c NIL d3 = Some d4"
    "links_step d3 d4 (h2\<lparr>lk_prev := (lk_prev h2)(c := NIL), lk_next := (lk_next h2)(c := NIL)\<rparr>)"
    using set_next_step [of d3 c NIL] z1 z2 z3 c by auto
  have "dom_unlink c d = Some d4"
    using s1(1) s2(1) s3(1) s4(1) node_reads [OF d c]
    by (simp add: dom_unlink_def flip: p_def pr_def nx_def)
  moreover have "links_step d d4 (h2\<lparr>lk_prev := (lk_prev h2)(c := NIL), lk_next := (lk_next h2)(c := NIL)\<rparr>)"
    using s1(2) s2(2) s3(2) s4(2) links_step_trans by blast
  moreover have "h2\<lparr>lk_prev := (lk_prev h2)(c := NIL), lk_next := (lk_next h2)(c := NIL)\<rparr> = link_out c (links_of d)"
    by (intro links_eqI) (simp_all add: h2_def h1_def link_out_def Let_def flip: p_def pr_def nx_def)
  ultimately show ?thesis by simp
qed


section \<open>The invariant\<close>

definition live :: "dom_tree \<Rightarrow> nat set" where
  "live d = {..<dom_size d} - set (dt_free d)"

definition edges :: "(nat \<Rightarrow> nat list) \<Rightarrow> nat set \<Rightarrow> (nat \<times> nat) set" where
  "edges K L = {(p, c). p \<in> L \<and> c \<in> set (K p)}"

definition dom_inv :: "dom_tree \<Rightarrow> (nat \<Rightarrow> nat list) \<Rightarrow> bool" where
  "dom_inv d K \<longleftrightarrow> dims d \<and> distinct (dt_free d) \<and> set (dt_free d) \<subseteq> {..<dom_size d} \<and>
     forest (links_of d) (insert NIL (live d)) K \<and>
     (\<forall>p\<in>insert NIL (live d). set (K p) \<subseteq> live d) \<and>
     (\<forall>c\<in>live d. \<exists>p\<in>insert NIL (live d). c \<in> set (K p)) \<and>
     (\<forall>i\<in>live d. dt_flags d ! i \<noteq> 0) \<and> (\<forall>i\<in>set (dt_free d). dt_flags d ! i = 0) \<and>
     acyclic (edges K (live d))"

lemma dom_invD:
  assumes "dom_inv d K"
  shows "dims d" "distinct (dt_free d)" "set (dt_free d) \<subseteq> {..<dom_size d}"
    "forest (links_of d) (insert NIL (live d)) K" "\<And>p. p \<in> insert NIL (live d) \<Longrightarrow> set (K p) \<subseteq> live d"
    "\<And>c. c \<in> live d \<Longrightarrow> \<exists>p\<in>insert NIL (live d). c \<in> set (K p)"
    "\<And>i. i \<in> live d \<Longrightarrow> dt_flags d ! i \<noteq> 0" "\<And>i. i \<in> set (dt_free d) \<Longrightarrow> dt_flags d ! i = 0"
    "acyclic (edges K (live d))"
  using assms unfolding dom_inv_def by blast+

lemma live_less: "i \<in> live d \<Longrightarrow> i < dom_size d"
  by (simp add: live_def)

lemma live_notin_NIL: "dom_inv d K \<Longrightarrow> NIL \<notin> live d"
  using NIL_large [OF dom_invD(1)] live_less by blast

lemma dom_new_inv: "dom_inv dom_new (\<lambda>_. [])"
  by (simp add: dom_inv_def dom_new_def dims_simps live_def forest_def kids_ok_def links_of_def root_link_def edges_def acyclic_def)

lemma acyclic_leaf:
  assumes "acyclic (edges K L)" "i \<notin> L" "p \<in> insert NIL L" "NIL \<notin> insert i L"
  shows "acyclic (edges (K(i := [], p := K p @ [i])) (insert i L))"
proof (cases "p = NIL")
  case True
  then have "edges (K(i := [], p := K p @ [i])) (insert i L) \<subseteq> edges K L"
    using assms(4) by (auto simp: edges_def split: if_splits)
  then show ?thesis using assms(1) acyclic_subset by blast
next
  case False
  then have p: "p \<in> L" "p \<noteq> i" using assms(2,3) by auto
  have sub: "edges (K(i := [], p := K p @ [i])) (insert i L) \<subseteq> insert (p, i) (edges K L)"
    using p by (auto simp: edges_def split: if_splits)
  have "(i, p) \<notin> (edges K L)\<^sup>*"
    using p assms(2) by (auto simp: edges_def elim: converse_rtranclE)
  then have "acyclic (insert (p, i) (edges K L))" using assms(1) by simp
  then show ?thesis using sub acyclic_subset by blast
qed

section \<open>Adding a slot\<close>

text \<open>Everything a slot reset leaves alone; the flags of the slot are set.\<close>

definition slot_step :: "nat \<Rightarrow> nat \<Rightarrow> dom_tree \<Rightarrow> dom_tree \<Rightarrow> bool" where
  "slot_step i fl d d' \<longleftrightarrow> dims d' \<and> dom_size d' = dom_size d \<and> dt_flags d' = (dt_flags d)[i := fl] \<and>
     dt_gens d' = dt_gens d \<and> dt_free d' = dt_free d \<and> dt_attrs d' = dt_attrs d \<and> dt_pool d' = dt_pool d \<and>
     dt_id_index d' = dt_id_index d \<and> dt_scripts d' = dt_scripts d \<and> dt_forms d' = dt_forms d \<and>
     dt_inputs d' = dt_inputs d \<and> dt_title d' = dt_title d \<and> dt_meta_desc d' = dt_meta_desc d \<and>
     links_of d' = (links_of d)\<lparr>lk_first := (lk_first (links_of d))(i := NIL), lk_last := (lk_last (links_of d))(i := NIL),
       lk_next := (lk_next (links_of d))(i := NIL), lk_prev := (lk_prev (links_of d))(i := NIL)\<rparr>"

lemma reset_slot_step:
  assumes "dims d" "i < dom_size d"
  shows "\<exists>d'. reset_slot i tag fl sp d = Some d' \<and> slot_step i fl d d'"
  using assms NIL_large [OF assms]
  by (simp add: reset_slot_def slot_step_def step_defs node_link_update root_link_update)

lemma grow_links: "dims d \<Longrightarrow> links_of (grow_slot d) = links_of d"
  by (simp add: links_of_def grow_slot_def root_link_def node_link_def fun_eq_iff nth_append dims_simps)

lemma links_free:
  assumes "forest (links_of d) P K" "i \<notin> P" "\<And>q. q \<in> P \<Longrightarrow> i \<notin> set (K q)" "i \<noteq> NIL" "slot_step i fl d d'"
  shows "forest (links_of d') (insert i P) (K(i := []))"
  unfolding forest_def
proof
  fix q assume q: "q \<in> insert i P"
  have l: "links_of d' = (links_of d)\<lparr>lk_first := (lk_first (links_of d))(i := NIL), lk_last := (lk_last (links_of d))(i := NIL),
       lk_next := (lk_next (links_of d))(i := NIL), lk_prev := (lk_prev (links_of d))(i := NIL)\<rparr>"
    using assms(5) by (simp add: slot_step_def)
  show "kids_ok (links_of d') q ((K(i := [])) q)"
  proof (cases "q = i")
    case True
    then show ?thesis by (simp add: l kids_ok_def)
  next
    case False
    then have "q \<in> P" using q by simp
    then show ?thesis using False assms(3) [of q]
      by (simp, intro kids_ok_frame [OF forestD [OF assms(1)]]) (auto simp: l)
  qed
qed


lemma last_live: "dom_inv d K \<Longrightarrow> p \<in> insert NIL (live d) \<Longrightarrow>
    lk_last (links_of d) p = NIL \<or> lk_last (links_of d) p \<in> live d"
  using last_kid_member [OF forestD [OF dom_invD(4)], of d K p] dom_invD(5) [of d K p] by blast

text \<open>A slot for a new node: the tree gets one leaf more, at the end of its parent's children, or is full.\<close>

lemma push_slot_inv:
  assumes inv: "dom_inv d K" and p: "p \<in> insert NIL (live d)" and fl: "fl \<noteq> 0"
  shows "(\<exists>d'. push_slot p tag fl sp d = Some (None, d') \<and> dom_inv d' K \<and> live d' = live d \<and> dt_scripts d' = dt_scripts d) \<or>
    (\<exists>i d'. push_slot p tag fl sp d = Some (Some i, d') \<and> i \<notin> live d \<and> live d' = insert i (live d) \<and>
       i < dom_size d' \<and> dt_flags d' ! i = fl \<and> dom_inv d' (K(i := [], p := K p @ [i])))"
proof (cases "dt_free d = [] \<and> \<not> dom_size d < MAX_NODES")
  case True
  then show ?thesis using inv
    by (simp add: push_slot_def dom_alloc_slot_def dom_inv_def step_defs live_def)
next
  case False
  define i where "i = (if dt_free d \<noteq> [] then last (dt_free d) else dom_size d)"
  define d1 where "d1 = d\<lparr>dt_free := butlast (dt_free d)\<rparr>"
  define d2 where "d2 = (if i = length (dt_parents d1) then grow_slot d1 else d1)"
  note D = dom_invD [OF inv]
  have e: "push_slot p tag fl sp d = do { d \<leftarrow> reset_slot i tag fl sp d2; d \<leftarrow> link_child p i d; Some (Some i, d) }"
  proof -
    have "dt_free d = [] \<Longrightarrow> d1 = d" by (cases d) (simp add: d1_def)
    then show ?thesis using False
      by (cases "dt_free d = []") (simp_all add: push_slot_def dom_alloc_slot_def i_def d2_def dom_size_def flip: d1_def)
  qed
  have old: "i < dom_size d" "i \<in> set (dt_free d)" if "dt_free d \<noteq> []"
    using subsetD [OF D(3) last_in_set [OF that]] that by (simp_all add: i_def)
  have old': "dt_free d = [] \<or> i < dom_size d" using old(1) by blast
  have i: "i \<notin> live d" using old by (auto simp: live_def i_def)
  have z2: "dims d2" "i < dom_size d2" "links_of d2 = links_of d" "dt_free d2 = butlast (dt_free d)"
    "dom_size d2 = (if dt_free d = [] then Suc (dom_size d) else dom_size d)"
    "\<And>j. j < dom_size d \<Longrightarrow> dt_flags d2 ! j = dt_flags d ! j"
  proof -
    have d1: "dims d1" "links_of d1 = links_of d" "dom_size d1 = dom_size d" "dt_flags d1 = dt_flags d"
      using D(1) by (simp_all add: d1_def step_defs)
    show "links_of d2 = links_of d" using d1 grow_links [OF d1(1)] by (simp add: d2_def)
    show "dims d2" "i < dom_size d2" "dom_size d2 = (if dt_free d = [] then Suc (dom_size d) else dom_size d)"
      "dt_free d2 = butlast (dt_free d)" "\<And>j. j < dom_size d \<Longrightarrow> dt_flags d2 ! j = dt_flags d ! j"
      using d1 False old' dims_lengths [OF d1(1)]
      by (auto simp: d2_def d1_def grow_slot_def dims_simps nth_append i_def split: if_splits)
  qed
  obtain d3 where s3: "reset_slot i tag fl sp d2 = Some d3" "slot_step i fl d2 d3"
    using reset_slot_step [OF z2(1,2)] by blast
  have live3: "live d3 = insert i (live d)"
  proof -
    have "set (butlast (dt_free d)) = set (dt_free d) - {i}"
      using D(2) by (cases "dt_free d" rule: rev_cases) (auto simp: i_def)
    then show ?thesis using s3(2) z2 old D(3) by (auto simp: live_def slot_step_def i_def)
  qed
  have iN: "i \<noteq> NIL" using NIL_large [OF z2(1,2)] .
  have K: "i \<notin> set (K q)" if "q \<in> insert NIL (live d)" for q using D(5) [OF that] i by blast
  have f3: "forest (links_of d3) (insert i (insert NIL (live d))) (K(i := []))"
    using D(4) i iN K s3(2) by (intro links_free [where d = d2]) (auto simp: z2)
  have l3: "dims d3" "lk_next (links_of d3) i = NIL" "lk_prev (links_of d3) i = NIL" "i < dom_size d3"
    using s3(2) z2(2) by (simp_all add: slot_step_def)
  have pi: "p \<noteq> i" using p i iN by auto
  have last: "lk_last (links_of d3) p = lk_last (links_of d) p" using s3(2) pi z2(3) by (simp add: slot_step_def)
  have "lk_last (links_of d3) p = NIL \<or> lk_last (links_of d3) p < dom_size d3" "p = NIL \<or> p < dom_size d3"
    using last_live [OF inv p] p live3 live_less [of _ d3] by (auto simp: last)
  then obtain d4 where s4: "link_child p i d3 = Some d4" "links_step d3 d4 (link_end p i (links_of d3))"
    using link_child_links [OF l3(1,4)] by blast
  note z4 = step_size [OF s4(2)]
  have f4: "forest (links_of d4) (insert i (insert NIL (live d))) (K(i := [], p := K p @ [i]))"
  proof -
    have "i \<notin> set ((K(i := [])) q)" if "q \<in> insert i (insert NIL (live d))" for q using K [of q] that by auto
    then have "forest (link_end p i (links_of d3)) (insert i (insert NIL (live d))) ((K(i := []))(p := (K(i := [])) p @ [i]))"
      using p iN l3 by (intro link_end_forest [OF f3]) blast+
    then show ?thesis using pi z4 by simp
  qed
  have live4: "live d4 = insert i (live d)" using live3 s4(2) by (auto simp: live_def links_step_def same_rest_def)
  have fl4: "dt_flags d4 = (dt_flags d2)[i := fl]" "dt_free d4 = butlast (dt_free d)"
    using s4(2) s3(2) z2(4) by (simp_all add: links_step_def same_rest_def slot_step_def)
  have "dom_inv d4 (K(i := [], p := K p @ [i]))"
    unfolding dom_inv_def
  proof (intro conjI ballI)
    show "dims d4" "acyclic (edges (K(i := [], p := K p @ [i])) (live d4))"
      using z4 acyclic_leaf [OF D(9) i p] live_notin_NIL [OF inv] iN by (auto simp: live4)
    show "distinct (dt_free d4)" using D(2) fl4(2) by (simp add: distinct_butlast)
    show "set (dt_free d4) \<subseteq> {..<dom_size d4}"
      using D(3) fl4(2) z4 z2(5) s3(2) in_set_butlastD by (fastforce simp: slot_step_def)
    show "forest (links_of d4) (insert NIL (live d4)) (K(i := [], p := K p @ [i]))"
      using f4 by (simp add: live4 insert_commute)
    show "set ((K(i := [], p := K p @ [i])) q) \<subseteq> live d4" if "q \<in> insert NIL (live d4)" for q
      using D(5) [of q] D(5) [OF p] that by (auto simp: live4)
    show "\<exists>q\<in>insert NIL (live d4). c \<in> set ((K(i := [], p := K p @ [i])) q)" if c: "c \<in> live d4" for c
    proof (cases "c = i")
      case True
      then show ?thesis using p by (intro bexI [of _ p]) (auto simp: live4)
    next
      case False
      then obtain q where q: "q \<in> insert NIL (live d)" "c \<in> set (K q)" using D(6) [of c] c by (auto simp: live4)
      then show ?thesis using i iN by (intro bexI [of _ q]) (auto simp: live4)
    qed
    show "dt_flags d4 ! j \<noteq> 0" if "j \<in> live d4" for j
      using that D(7) [of j] live_less [of j d] z2 fl dims_lengths(7) [OF z2(1)]
      by (cases "j = i") (auto simp: live4 fl4)
    show "dt_flags d4 ! j = 0" if "j \<in> set (dt_free d4)" for j
    proof -
      have j: "j \<in> set (dt_free d)" "j \<noteq> i"
        using that D(2) in_set_butlastD [of j "dt_free d"] by (cases "dt_free d" rule: rev_cases; auto simp: fl4 i_def)+
      then show ?thesis using D(3,8) z2(6) by (auto simp: fl4)
    qed
  qed
  moreover have "dt_flags d4 ! i = fl" using z2 dims_lengths(7) [OF z2(1)] by (simp add: fl4)
  moreover have "i < dom_size d4" using z4 l3(4) by simp
  ultimately show ?thesis using s3(1) s4(1) i live4 by (simp add: e)
qed

end
