(* ===== verification/Dom_Walks.thy ===== *)
theory Dom_Walks
  imports Dom_Forest "HOL-Library.Multiset"
begin

text \<open>
  The loops over a document: the walk along siblings, the removal of a subtree and the numbering of all nodes,
  each shown to end and to do what the tree below a node says. The trees are a datatype of their own, found
  from the function \<open>K\<close> of children by well-founded recursion.
\<close>

section \<open>Trees\<close>

datatype ctree = Nd nat "ctree list"

fun label :: "ctree \<Rightarrow> nat" where "label (Nd n ts) = n"

fun subs :: "ctree \<Rightarrow> ctree list" where "subs (Nd n ts) = ts"

fun tree_of :: "(nat \<Rightarrow> nat list) \<Rightarrow> ctree \<Rightarrow> bool" where
  "tree_of K (Nd n ts) \<longleftrightarrow> map label ts = K n \<and> (\<forall>t\<in>set ts. tree_of K t)"

fun pre_nodes :: "ctree \<Rightarrow> nat list" where
  "pre_nodes (Nd n ts) = n # concat (map pre_nodes ts)"

fun post_nodes :: "ctree \<Rightarrow> nat list" where
  "post_nodes (Nd n ts) = concat (map post_nodes ts) @ [n]"

fun events :: "ctree \<Rightarrow> (nat \<times> bool) list" where
  "events (Nd n ts) = (n, False) # concat (map events ts) @ [(n, True)]"

lemma label_in_nodes [simp]: "label t \<in> set (pre_nodes t)"
  by (cases t) simp

lemma mset_post_nodes: "mset (post_nodes t) = mset (pre_nodes t)"
proof (induction t)
  case (Nd n ts)
  have "mset (concat (map post_nodes ts)) = mset (concat (map pre_nodes ts))"
    using Nd by (induction ts) auto
  then show ?case by simp
qed

lemma set_post_nodes [simp]: "set (post_nodes t) = set (pre_nodes t)"
  using mset_post_nodes mset_eq_setD by blast

lemma distinct_post_nodes [simp]: "distinct (post_nodes t) = distinct (pre_nodes t)"
  using mset_post_nodes mset_eq_imp_distinct_iff by blast

lemma set_events: "set (events t) = set (pre_nodes t) \<times> UNIV"
proof (induction t)
  case (Nd n ts)
  then show ?case by (auto simp: UNIV_bool)
qed

lemma length_events: "length (events t) = 2 * length (pre_nodes t)"
proof (induction t)
  case (Nd n ts)
  then have "length (concat (map events ts)) = 2 * length (concat (map pre_nodes ts))"
    by (induction ts) auto
  then show ?case by simp
qed

lemma distinct_events: "distinct (pre_nodes t) \<Longrightarrow> distinct (events t)"
proof (induction t)
  case (Nd n ts)
  have "distinct (concat (map pre_nodes us)) \<Longrightarrow> set us \<subseteq> set ts \<Longrightarrow> distinct (concat (map events us))" for us
    using Nd.IH by (induction us) (auto simp: set_events)
  then show ?case using Nd.prems by (auto simp: set_events)
qed

section \<open>Forests of children\<close>

definition kid_forest :: "(nat \<Rightarrow> nat list) \<Rightarrow> nat set \<Rightarrow> bool" where
  "kid_forest K L \<longleftrightarrow> finite L \<and> (\<forall>p\<in>L. set (K p) \<subseteq> L \<and> distinct (K p)) \<and>
     (\<forall>p\<in>L. \<forall>q\<in>L. \<forall>c. c \<in> set (K p) \<longrightarrow> c \<in> set (K q) \<longrightarrow> p = q) \<and> acyclic (edges K L)"

lemma finite_edges: "finite L \<Longrightarrow> finite (edges K L)"
proof -
  assume "finite L"
  moreover have "edges K L = (\<Union>p\<in>L. Pair p ` set (K p))" by (auto simp: edges_def)
  ultimately show ?thesis by simp
qed

lemma kid_forest_wf:
  assumes "kid_forest K L"
  shows "wf (edges K L)" "wf ((edges K L)\<inverse>)"
  using assms finite_edges by (auto simp: kid_forest_def intro: finite_acyclic_wf finite_acyclic_wf_converse)

lemma tree_exists:
  assumes f: "kid_forest K L" and n: "n \<in> L"
  shows "\<exists>t. label t = n \<and> tree_of K t"
  using n
proof (induction n rule: wf_induct_rule [OF kid_forest_wf(2) [OF f]])
  case (1 n)
  have "\<exists>t. label t = c \<and> tree_of K t" if "c \<in> set (K n)" for c
    using 1 that f by (auto simp: edges_def kid_forest_def)
  then obtain ts where "map label ts = K n" "\<forall>t\<in>set ts. tree_of K t"
  proof -
    have "\<exists>ts. map label ts = cs \<and> (\<forall>t\<in>set ts. tree_of K t)" if "set cs \<subseteq> set (K n)" for cs
      using that
    proof (induction cs)
      case (Cons c cs)
      then obtain ts where ts: "map label ts = cs" "\<forall>t\<in>set ts. tree_of K t" by auto
      obtain t where "label t = c" "tree_of K t"
        using \<open>\<And>c. c \<in> set (K n) \<Longrightarrow> \<exists>t. label t = c \<and> tree_of K t\<close> Cons.prems by auto
      then show ?case using ts by (intro exI [of _ "t # ts"]) simp
    qed simp
    then show ?thesis using that by blast
  qed
  then show ?case by (intro exI [of _ "Nd n ts"]) simp
qed

lemma tree_nodes:
  assumes f: "kid_forest K L"
  shows "tree_of K t \<Longrightarrow> label t \<in> L \<Longrightarrow> set (pre_nodes t) = (edges K L)\<^sup>* `` {label t}"
proof (induction t)
  case (Nd n ts)
  have n: "n \<in> L" "map label ts = K n" using Nd.prems by simp_all
  have "set (pre_nodes t) = (edges K L)\<^sup>* `` {label t}" if t: "t \<in> set ts" for t
  proof -
    have "label t \<in> set (K n)" using t n(2) by (metis image_eqI set_map)
    then show ?thesis using Nd t f by (auto simp: kid_forest_def)
  qed
  then have "(\<Union>t\<in>set ts. set (pre_nodes t)) = (\<Union>c\<in>label ` set ts. (edges K L)\<^sup>* `` {c})" by auto
  also have "label ` set ts = set (K n)" using n(2) by (metis set_map)
  finally have kids: "set (concat (map pre_nodes ts)) = (\<Union>c\<in>set (K n). (edges K L)\<^sup>* `` {c})" by auto
  have "x \<in> (edges K L)\<^sup>* `` {n} \<longleftrightarrow> x = n \<or> (\<exists>c\<in>set (K n). (c, x) \<in> (edges K L)\<^sup>*)" for x
  proof -
    have "(n, x) \<in> (edges K L)\<^sup>* \<longleftrightarrow> x = n \<or> (\<exists>c. (n, c) \<in> edges K L \<and> (c, x) \<in> (edges K L)\<^sup>*)"
      by (metis converse_rtranclE converse_rtrancl_into_rtrancl rtrancl.rtrancl_refl)
    then show ?thesis using n(1) by (auto simp: edges_def)
  qed
  then show ?case using kids by auto
qed


lemma one_parent: "kid_forest K L \<Longrightarrow> (p, x) \<in> edges K L \<Longrightarrow> (q, x) \<in> edges K L \<Longrightarrow> p = q"
  by (auto simp: edges_def kid_forest_def)

lemma above_linear:
  assumes f: "kid_forest K L" and "(a, x) \<in> (edges K L)\<^sup>*" "(b, x) \<in> (edges K L)\<^sup>*"
  shows "(a, b) \<in> (edges K L)\<^sup>* \<or> (b, a) \<in> (edges K L)\<^sup>*"
  using assms(2,3)
proof (induction x rule: rtrancl_induct)
  case (step y z)
  show ?case
  proof (cases "b = z")
    case True
    then show ?thesis using step by (auto intro: rtrancl_into_rtrancl)
  next
    case False
    then obtain y' where "(b, y') \<in> (edges K L)\<^sup>*" "(y', z) \<in> edges K L" using step.prems by (meson rtranclE)
    then show ?thesis using step one_parent [OF f] by metis
  qed
qed simp

lemma siblings_apart:
  assumes f: "kid_forest K L" and n: "n \<in> L" and a: "a \<in> set (K n)" and b: "b \<in> set (K n)" "a \<noteq> b"
    and x: "(a, x) \<in> (edges K L)\<^sup>*"
  shows "(b, x) \<notin> (edges K L)\<^sup>*"
proof
  have no: False if ab: "u \<in> set (K n)" "v \<in> set (K n)" "u \<noteq> v" "(u, v) \<in> (edges K L)\<^sup>*" for u v
  proof -
    have e: "(n, u) \<in> edges K L" "(n, v) \<in> edges K L" using n ab by (simp_all add: edges_def)
    obtain y where y: "(u, y) \<in> (edges K L)\<^sup>*" "(y, v) \<in> edges K L" using ab(3,4) by (meson rtranclE)
    then have "(n, n) \<in> (edges K L)\<^sup>+" using e one_parent [OF f y(2) e(2)] by (meson rtrancl_into_trancl2)
    then show False using f by (auto simp: kid_forest_def acyclic_def)
  qed
  assume "(b, x) \<in> (edges K L)\<^sup>*"
  then show False using above_linear [OF f x] no a b by blast
qed

lemma tree_distinct:
  assumes f: "kid_forest K L"
  shows "tree_of K t \<Longrightarrow> label t \<in> L \<Longrightarrow> distinct (pre_nodes t)"
proof (induction t)
  case (Nd n ts)
  have n: "n \<in> L" "map label ts = K n" using Nd.prems by simp_all
  have kid: "label t \<in> set (K n)" "label t \<in> L" if t: "t \<in> set ts" for t
  proof -
    show "label t \<in> set (K n)" using t n(2) by (metis image_eqI set_map)
    then show "label t \<in> L" using n f by (auto simp: kid_forest_def)
  qed
  have sub: "tree_of K t" if "t \<in> set ts" for t using that Nd.prems by simp
  have "n \<notin> set (pre_nodes t)" if t: "t \<in> set ts" for t
  proof
    assume "n \<in> set (pre_nodes t)"
    then have "(label t, n) \<in> (edges K L)\<^sup>*" using tree_nodes [OF f sub [OF t] kid(2) [OF t]] by simp
    moreover have "(n, label t) \<in> edges K L" using n kid [OF t] by (simp add: edges_def)
    ultimately have "(n, n) \<in> (edges K L)\<^sup>+" by (rule rtrancl_into_trancl2 [rotated])
    then show False using f by (simp add: kid_forest_def acyclic_def)
  qed
  moreover have "distinct (concat (map pre_nodes us))" if "set us \<subseteq> set ts" "distinct (map label us)" for us
    using that
  proof (induction us)
    case (Cons u us)
    have "set (pre_nodes u) \<inter> set (pre_nodes v) = {}" if v: "v \<in> set us" for v
    proof -
      have uv: "label u \<noteq> label v" "v \<in> set ts" "u \<in> set ts" using Cons.prems v by auto
      have "set (pre_nodes u) = (edges K L)\<^sup>* `` {label u}" "set (pre_nodes v) = (edges K L)\<^sup>* `` {label v}"
        using tree_nodes [OF f sub kid(2)] uv by blast+
      then show ?thesis
        using siblings_apart [OF f n(1) kid(1) [OF uv(3)] kid(1) [OF uv(2)] uv(1)] by blast
    qed
    moreover have "distinct (pre_nodes u)" using Nd.IH [of u] Cons.prems Nd.prems kid by auto
    ultimately show ?case using Cons by auto
  qed simp
  moreover have "distinct (map label ts)" using n f by (simp add: kid_forest_def)
  ultimately show ?case by auto
qed

section \<open>The whole document as one tree\<close>

lemma dom_kid_forest:
  assumes "dom_inv d K"
  shows "kid_forest K (insert NIL (live d))"
  unfolding kid_forest_def
proof (intro conjI ballI impI allI)
  note D = dom_invD [OF assms]
  show "finite (insert NIL (live d))" by (simp add: live_def)
  show "set (K p) \<subseteq> insert NIL (live d)" "distinct (K p)" if "p \<in> insert NIL (live d)" for p
    using D(5) [OF that] forestD [OF D(4) that] by (auto simp: kids_ok_def)
  show "p = q" if "p \<in> insert NIL (live d)" "q \<in> insert NIL (live d)" "c \<in> set (K p)" "c \<in> set (K q)" for p q c
    using forest_disjoint [OF D(4) that] .
  have "edges K (insert NIL (live d)) \<subseteq> edges K (live d) \<union> {NIL} \<times> live d"
    using D(5) [of NIL] by (auto simp: edges_def)
  moreover have "acyclic (edges K (live d) \<union> {NIL} \<times> live d)"
  proof -
    have ran: "Range (edges K (live d) \<union> {NIL} \<times> live d) \<subseteq> live d" using D(5) by (auto simp: edges_def)
    have "(x, y) \<in> (edges K (live d))\<^sup>+ \<or> x = NIL" if "(x, y) \<in> (edges K (live d) \<union> {NIL} \<times> live d)\<^sup>+" for x y
      using that
    proof (induction rule: trancl_induct)
      case (step y z)
      have "y \<in> live d" using step(1) ran by (auto elim: tranclE)
      then have "y \<noteq> NIL" using live_notin_NIL [OF assms] by blast
      then show ?case using step by (auto intro: trancl_into_trancl)
    qed auto
    moreover have "(NIL, NIL) \<notin> (edges K (live d) \<union> {NIL} \<times> live d)\<^sup>+"
      using ran live_notin_NIL [OF assms] trancl_range [of "edges K (live d) \<union> {NIL} \<times> live d"] by (metis RangeI subsetD)
    ultimately show ?thesis using D(9) unfolding acyclic_def by metis
  qed
  ultimately show "acyclic (edges K (insert NIL (live d)))" by (rule acyclic_subset [rotated])
qed


lemma live_reachable:
  assumes inv: "dom_inv d K" and c: "c \<in> live d"
  shows "(NIL, c) \<in> (edges K (insert NIL (live d)))\<^sup>*"
  using c
proof (induction c rule: wf_induct_rule [OF kid_forest_wf(1) [OF dom_kid_forest [OF inv]]])
  case (1 c)
  obtain p where p: "p \<in> insert NIL (live d)" "c \<in> set (K p)" using dom_invD(6) [OF inv] 1 by blast
  then have "(p, c) \<in> edges K (insert NIL (live d))" by (simp add: edges_def)
  then show ?case using 1 p by (metis insertE rtrancl.rtrancl_refl rtrancl_into_rtrancl)
qed

lemma whole_tree:
  assumes inv: "dom_inv d K"
  obtains ts where "map label ts = K NIL" "\<And>t. t \<in> set ts \<Longrightarrow> tree_of K t"
    "set (concat (map pre_nodes ts)) = live d" "distinct (concat (map pre_nodes ts))"
proof -
  note f = dom_kid_forest [OF inv]
  obtain t where t: "label t = NIL" "tree_of K t" using tree_exists [OF f, of NIL] by auto
  obtain ts where T: "t = Nd NIL ts" using t(1) by (cases t) simp
  have "set (pre_nodes t) = insert NIL (live d)"
  proof -
    have "x \<in> insert NIL (live d)" if "(NIL, x) \<in> (edges K (insert NIL (live d)))\<^sup>*" for x
      using that dom_invD(5) [OF inv] by (cases rule: rtranclE) (auto simp: edges_def)
    then show ?thesis using tree_nodes [OF f t(2)] t(1) live_reachable [OF inv] by auto
  qed
  moreover have "distinct (pre_nodes t)" using tree_distinct [OF f t(2)] t(1) by simp
  ultimately have "insert NIL (set (concat (map pre_nodes ts))) = insert NIL (live d)"
    "NIL \<notin> set (concat (map pre_nodes ts))" "distinct (concat (map pre_nodes ts))"
    by (simp_all add: T)
  then have "set (concat (map pre_nodes ts)) = live d" "distinct (concat (map pre_nodes ts))"
    using live_notin_NIL [OF inv] insert_ident by metis+
  moreover have "map label ts = K NIL" "\<And>t. t \<in> set ts \<Longrightarrow> tree_of K t" using t(2) by (simp_all add: T)
  ultimately show ?thesis by (rule that [rotated 2])
qed

section \<open>The walk along siblings\<close>

lemma siblings_walk:
  assumes "dims d" "\<And>c. c \<in> set cs \<Longrightarrow> c < dom_size d" "seg (links_of d) p pr cs NIL"
  shows "siblings_from d (hd (cs @ [NIL])) = Some cs"
  using assms(2,3)
proof (induction cs arbitrary: pr)
  case Nil
  then show ?case by (simp add: siblings_from.simps [of d NIL])
next
  case (Cons c cs)
  have "c \<noteq> NIL" "lk_next (links_of d) c = hd (cs @ [NIL])" using Cons.prems(2) by simp_all
  then show ?case using Cons.IH [of c] Cons.prems node_reads(2) [OF assms(1), of c]
    by (simp add: siblings_from.simps [of d c])
qed

text \<open>\<open>children\<close> ends and lists the children.\<close>

lemma children_list:
  assumes inv: "dom_inv d K" and p: "p \<in> insert NIL (live d)"
  shows "dom_children d p = Some (K p)" "lk_first (links_of d) p = hd (K p @ [NIL])"
    "siblings_from d (lk_first (links_of d) p) = Some (K p)"
proof -
  note D = dom_invD [OF inv]
  have k: "kids_ok (links_of d) p (K p)" using D(4) p by (rule forestD)
  show 1: "lk_first (links_of d) p = hd (K p @ [NIL])" using k by (simp add: kids_ok_def)
  have "c < dom_size d" if "c \<in> set (K p)" for c using D(5) [OF p] that live_less by blast
  then show 2: "siblings_from d (lk_first (links_of d) p) = Some (K p)"
    using siblings_walk [OF D(1), of "K p" p NIL] k 1 by (simp add: kids_ok_def)
  show "dom_children d p = Some (K p)"
    using head_reads [OF D(1), of p] p live_less [of p d] 2 by (auto simp: dom_children_def)
qed

section \<open>Numbering\<close>

text \<open>The events of the trees, written down at their position.\<close>

fun number :: "nat \<Rightarrow> (nat \<times> bool) list \<Rightarrow> nat list \<times> nat list \<Rightarrow> nat list \<times> nat list" where
  "number k [] (pre, post) = (pre, post)"
| "number k ((n, exit) # es) (pre, post) =
     number (k + 1) es (if exit then (pre, post[n := k]) else (pre[n := k], post))"

lemma number_append: "number k (es @ fs) pp = number (k + length es) fs (number k es pp)"
  by (induction k es pp rule: number.induct) simp_all

lemma number_exit: "number k [(n, True)] pp = (fst pp, (snd pp)[n := k])"
  by (cases pp) simp

lemma number_lengths: "length (fst (number k es pp)) = length (fst pp)" "length (snd (number k es pp)) = length (snd pp)"
  by (induction k es pp rule: number.induct) simp_all

text \<open>One tree on top of the stack is worked off into its events.\<close>

lemma order_tree:
  assumes inv: "dom_inv d K"
  shows "tree_of K t \<Longrightarrow> set (pre_nodes t) \<subseteq> live d \<Longrightarrow> length pre = dom_size d \<Longrightarrow> length post = dom_size d \<Longrightarrow>
    k + length (events t) < 2 ^ 32 \<Longrightarrow>
    order_loop d ((label t, False) # st) k pre post =
    order_loop d st (k + length (events t)) (fst (number k (events t) (pre, post))) (snd (number k (events t) (pre, post)))"
proof (induction t arbitrary: k pre post st)
  case (Nd n ts)
  note D = dom_invD [OF inv]
  have n: "n < dom_size d" "n \<in> live d" using Nd.prems live_less by auto
  have kids: "map label ts = K n" "get_at (dt_first d) n = Some (lk_first (links_of d) n)"
    using Nd.prems node_reads(4) [OF D(1) n(1)] by simp_all
  have row: "order_loop d (map (\<lambda>u. (label u, False)) us @ st) j pr po =
      order_loop d st (j + length (concat (map events us))) (fst (number j (concat (map events us)) (pr, po)))
        (snd (number j (concat (map events us)) (pr, po)))"
    if "set us \<subseteq> set ts" "length pr = dom_size d" "length po = dom_size d" "j + length (concat (map events us)) < 2 ^ 32"
    for us j pr po st
    using that
  proof (induction us arbitrary: j pr po)
    case (Cons u us)
    obtain pr' po' where N: "number j (events u) (pr, po) = (pr', po')" by fastforce
    have l: "length pr' = dom_size d" "length po' = dom_size d"
      using number_lengths [of j "events u" "(pr, po)"] Cons.prems by (simp_all add: N)
    have "order_loop d ((label u, False) # map (\<lambda>u. (label u, False)) us @ st) j pr po =
        order_loop d (map (\<lambda>u. (label u, False)) us @ st) (j + length (events u)) pr' po'"
      using Nd.IH [of u pr po j "map (\<lambda>u. (label u, False)) us @ st"] Cons.prems Nd.prems by (auto simp: N)
    then show ?case using Cons.IH [of pr' po' "j + length (events u)"] Cons.prems l
      by (simp add: N number_append add.assoc)
  qed simp
  have "map (\<lambda>k. (k, False)) (K n) = map (\<lambda>u. (label u, False)) ts"
    unfolding kids(1) [symmetric] by simp
  then have "order_loop d ((n, False) # st) k pre post =
      order_loop d (map (\<lambda>u. (label u, False)) ts @ (n, True) # st) (k + 1) (pre[n := k]) post"
    using n Nd.prems kids children_list(3) [OF inv, of n]
    by (simp add: order_loop.simps [of d "(n, False) # st"])
  also have "\<dots> = order_loop d ((n, True) # st) (k + 1 + length (concat (map events ts)))
      (fst (number (k + 1) (concat (map events ts)) (pre[n := k], post)))
      (snd (number (k + 1) (concat (map events ts)) (pre[n := k], post)))"
    using Nd.prems by (intro row) simp_all
  finally show ?case using n Nd.prems number_lengths [of "k + 1" "concat (map events ts)" "(pre[n := k], post)"]
    by (simp add: order_loop.simps [of d "(n, True) # st"] number_append number_exit)
qed


lemma number_nth:
  assumes "distinct es" "i < length es"
  shows "es ! i = (n, False) \<Longrightarrow> n < length (fst pp) \<Longrightarrow> fst (number k es pp) ! n = k + i"
    and "es ! i = (n, True) \<Longrightarrow> n < length (snd pp) \<Longrightarrow> snd (number k es pp) ! n = k + i"
proof -
  have other: "((m, False) \<notin> set fs \<longrightarrow> fst (number j fs qq) ! m = fst qq ! m) \<and>
      ((m, True) \<notin> set fs \<longrightarrow> snd (number j fs qq) ! m = snd qq ! m)" for m j fs qq
    by (induction j fs qq rule: number.induct) auto
  have es: "es = take i es @ es ! i # drop (Suc i) es" "es ! i \<notin> set (drop (Suc i) es)"
  proof -
    show e: "es = take i es @ es ! i # drop (Suc i) es" using assms(2) by (rule id_take_nth_drop)
    have "distinct (take i es @ es ! i # drop (Suc i) es)" using assms(1) e by simp
    then show "es ! i \<notin> set (drop (Suc i) es)" by simp
  qed
  note N = number_append [of k "take i es" "es ! i # drop (Suc i) es" pp, folded es(1)]
  note l = number_lengths [of k "take i es" pp]
  show "fst (number k es pp) ! n = k + i" if "es ! i = (n, False)" "n < length (fst pp)"
    using N other [of n "drop (Suc i) es" "Suc (k + i)"] es(2) that assms(2) l
    by (cases "number k (take i es) pp") simp
  show "snd (number k es pp) ! n = k + i" if "es ! i = (n, True)" "n < length (snd pp)"
    using N other [of n "drop (Suc i) es" "Suc (k + i)"] es(2) that assms(2) l
    by (cases "number k (take i es) pp") simp
qed

lemma events_split:
  "r \<in> set (pre_nodes t) \<Longrightarrow> tree_of K t \<Longrightarrow> \<exists>A u B. events t = A @ events u @ B \<and> label u = r \<and> tree_of K u"
proof (induction t)
  case (Nd n ts)
  show ?case
  proof (cases "r = n")
    case True
    then show ?thesis using Nd.prems by (intro exI [of _ "[]"] exI [of _ "Nd n ts"]) simp
  next
    case False
    then obtain v where v: "v \<in> set ts" "r \<in> set (pre_nodes v)" using Nd.prems by auto
    then obtain A u B where u: "events v = A @ events u @ B" "label u = r" "tree_of K u" using Nd by fastforce
    obtain us ws where "ts = us @ v # ws" using v(1) by (meson split_list)
    then show ?thesis using u
      by (intro exI [of _ "(n, False) # concat (map events us) @ A"] exI [of _ u]
          exI [of _ "B @ concat (map events ws) @ [(n, True)]"]) simp
  qed
qed

definition below :: "dom_tree \<Rightarrow> (nat \<Rightarrow> nat list) \<Rightarrow> (nat \<times> nat) set" where
  "below d K = (edges K (insert NIL (live d)))\<^sup>*"

text \<open>The numbers of all nodes decide which node is below which.\<close>

definition ordered :: "dom_tree \<Rightarrow> (nat \<Rightarrow> nat list) \<Rightarrow> bool" where
  "ordered d K \<longleftrightarrow> length (dt_pre d) = dom_size d \<and> length (dt_post d) = dom_size d \<and>
     (\<forall>r\<in>live d. \<forall>n\<in>live d.
        dt_pre d ! r \<le> dt_pre d ! n \<and> dt_post d ! n \<le> dt_post d ! r \<longleftrightarrow> (r, n) \<in> below d K)"

lemma number_orders:
  assumes inv: "dom_inv d K" and ts: "\<And>t. t \<in> set ts \<Longrightarrow> tree_of K t" "set (concat (map pre_nodes ts)) = live d"
    "distinct (concat (map pre_nodes ts))" and n: "\<And>i. i \<in> live d \<Longrightarrow> i < m" and r: "r \<in> live d" and x: "x \<in> live d"
    and pp: "pp = number 0 (concat (map events ts)) (replicate m NIL, replicate m NIL)"
  shows "fst pp ! r \<le> fst pp ! x \<and> snd pp ! x \<le> snd pp ! r \<longleftrightarrow> (r, x) \<in> below d K"
proof -
  let ?E = "concat (map events ts)"
  have E: "distinct ?E"
  proof -
    have "distinct (events (Nd NIL ts))"
      using ts(2,3) live_notin_NIL [OF inv] by (intro distinct_events) auto
    then show ?thesis by simp
  qed
  have at: "\<exists>A u B. ?E = A @ events u @ B \<and> label u = y \<and> tree_of K u \<and>
      fst pp ! y = length A \<and> snd pp ! y = length A + length (events u) - 1 \<and> 2 \<le> length (events u)" if y: "y \<in> live d" for y
  proof -
    obtain t where t: "t \<in> set ts" "y \<in> set (pre_nodes t)" using ts(2) y by auto
    obtain A0 u B0 where u: "events t = A0 @ events u @ B0" "label u = y" "tree_of K u"
      using events_split [OF t(2) ts(1) [OF t(1)]] by blast
    obtain us ws where "ts = us @ t # ws" using t(1) by (meson split_list)
    then have AB: "?E = (concat (map events us) @ A0) @ events u @ (B0 @ concat (map events ws))" using u(1) by simp
    define A where "A = concat (map events us) @ A0"
    define B where "B = B0 @ concat (map events ws)"
    note AB = AB [folded A_def B_def]
    obtain vs where vs: "events u = (y, False) # vs @ [(y, True)]" using u(2) by (cases u) simp
    have "?E ! length A = (y, False)" "?E ! (length A + Suc (length vs)) = (y, True)"
      "length A + Suc (length vs) < length ?E" by (simp_all add: AB vs nth_append)
    then have "fst pp ! y = length A" "snd pp ! y = length A + Suc (length vs)"
      using number_nth [OF E, of "length A" y "(replicate m NIL, replicate m NIL)" 0]
        number_nth [OF E, of "length A + Suc (length vs)" y "(replicate m NIL, replicate m NIL)" 0] n [OF y]
      by (simp_all add: pp)
    then show ?thesis using AB u(2,3) vs by (intro exI conjI) auto
  qed
  obtain A u B where u: "?E = A @ events u @ B" "label u = r" "tree_of K u" "fst pp ! r = length A"
    "snd pp ! r = length A + length (events u) - 1" "2 \<le> length (events u)" using at [OF r] by blast
  obtain A' v B' where v: "?E = A' @ events v @ B'" "label v = x" "fst pp ! x = length A'"
    "snd pp ! x = length A' + length (events v) - 1" "2 \<le> length (events v)" using at [OF x] by blast
  have ends: "?E ! length A' = (x, False)" "?E ! (length A' + length (events v) - 1) = (x, True)"
    "length A' + length (events v) \<le> length ?E"
    using v(1,2) by (cases v; auto simp: nth_append)+
  have nodes: "x \<in> set (pre_nodes u) \<longleftrightarrow> (r, x) \<in> below d K"
    using tree_nodes [OF dom_kid_forest [OF inv] u(3)] r u(2) by (auto simp: below_def)
  have inside: "?E ! i \<in> set (events u) \<longleftrightarrow> length A \<le> i \<and> i < length A + length (events u)" if "i < length ?E" for i
  proof
    assume "?E ! i \<in> set (events u)"
    then obtain j where j: "j < length (events u)" "?E ! i = events u ! j" by (auto simp: in_set_conv_nth)
    then have "?E ! i = ?E ! (length A + j)" by (simp add: u(1) nth_append)
    then have "i = length A + j" using nth_eq_iff_index_eq [OF E that, of "length A + j"] j by (simp add: u(1))
    then show "length A \<le> i \<and> i < length A + length (events u)" using j by simp
  qed (auto simp: u(1) nth_append)
  show ?thesis
  proof
    assume le: "fst pp ! r \<le> fst pp ! x \<and> snd pp ! x \<le> snd pp ! r"
    have "length A' < length A + length (events u)" using le unfolding u(5) v(4) using u(6) v(5) by arith
    then have "?E ! length A' \<in> set (events u)"
      using inside [of "length A'"] le ends(3) u(4) v(3,5) by simp
    then show "(r, x) \<in> below d K" using nodes by (simp add: ends set_events)
  next
    assume "(r, x) \<in> below d K"
    then have "?E ! length A' \<in> set (events u)" "?E ! (length A' + length (events v) - 1) \<in> set (events u)"
      using nodes unfolding ends(1,2) set_events by auto
    moreover have "length A' < length ?E" "length A' + length (events v) - 1 < length ?E"
      using ends(3) v(5) by arith+
    ultimately have "length A \<le> length A'" "length A' + length (events v) - 1 < length A + length (events u)"
      using inside by blast+
    then show "fst pp ! r \<le> fst pp ! x \<and> snd pp ! x \<le> snd pp ! r"
      unfolding u(4,5) v(3,4) by arith
  qed
qed


lemma inv_orders [simp]:
  "links_of (d\<lparr>dt_pre := a, dt_post := b\<rparr>) = links_of d" "dom_size (d\<lparr>dt_pre := a, dt_post := b\<rparr>) = dom_size d"
  "live (d\<lparr>dt_pre := a, dt_post := b\<rparr>) = live d" "dom_inv (d\<lparr>dt_pre := a, dt_post := b\<rparr>) K = dom_inv d K"
  "below (d\<lparr>dt_pre := a, dt_post := b\<rparr>) K = below d K"
  by (simp_all add: links_of_def dom_size_def live_def dom_inv_def dims_def below_def)

lemma compute_orders_spec:
  assumes inv: "dom_inv d K"
  shows "\<exists>a b. compute_orders d = Some (d\<lparr>dt_pre := a, dt_post := b\<rparr>) \<and> ordered (d\<lparr>dt_pre := a, dt_post := b\<rparr>) K"
proof -
  obtain ts where ts: "map label ts = K NIL" "\<And>t. t \<in> set ts \<Longrightarrow> tree_of K t"
    "set (concat (map pre_nodes ts)) = live d" "distinct (concat (map pre_nodes ts))"
    by (rule whole_tree [OF inv]) blast
  define n where "n = dom_size d"
  define E where "E = concat (map events ts)"
  define pp where "pp = number 0 E (replicate n NIL, replicate n NIL)"
  have "length E = 2 * length (concat (map pre_nodes ts))" unfolding E_def by (induction ts) (simp_all add: length_events)
  also have "\<dots> = 2 * card (live d)" using ts(3,4) distinct_card by metis
  also have "card (live d) \<le> dom_size d" using card_mono [of "{..<dom_size d}" "live d"] by (auto simp: live_def)
  finally have len: "length E < 2 ^ 32" using dom_invD(1) [OF inv] by (simp add: dims_def Let_def MAX_NODES_def)
  have row: "order_loop d (map (\<lambda>u. (label u, False)) us @ st) j pr po =
      order_loop d st (j + length (concat (map events us))) (fst (number j (concat (map events us)) (pr, po)))
        (snd (number j (concat (map events us)) (pr, po)))"
    if "set us \<subseteq> set ts" "length pr = n" "length po = n" "j + length (concat (map events us)) < 2 ^ 32" for us j pr po st
    using that
  proof (induction us arbitrary: j pr po)
    case (Cons u us)
    have u: "tree_of K u" "set (pre_nodes u) \<subseteq> live d" using Cons.prems(1) ts(2) ts(3) by auto
    obtain pr' po' where N: "number j (events u) (pr, po) = (pr', po')" by fastforce
    have l: "length pr' = n" "length po' = n"
      using number_lengths [of j "events u" "(pr, po)"] Cons.prems by (simp_all add: N)
    show ?case using order_tree [OF inv u, of pr po j "map (\<lambda>u. (label u, False)) us @ st"] Cons.prems l
        Cons.IH [of pr' po' "j + length (events u)"] by (simp add: N number_append add.assoc n_def)
  qed simp
  have roots: "siblings_from d (dt_roots_head d) = Some (K NIL)"
    using children_list(3) [OF inv, of NIL] by (simp add: links_of_def root_link_def)
  have "map (\<lambda>k. (k, False)) (K NIL) = map (\<lambda>u. (label u, False)) ts" unfolding ts(1) [symmetric] by simp
  then have "compute_orders d = Some (d\<lparr>dt_pre := fst pp, dt_post := snd pp\<rparr>)"
    using row [of ts "replicate n NIL" "replicate n NIL" 0 "[]"] len roots
    by (simp add: compute_orders_def order_loop.simps [of d "[]"] pp_def E_def n_def dom_size_def Let_def
        split: prod.splits)
  moreover have "length (fst pp) = n" "length (snd pp) = n" by (simp_all add: pp_def number_lengths)
  moreover have "fst pp ! r \<le> fst pp ! x \<and> snd pp ! x \<le> snd pp ! r \<longleftrightarrow> (r, x) \<in> below d K"
    if "r \<in> live d" "x \<in> live d" for r x
    using number_orders [OF inv ts(2,3,4) _ that, of n pp] live_less by (simp add: pp_def E_def n_def)
  ultimately show ?thesis by (intro exI [of _ "fst pp"] exI [of _ "snd pp"]) (simp add: ordered_def n_def)
qed

lemma is_descendant_spec:
  assumes inv: "dom_inv d K" and ord: "ordered d K" and x: "x \<in> live d" and r: "r \<in> live d"
  shows "is_descendant d x r = Some ((r, x) \<in> below d K)"
proof -
  note D = dom_invD [OF inv]
  have i: "x < dom_size d" "r < dom_size d" using live_less x r by auto
  have f: "get_at (dt_flags d) x = Some (dt_flags d ! x)" "get_at (dt_flags d) r = Some (dt_flags d ! r)"
    using i dims_lengths [OF D(1)] by simp_all
  show ?thesis
  proof (cases "x = r")
    case True
    then show ?thesis by (simp add: is_descendant_def below_def)
  next
    case False
    then show ?thesis using i f D(7) [OF x] D(7) [OF r] ord r x
      by (simp add: is_descendant_def ordered_def flip: dom_size_def) blast
  qed
qed

end
