(* ===== verification/Dom_Remove.thy ===== *)
theory Dom_Remove
  imports Dom_Walks
begin

text \<open>
  Removing a node of a document: the two nested loops free exactly the nodes of its subtree, children before
  parents, and the rest of the document keeps its links. Then the properties of the whole component.
\<close>

section \<open>Freeing\<close>

text \<open>What freeing the nodes of \<open>S\<close> changes.\<close>

definition freed :: "nat set \<Rightarrow> dom_tree \<Rightarrow> dom_tree \<Rightarrow> bool" where
  "freed S d d' \<longleftrightarrow> dims d' \<and> dom_size d' = dom_size d \<and>
     (\<forall>i. i \<notin> S \<longrightarrow> lk_par (links_of d') i = lk_par (links_of d) i \<and> lk_first (links_of d') i = lk_first (links_of d) i \<and>
        lk_last (links_of d') i = lk_last (links_of d) i \<and> lk_next (links_of d') i = lk_next (links_of d) i \<and>
        lk_prev (links_of d') i = lk_prev (links_of d) i) \<and>
     (\<forall>i < dom_size d. dt_flags d' ! i = (if i \<in> S then 0 else dt_flags d ! i)) \<and>
     dt_scripts d' = dt_scripts d \<and> dt_forms d' = dt_forms d \<and> dt_inputs d' = dt_inputs d \<and>
     dt_title d' = dt_title d \<and> dt_meta_desc d' = dt_meta_desc d"

lemma freed_trans: "freed S d d' \<Longrightarrow> freed T d' d'' \<Longrightarrow> freed (S \<union> T) d d''"
  by (auto simp: freed_def)

lemma free_node_step:
  assumes d: "dims d" and i: "i < dom_size d"
  shows "\<exists>d'. free_node i d = Some d' \<and> freed {i} d d' \<and> dt_free d' = dt_free d @ [i]"
proof -
  define d1 where "d1 = d\<lparr>dt_gens := (dt_gens d)[i := (dt_gens d ! i + 1) mod 2 ^ 32], dt_parents := (dt_parents d)[i := NIL]\<rparr>"
  have d1: "dims d1" "dom_size d1 = dom_size d" "links_of d1 = (links_of d)\<lparr>lk_par := (lk_par (links_of d))(i := NIL)\<rparr>"
    using d i by (simp_all add: d1_def step_defs node_link_update)
  obtain d2 where d2: "reset_slot i TAG_UNKNOWN 0 NIL_SPAN d1 = Some d2" "slot_step i 0 d1 d2"
    using reset_slot_step [of d1 i TAG_UNKNOWN 0 NIL_SPAN] d1 i by fastforce
  have e: "free_node i d = Some (d2\<lparr>dt_free := dt_free d2 @ [i]\<rparr>)"
    using d2(1) i dims_lengths [OF d] by (simp add: free_node_def d1_def)
  define d3 where "d3 = d2\<lparr>dt_free := dt_free d2 @ [i]\<rparr>"
  note s = d2(2) [unfolded slot_step_def]
  have "dims d2" using s by blast
  then have "dims d3" by (simp add: d3_def dims_def dom_size_def)
  moreover have "dom_size d3 = dom_size d" "dt_free d3 = dt_free d @ [i]" "dt_flags d3 = (dt_flags d)[i := 0]"
    "dt_scripts d3 = dt_scripts d" "dt_forms d3 = dt_forms d" "dt_inputs d3 = dt_inputs d" "dt_title d3 = dt_title d"
    "dt_meta_desc d3 = dt_meta_desc d"
    using s d1(2) by (simp_all add: d3_def d1_def dom_size_def)
  moreover have "links_of d3 = (links_of d1)\<lparr>lk_first := (lk_first (links_of d1))(i := NIL),
      lk_last := (lk_last (links_of d1))(i := NIL), lk_next := (lk_next (links_of d1))(i := NIL),
      lk_prev := (lk_prev (links_of d1))(i := NIL)\<rparr>"
    using s by (simp add: d3_def links_of_def)
  ultimately have "freed {i} d d3"
    using dims_lengths(7) [OF d] by (simp add: freed_def d1(3) nth_list_update)
  then show ?thesis using e \<open>dt_free d3 = dt_free d @ [i]\<close> by (simp flip: d3_def)
qed

lemma distinct_concat_member: "distinct (concat (map f ts)) \<Longrightarrow> t \<in> set ts \<Longrightarrow> distinct (f t)"
  by (induction ts) auto

fun free_all :: "nat list \<Rightarrow> dom_tree \<Rightarrow> dom_tree option" where
  "free_all [] d = Some d"
| "free_all (x # xs) d = Option.bind (free_node x d) (free_all xs)"

lemma free_all_append: "free_all (xs @ ys) d = Option.bind (free_all xs d) (free_all ys)"
proof (induction xs arbitrary: d)
  case (Cons x xs)
  then show ?case by (cases "free_node x d") simp_all
qed simp

lemma free_all_step:
  assumes "dims d" "\<And>x. x \<in> set xs \<Longrightarrow> x < dom_size d"
  shows "\<exists>d'. free_all xs d = Some d' \<and> freed (set xs) d d' \<and> dt_free d' = dt_free d @ xs"
  using assms
proof (induction xs arbitrary: d)
  case Nil
  then show ?case by (simp add: freed_def)
next
  case (Cons x xs)
  obtain d1 where d1: "free_node x d = Some d1" "freed {x} d d1" "dt_free d1 = dt_free d @ [x]"
    using free_node_step [of d x] Cons.prems by auto
  moreover obtain d2 where "free_all xs d1 = Some d2" "freed (set xs) d1 d2" "dt_free d2 = dt_free d1 @ xs"
    using Cons.IH [of d1] Cons.prems d1(2) by (auto simp: freed_def)
  ultimately show ?case using freed_trans [OF d1(2), of "set xs" d2] by simp
qed

section \<open>The two loops\<close>

definition below_ok :: "dom_tree \<Rightarrow> (nat \<Rightarrow> nat list) \<Rightarrow> nat list \<Rightarrow> bool" where
  "below_ok d K xs \<longleftrightarrow> (\<forall>x\<in>set xs. x < dom_size d \<and> kids_ok (links_of d) x (K x))"

lemma kids_in_nodes: "tree_of K t \<Longrightarrow> x \<in> set (pre_nodes t) \<Longrightarrow> set (K x) \<subseteq> set (pre_nodes t)"
proof (induction t)
  case (Nd n ts)
  show ?case
  proof (cases "x = n")
    case True
    have "set (K n) = label ` set ts" using Nd.prems by (metis set_map tree_of.simps)
    then show ?thesis using True by force
  next
    case False
    then obtain t where "t \<in> set ts" "x \<in> set (pre_nodes t)" using Nd.prems by auto
    then show ?thesis using Nd by fastforce
  qed
qed

lemma below_ok_freed:
  assumes "below_ok d K (pre_nodes t)" "tree_of K t" "freed S d d'" "S \<inter> set (pre_nodes t) = {}"
  shows "below_ok d' K (pre_nodes t)"
  unfolding below_ok_def
proof (intro ballI conjI)
  fix x assume x: "x \<in> set (pre_nodes t)"
  show "x < dom_size d'" using assms(1,3) x by (simp add: below_ok_def freed_def)
  have "kids_ok (links_of d) x (K x)" using assms(1) x by (simp add: below_ok_def)
  moreover have "y \<notin> S" if "y \<in> insert x (set (K x))" for y
    using that assms(4) kids_in_nodes [OF assms(2) x] x by blast
  ultimately show "kids_ok (links_of d') x (K x)"
    using assms(3) by (elim kids_ok_frame) (simp_all add: freed_def)
qed

text \<open>Going down from a node frees everything below it and comes back up to it.\<close>

lemma remove_down:
  assumes "tree_of K t" "dims d" "below_ok d K (pre_nodes t)" "distinct (pre_nodes t)"
    and "root \<notin> set (concat (map pre_nodes (subs t)))"
  shows "remove_loop root False (label t) d =
    Option.bind (free_all (concat (map post_nodes (subs t))) d) (remove_loop root True (label t))"
  using assms
proof (induction t arbitrary: d)
  case (Nd n ts)
  have n: "n < dom_size d" "kids_ok (links_of d) n (K n)" "map label ts = K n"
    using Nd.prems by (simp_all add: below_ok_def)
  have down: "remove_loop root False (label u) d =
      Option.bind (free_all (concat (map post_nodes (subs u))) d) (remove_loop root True (label u))"
    if "u \<in> set ts" "dims d" "below_ok d K (pre_nodes u)" for u d
  proof -
    have "distinct (pre_nodes u)" using Nd.prems(4) that(1) by (auto intro: distinct_concat_member)
    moreover have "root \<notin> set (concat (map pre_nodes (subs u)))"
      using Nd.prems(5) that(1) by (cases u) force
    ultimately show ?thesis using Nd.IH [OF that(1)] Nd.prems(1) that by simp
  qed
  have leave: "\<exists>d1 d2. free_all (concat (map post_nodes (subs u))) d = Some d1 \<and> free_node (label u) d1 = Some d2 \<and>
      freed (set (pre_nodes u)) d d2 \<and>
      remove_loop root True (label u) d1 =
        (case us of [] \<Rightarrow> remove_loop root True n d2 | v # _ \<Rightarrow> remove_loop root False (label v) d2)"
    if u: "set (u # us) \<subseteq> set ts" "dims d" "below_ok d K (pre_nodes u)" "distinct (pre_nodes u)"
      "seg (links_of d) n pr (map label (u # us)) NIL" for u us d pr
  proof -
    obtain m vs where m: "u = Nd m vs" by (cases u)
    let ?A = "concat (map post_nodes vs)"
    have A: "set ?A = set (concat (map pre_nodes vs))" "m \<notin> set ?A" using u(4) by (auto simp: m)
    obtain d1 where d1: "free_all ?A d = Some d1" "freed (set ?A) d d1"
      using free_all_step [OF u(2), of ?A] u(3) by (auto simp: m below_ok_def)
    then have r1: "dims d1" "m < dom_size d1" "lk_par (links_of d1) m = n" "lk_next (links_of d1) m = hd (map label us @ [NIL])"
      using u(3,5) A(2) by (simp_all add: freed_def below_ok_def m)
    obtain d2 where d2: "free_node m d1 = Some d2" "freed {m} d1 d2" using free_node_step [OF r1(1,2)] by blast
    have "freed (set (pre_nodes u)) d d2" using freed_trans [OF d1(2) d2(2)] A(1) by (simp add: m)
    moreover have "m \<noteq> root" "\<And>v. v \<in> set us \<Longrightarrow> label v \<noteq> root \<and> label v \<noteq> NIL"
    proof -
      have r: "label v \<noteq> root" if "v \<in> set ts" for v using Nd.prems(5) that label_in_nodes [of v] by auto
      show "m \<noteq> root" using r [of u] u(1) by (simp add: m)
      show "label v \<noteq> root \<and> label v \<noteq> NIL" if "v \<in> set us" for v
        using r [of v] u(1) that seg_member [OF u(5), of "label v"] by auto
    qed
    ultimately show ?thesis using d1(1) d2(1) r1(3,4) node_reads(1,2) [OF r1(1,2)]
      by (cases us) (simp_all add: m remove_loop.simps [of root True m d1])
  qed
  have row: "remove_loop root False (label u) d =
      Option.bind (free_all (concat (map post_nodes (u # us))) d) (remove_loop root True n)"
    if "set (u # us) \<subseteq> set ts" "dims d" "\<And>v. v \<in> set (u # us) \<Longrightarrow> below_ok d K (pre_nodes v)"
      "distinct (concat (map pre_nodes (u # us)))" "seg (links_of d) n pr (map label (u # us)) NIL" for u us d pr
    using that
  proof (induction us arbitrary: u d pr)
    case (Cons v us)
    then obtain d1 d2 where d: "free_all (concat (map post_nodes (subs u))) d = Some d1" "free_node (label u) d1 = Some d2"
      "freed (set (pre_nodes u)) d d2" "remove_loop root True (label u) d1 = remove_loop root False (label v) d2"
      using leave [of u "v # us" d pr] by auto
    have "below_ok d2 K (pre_nodes w)" if w: "w \<in> set (v # us)" for w
    proof (rule below_ok_freed [OF _ _ d(3)])
      show "below_ok d K (pre_nodes w)" using w by (intro Cons.prems(3)) simp
      show "tree_of K w" using Nd.prems(1) subsetD [OF Cons.prems(1), of w] w by simp
      show "set (pre_nodes u) \<inter> set (pre_nodes w) = {}" using Cons.prems(4) w by auto
    qed
    moreover have "seg (links_of d2) n (label u) (map label (v # us)) NIL"
    proof -
      have "label w \<notin> set (pre_nodes u)" if "w \<in> set (v # us)" for w
      proof -
        have "set (pre_nodes u) \<inter> set (pre_nodes w) = {}" using Cons.prems(4) that by auto
        then show ?thesis using label_in_nodes [of w] by blast
      qed
      then have "seg (links_of d2) n (label u) (map label (v # us)) NIL = seg (links_of d) n (label u) (map label (v # us)) NIL"
        using d(3) by (intro seg_frame) (auto simp: freed_def)
      then show ?thesis using Cons.prems(5) by simp
    qed
    ultimately have "remove_loop root False (label v) d2 =
        Option.bind (free_all (concat (map post_nodes (v # us))) d2) (remove_loop root True n)"
      using Cons.prems d(3) by (intro Cons.IH) (auto simp: freed_def)
    moreover have "remove_loop root False (label u) d = remove_loop root True (label u) d1"
      using down [of u d] Cons.prems(1,2) Cons.prems(3) [of u] d(1) by simp
    moreover have "free_all (post_nodes u) d = Some d2" using d(1,2) by (cases u) (simp add: free_all_append)
    ultimately show ?case using d(4) by (simp add: free_all_append)
  next
    case Nil
    then obtain d1 d2 where d: "free_all (concat (map post_nodes (subs u))) d = Some d1" "free_node (label u) d1 = Some d2"
      "remove_loop root True (label u) d1 = remove_loop root True n d2"
      using leave [of u "[]" d pr] by auto
    moreover have "remove_loop root False (label u) d = remove_loop root True (label u) d1"
      using down [of u d] Nil.prems(1,2) Nil.prems(3) [of u] d(1) by simp
    moreover have "free_all (post_nodes u) d = Some d2" using d(1,2) by (cases u) (simp add: free_all_append)
    ultimately show ?case by simp
  qed
  show ?case
  proof (cases ts)
    case Nil
    then show ?thesis using n node_reads(4) [OF Nd.prems(2) n(1)]
      by (simp add: remove_loop.simps [of root False n d] kids_ok_def)
  next
    case (Cons u us)
    have first: "lk_first (links_of d) n = label u" "label u \<noteq> NIL" "seg (links_of d) n NIL (map label (u # us)) NIL"
      using n(2,3) by (auto simp: kids_ok_def Cons simp flip: n(3))
    have "remove_loop root False n d = remove_loop root False (label u) d"
      using n(1) first node_reads(4) [OF Nd.prems(2) n(1)] by (simp add: remove_loop.simps [of root False n d])
    moreover have "below_ok d K (pre_nodes v)" if "v \<in> set ts" for v
      using Nd.prems(3) that by (auto simp: below_ok_def)
    ultimately show ?thesis using row [of u us d NIL] first Nd.prems by (simp add: Cons)
  qed
qed


section \<open>Removing a subtree\<close>

lemma below_parent:
  assumes f: "kid_forest K L" and rc: "(r, c) \<in> (edges K L)\<^sup>*" "c \<noteq> r" and q: "q \<in> L" "c \<in> set (K q)"
  shows "(r, q) \<in> (edges K L)\<^sup>*"
proof -
  obtain y where y: "(r, y) \<in> (edges K L)\<^sup>*" "(y, c) \<in> edges K L"
    by (rule rtranclE [OF rc(1)]) (use rc(2) in auto)
  moreover have "(q, c) \<in> edges K L" using q by (simp add: edges_def)
  ultimately show ?thesis using one_parent [OF f] by metis
qed

lemma remove_loop_inv:
  assumes inv: "dom_inv d K" and r: "r \<in> live d"
  shows "\<exists>d1 d2 p. dom_unlink r d = Some d1 \<and> remove_loop r False r d1 = Some d2 \<and>
    p \<in> insert NIL (live d) \<and> r \<in> set (K p) \<and> dom_inv d2 (K(p := remove1 r (K p))) \<and>
    live d2 = live d - {y. (r, y) \<in> below d K} \<and> dom_size d2 = dom_size d \<and>
    dt_scripts d2 = dt_scripts d \<and> dt_forms d2 = dt_forms d \<and> dt_inputs d2 = dt_inputs d \<and>
    dt_title d2 = dt_title d \<and> dt_meta_desc d2 = dt_meta_desc d"
proof -
  note D = dom_invD [OF inv]
  note f = dom_kid_forest [OF inv]
  let ?L = "insert NIL (live d)"
  obtain p as bs where p: "p \<in> ?L" "K p = as @ r # bs" using D(6) [OF r] by (metis in_set_conv_decomp)
  have rem: "remove1 r (K p) = as @ bs" "r \<notin> set (as @ bs)"
    using forestD [OF D(4) p(1)] by (auto simp: kids_ok_def p(2) remove1_append)
  define K1 where "K1 = K(p := as @ bs)"
  obtain t where t: "label t = r" "tree_of K t" using tree_exists [OF f, of r] r by auto
  define S where "S = set (pre_nodes t)"
  have S: "S = {y. (r, y) \<in> below d K}" using tree_nodes [OF f t(2)] t(1) r by (auto simp: S_def below_def)
  have SL: "S \<subseteq> live d"
  proof
    fix y assume "y \<in> S"
    then have "(r, y) \<in> (edges K ?L)\<^sup>*" by (simp add: S below_def)
    then show "y \<in> live d" using r D(5) by (cases rule: rtranclE) (auto simp: edges_def)
  qed
  have pS: "p \<notin> S"
  proof
    assume "p \<in> S"
    then have "(r, p) \<in> (edges K ?L)\<^sup>*" by (simp add: S below_def)
    moreover have "(p, r) \<in> edges K ?L" using p by (simp add: edges_def)
    ultimately have "(p, p) \<in> (edges K ?L)\<^sup>+" by (rule rtrancl_into_trancl2 [rotated])
    then show False using f by (simp add: kid_forest_def acyclic_def)
  qed
  have seg: "seg (links_of d) p NIL (as @ r # bs) NIL" using forestD [OF D(4) p(1)] p(2) by (simp add: kids_ok_def)
  have Kp: "set (as @ r # bs) \<subseteq> live d" using D(5) [OF p(1)] p(2) by simp
  have rd: "r < dom_size d" using r live_less by blast
  have b: "lk_par (links_of d) r = NIL \<or> lk_par (links_of d) r < dom_size d"
    "lk_prev (links_of d) r = NIL \<or> lk_prev (links_of d) r < dom_size d"
    "lk_next (links_of d) r = NIL \<or> lk_next (links_of d) r < dom_size d"
  proof -
    show "lk_par (links_of d) r = NIL \<or> lk_par (links_of d) r < dom_size d"
      using seg_member [OF seg, of r] p(1) live_less by auto
    show "lk_prev (links_of d) r = NIL \<or> lk_prev (links_of d) r < dom_size d"
      using seg_prev [OF seg] Kp live_less by (cases as rule: rev_cases) auto
    show "lk_next (links_of d) r = NIL \<or> lk_next (links_of d) r < dom_size d"
      using seg_next [OF seg] Kp live_less by (cases bs) auto
  qed
  obtain d1 where d1: "dom_unlink r d = Some d1" "links_step d d1 (link_out r (links_of d))"
    using unlink_links [OF D(1) rd b] by blast
  note z1 = step_size [OF d1(2)]
  have f1: "forest (links_of d1) ?L K1" using link_out_forest(1) [OF D(4) p] z1 by (simp add: K1_def)
  have ok1: "below_ok d1 K (pre_nodes t)"
    unfolding below_ok_def
  proof (intro ballI conjI)
    fix x assume x: "x \<in> set (pre_nodes t)"
    then have "x \<in> live d" "x \<noteq> p" using SL pS by (auto simp: S_def)
    then show "x < dom_size d1" "kids_ok (links_of d1) x (K x)"
      using z1 live_less forestD [OF f1, of x] by (auto simp: K1_def)
  qed
  have dist: "distinct (pre_nodes t)" using tree_distinct [OF f t(2)] t(1) r by simp
  obtain ts where T: "t = Nd r ts" using t(1) by (cases t) simp
  obtain d2 where d2: "free_all (post_nodes t) d1 = Some d2" "freed S d1 d2" "dt_free d2 = dt_free d1 @ post_nodes t"
    using free_all_step [of d1 "post_nodes t"] z1 ok1 by (auto simp: below_ok_def S_def)
  have loop: "remove_loop r False r d1 = Some d2"
  proof -
    have "remove_loop r False r d1 = Option.bind (free_all (concat (map post_nodes ts)) d1) (remove_loop r True r)"
      using remove_down [OF t(2) _ ok1 dist, of r] z1 dist by (simp add: T)
    moreover obtain d3 where d3: "free_all (concat (map post_nodes ts)) d1 = Some d3" "free_node r d3 = Some d2"
      using d2(1) by (auto simp: T free_all_append bind_eq_Some_conv)
    moreover have "remove_loop r True r d3 = Some d2"
    proof -
      obtain d3' where "free_all (concat (map post_nodes ts)) d1 = Some d3'" "freed (set (concat (map post_nodes ts))) d1 d3'"
        using free_all_step [of d1 "concat (map post_nodes ts)"] z1 ok1 by (auto simp: below_ok_def T)
      then have "dims d3" "r < dom_size d3" using d3(1) z1 rd by (auto simp: freed_def)
      then show ?thesis using d3(2) node_reads(1,2) [of d3 r] by (simp add: remove_loop.simps [of r True r d3])
    qed
    ultimately show ?thesis by simp
  qed
  have size2: "dom_size d2 = dom_size d" "dims d2" using d2(2) z1 by (simp_all add: freed_def)
  have free2: "dt_free d2 = dt_free d @ post_nodes t" using d2(3) d1(2) by (simp add: links_step_def same_rest_def)
  have live2: "live d2 = live d - S" by (auto simp: live_def size2 free2 S_def)
  have K1S: "set (K1 q) \<inter> S = {}" if q: "q \<in> insert NIL (live d2)" for q
  proof -
    have q': "q \<in> ?L" "q \<notin> S" using q live2 SL live_notin_NIL [OF inv] by auto
    have "c \<notin> S" if c: "c \<in> set (K1 q)" for c
    proof
      assume "c \<in> S"
      have "c \<in> set (K q)" using c p(2) by (cases "q = p") (auto simp: K1_def)
      moreover have "c \<noteq> r"
      proof
        assume "c = r"
        then have "p = q" using forest_disjoint [OF D(4) p(1) q'(1), of r] p(2) \<open>c \<in> set (K q)\<close> by simp
        then show False using c rem(2) \<open>c = r\<close> by (simp add: K1_def)
      qed
      ultimately have "q \<in> S" using below_parent [OF f, of r c q] \<open>c \<in> S\<close> q' by (simp add: S below_def)
      then show False using q' by simp
    qed
    then show ?thesis by blast
  qed
  have "dom_inv d2 K1"
    unfolding dom_inv_def
  proof (intro conjI ballI)
    show "dims d2" by (rule size2)
    have "set (dt_free d) \<inter> S = {}" using SL by (auto simp: live_def)
    then show "distinct (dt_free d2)" using D(2) dist by (simp add: free2 S_def)
    show "set (dt_free d2) \<subseteq> {..<dom_size d2}" using D(3) SL live_less by (auto simp: free2 size2 S_def)
    show "forest (links_of d2) (insert NIL (live d2)) K1"
      unfolding forest_def
    proof
      fix q assume q: "q \<in> insert NIL (live d2)"
      then have q': "q \<in> ?L" "q \<notin> S" using live2 SL live_notin_NIL [OF inv] by auto
      then show "kids_ok (links_of d2) q (K1 q)"
        using d2(2) K1S [OF q] by (intro kids_ok_frame [OF forestD [OF f1 q'(1)]]) (auto simp: freed_def)
    qed
    show "set (K1 q) \<subseteq> live d2" if q: "q \<in> insert NIL (live d2)" for q
    proof -
      have "q \<in> ?L" using q live2 by auto
      then have "set (K1 q) \<subseteq> live d" using D(5) [of q] Kp by (auto simp: K1_def)
      then show ?thesis using K1S [OF q] by (auto simp: live2)
    qed
    show "\<exists>q\<in>insert NIL (live d2). c \<in> set (K1 q)" if c: "c \<in> live d2" for c
    proof -
      have c': "c \<in> live d" "c \<notin> S" "c \<noteq> r" using c label_in_nodes [of t] by (auto simp: live2 S_def t(1))
      obtain q where q: "q \<in> ?L" "c \<in> set (K q)" using D(6) [OF c'(1)] by blast
      have "q \<notin> S" using c' kids_in_nodes [OF t(2), of q] q(2) by (auto simp: S_def)
      moreover have "c \<in> set (K1 q)" using q c' p(2) by (auto simp: K1_def)
      ultimately show ?thesis using q(1) by (intro bexI [of _ q]) (auto simp: live2)
    qed
    have fl: "dt_flags d1 = dt_flags d" using d1(2) by (simp add: links_step_def same_rest_def)
    show "dt_flags d2 ! i \<noteq> 0" if "i \<in> live d2" for i
      using that D(7) [of i] d2(2) live_less [of i d] z1 fl by (auto simp: live2 freed_def)
    show "dt_flags d2 ! i = 0" if "i \<in> set (dt_free d2)" for i
    proof -
      have "i < dom_size d1" using that D(3) SL live_less z1 by (auto simp: free2 S_def)
      then have "dt_flags d2 ! i = (if i \<in> S then 0 else dt_flags d ! i)" using d2(2) fl by (simp add: freed_def)
      then show ?thesis using that D(8) [of i] by (auto simp: free2 S_def)
    qed
    have "edges K1 (live d2) \<subseteq> edges K (live d)" using p(2) by (auto simp: edges_def K1_def live2 split: if_splits)
    then show "acyclic (edges K1 (live d2))" using D(9) acyclic_subset by blast
  qed
  then show ?thesis using d1(1) loop p rem(1) live2 S size2(1) d2(2) d1(2)
    by (intro exI [of _ d1] exI [of _ d2] exI [of _ p]) (simp add: K1_def freed_def links_step_def same_rest_def)
qed

end
