(* ===== verification/Page_Dom.thy ===== *)
theory Page_Dom
  imports Dom_Remove
begin

text \<open>
  The operations of a document together: what each keeps of the invariant, with the special nodes (scripts,
  forms, inputs, title, description) among the live ones, and the properties of the component.
\<close>

section \<open>Special nodes\<close>

definition marks :: "dom_tree \<Rightarrow> nat list \<times> nat list \<times> nat list \<times> nat option \<times> nat option" where
  "marks d = (dt_scripts d, dt_forms d, dt_inputs d, dt_title d, dt_meta_desc d)"

definition special :: "dom_tree \<Rightarrow> nat set" where
  "special d = set (dt_scripts d) \<union> set (dt_forms d) \<union> set (dt_inputs d) \<union> set_option (dt_title d) \<union>
     set_option (dt_meta_desc d)"

definition dom_ok :: "dom_tree \<Rightarrow> (nat \<Rightarrow> nat list) \<Rightarrow> bool" where
  "dom_ok d K \<longleftrightarrow> dom_inv d K \<and> special d \<subseteq> live d"

lemma special_marks: "marks d' = marks d \<Longrightarrow> special d' = special d"
  by (simp add: marks_def special_def)

lemma marks_set:
  "dom_set_next i v d = Some d' \<Longrightarrow> marks d' = marks d" "dom_set_prev i v d = Some d' \<Longrightarrow> marks d' = marks d"
  "dom_set_head i v d = Some d' \<Longrightarrow> marks d' = marks d" "dom_set_tail i v d = Some d' \<Longrightarrow> marks d' = marks d"
  by (auto simp: dom_set_next_def dom_set_prev_def dom_set_head_def dom_set_tail_def marks_def split: if_splits)

lemma push_slot_marks:
  assumes "push_slot p tag fl sp d = Some (x, d')"
  shows "marks d' = marks d"
proof (cases "dom_alloc_slot d")
  case (Pair i d0)
  have d0: "marks d0 = marks d" using Pair by (auto simp: dom_alloc_slot_def marks_def split: if_splits)
  show ?thesis
  proof (cases i)
    case None
    then show ?thesis using assms Pair d0 by (simp add: push_slot_def)
  next
    case (Some j)
    define d1 where "d1 = (if j = length (dt_parents d0) then grow_slot d0 else d0)"
    have d1: "marks d1 = marks d0" by (simp add: d1_def grow_slot_def marks_def)
    obtain d2 where d2: "reset_slot j tag fl sp d1 = Some d2" "link_child p j d2 = Some d'"
      using assms Pair Some by (auto simp: push_slot_def bind_eq_Some_conv simp flip: d1_def)
    have "marks d2 = marks d1" using d2(1) by (auto simp: reset_slot_def bind_eq_Some_conv marks_def)
    moreover have "marks d' = marks d2"
      using d2(2) by (auto simp: link_child_def bind_eq_Some_conv Let_def split: if_splits dest!: marks_set)
        (auto simp: marks_def)
    ultimately show ?thesis using d0 d1 by simp
  qed
qed

lemma dom_inv_cong:
  assumes "dom_inv d K" "links_of d' = links_of d" "dims d'" "dom_size d' = dom_size d" "dt_free d' = dt_free d"
    and "\<And>i. i < dom_size d \<Longrightarrow> dt_flags d' ! i = 0 \<longleftrightarrow> dt_flags d ! i = 0"
  shows "dom_inv d' K" "live d' = live d"
proof -
  show l: "live d' = live d" using assms(4,5) by (simp add: live_def)
  have "\<forall>i\<in>live d. dt_flags d' ! i \<noteq> 0" "\<forall>i\<in>set (dt_free d). dt_flags d' ! i = 0"
    using assms(6) dom_invD(3,7,8) [OF assms(1)] live_less by auto
  then show "dom_inv d' K" using assms(1,2,3,4,5) by (simp add: dom_inv_def l)
qed

section \<open>Elements\<close>

text \<open>Reading the attributes only fills the pools: the core of the document stays.\<close>

definition dom_core :: "dom_tree \<Rightarrow> (nat list \<times> nat list \<times> nat list \<times> nat list \<times> nat list \<times> nat list) \<times>
    (nat list \<times> nat list \<times> nat list \<times> nat \<times> nat) \<times> nat \<times> nat \<times> nat" where
  "dom_core d = ((dt_parents d, dt_first d, dt_last d, dt_next d, dt_prev d, dt_flags d),
     (dt_tags d, dt_gens d, dt_free d, dt_roots_head d, dt_roots_tail d),
     length (dt_spans d), length (dt_attr_start d), length (dt_attr_count d))"

lemma pool_put_core: "pool_put v d = (sp, d') \<Longrightarrow> dom_core d' = dom_core d \<and> marks d' = marks d"
  by (auto simp: pool_put_def Let_def dom_core_def marks_def split: if_splits)

lemma open_attrs_core:
  "open_attrs hash as n hidden ih d = (c, h, i, d') \<Longrightarrow> dom_core d' = dom_core d \<and> marks d' = marks d"
proof (induction hash as n hidden ih d rule: open_attrs.induct)
  case (2 hash name v as n hidden ih d)
  show ?case
  proof (cases "MAX_ATTRS \<le> length (dt_attrs d)")
    case True
    then show ?thesis using 2(2) by (auto simp: dom_core_def marks_def)
  next
    case False
    obtain sp d1 where p: "pool_put v d = (sp, d1)" by fastforce
    then show ?thesis using 2 False pool_put_core [OF p]
      by (simp add: Let_def) (simp add: dom_core_def marks_def)
  qed
qed (simp add: dom_core_def marks_def)

lemma core_inv:
  assumes "dom_core d' = dom_core d" "dom_inv d K"
  shows "dom_inv d' K" "live d' = live d" "dims d'" "dom_size d' = dom_size d"
proof -
  have "links_of d' = links_of d" "dom_size d' = dom_size d" "dt_free d' = dt_free d" "dt_flags d' = dt_flags d"
    using assms(1) by (simp_all add: links_of_def dom_size_def dom_core_def)
  moreover show "dims d'" using dom_invD(1) [OF assms(2)] assms(1) by (simp add: dims_def dom_size_def dom_core_def)
  ultimately show "dom_inv d' K" "live d' = live d" "dom_size d' = dom_size d" using dom_inv_cong [OF assms(2)] by simp_all
qed

lemma note_special_marks:
  "dom_core (note_special tag as i d) = dom_core d" "special (note_special tag as i d) \<subseteq> insert i (special d)"
  by (auto simp: note_special_def dom_core_def special_def)

lemma open_element_ok:
  assumes ok: "dom_ok d K" and p: "p \<in> insert NIL (live d)"
  shows "(\<exists>d'. open_element hash p tag as d = Some (None, d') \<and> dom_ok d' K \<and> live d' = live d) \<or>
    (\<exists>i d'. open_element hash p tag as d = Some (Some i, d') \<and> i \<notin> live d \<and> live d' = insert i (live d) \<and>
       dom_ok d' (K(i := [], p := K p @ [i])))"
proof -
  have inv: "dom_inv d K" "special d \<subseteq> live d" using ok by (simp_all add: dom_ok_def)
  have "FLAG_ELEMENT \<noteq> 0" by (simp add: FLAG_ELEMENT_def)
  from push_slot_inv [OF inv(1) p this, of tag NIL_SPAN] show ?thesis
  proof (elim disjE exE conjE)
    fix d' assume d': "push_slot p tag FLAG_ELEMENT NIL_SPAN d = Some (None, d')" "dom_inv d' K" "live d' = live d"
    then show ?thesis using special_marks [OF push_slot_marks [OF d'(1)]] inv(2)
      by (simp add: open_element_def dom_ok_def)
  next
    fix i d1
    assume a: "push_slot p tag FLAG_ELEMENT NIL_SPAN d = Some (Some i, d1)" "i \<notin> live d" "live d1 = insert i (live d)"
      "i < dom_size d1" "dt_flags d1 ! i = FLAG_ELEMENT" "dom_inv d1 (K(i := [], p := K p @ [i]))"
    obtain c h ih d2 where o: "open_attrs hash as 0 False None d1 = (c, h, ih, d2)" by (metis prod_cases4)
    note oc = open_attrs_core [OF o]
    note c2 = core_inv [OF conjunct1 [OF oc] a(6)]
    define d3 where "d3 = d2\<lparr>dt_attr_start := (dt_attr_start d2)[i := length (dt_attrs d1)],
      dt_attr_count := (dt_attr_count d2)[i := c],
      dt_flags := (if h then (dt_flags d2)[i := dt_flags d2 ! i OR FLAG_HIDDEN] else dt_flags d2),
      dt_id_index := (case ih of Some h \<Rightarrow> if length (dt_id_index d2) < ID_INDEX_CAP
          then dt_id_index d2 @ [(h, \<lparr>ni_index = i, ni_generation = dt_gens d2 ! i\<rparr>)] else dt_id_index d2
        | None \<Rightarrow> dt_id_index d2)\<rparr>"
    have i2: "i < dom_size d2" using a(4) c2(4) by simp
    have fl: "dt_flags d2 ! i = FLAG_ELEMENT" using a(5) oc by (simp add: dom_core_def)
    have e: "open_element hash p tag as d = Some (Some i, note_special tag as i d3)"
      using a(1) o i2 dims_lengths [OF c2(3)]
      by (simp add: open_element_def d3_def Let_def split: option.split)
    have l3: "links_of d3 = links_of d2" "dims d3" "dom_size d3 = dom_size d2" "dt_free d3 = dt_free d2"
      using c2(3) by (simp_all add: d3_def links_of_def dims_def dom_size_def)
    have "FLAG_ELEMENT OR FLAG_HIDDEN \<noteq> 0" by (simp add: FLAG_ELEMENT_def FLAG_HIDDEN_def)
    then have fl3: "dt_flags d3 ! j = 0 \<longleftrightarrow> dt_flags d2 ! j = 0" if "j < dom_size d2" for j
      using that fl dims_lengths(7) [OF c2(3)] by (cases "j = i") (simp_all add: d3_def FLAG_ELEMENT_def)
    have d3: "dom_inv d3 (K(i := [], p := K p @ [i]))" "live d3 = live d2"
      using dom_inv_cong [OF c2(1) l3 fl3] by simp_all
    have "special d3 = special d" using special_marks [OF conjunct2 [OF oc]] special_marks [OF push_slot_marks [OF a(1)]]
      by (simp add: d3_def special_def)
    then have "special (note_special tag as i d3) \<subseteq> insert i (live d)"
      using note_special_marks(2) [of tag as i d3] inv(2) by blast
    then show ?thesis using e core_inv [OF note_special_marks(1) d3(1), of tag as i] a(2,3) c2(2) d3(2)
      by (simp add: dom_ok_def)
  qed
qed


section \<open>Text\<close>

lemma push_text_ok:
  assumes ok: "dom_ok d K" and p: "p \<in> insert NIL (live d)"
  shows "(\<exists>d'. push_text p txt d = Some d' \<and> dom_ok d' K \<and> live d' = live d) \<or>
    (\<exists>i d'. push_text p txt d = Some d' \<and> i \<notin> live d \<and> live d' = insert i (live d) \<and>
       dom_ok d' (K(i := [], p := K p @ [i])))"
proof (cases "p = NIL")
  case True
  then show ?thesis using ok by (simp add: push_text_def)
next
  case False
  have inv: "dom_inv d K" "special d \<subseteq> live d" using ok by (simp_all add: dom_ok_def)
  obtain sp d1 where put: "pool_put (take (floor_char_boundary_bytes txt (min (length txt) TEXT_NODE_BYTES)) txt) d = (sp, d1)"
    by fastforce
  note pc = pool_put_core [OF put]
  note c1 = core_inv [OF conjunct1 [OF pc] inv(1)]
  have s1: "special d1 \<subseteq> live d1" using special_marks [OF conjunct2 [OF pc]] inv(2) c1(2) by simp
  have p1: "p \<in> live d1" "p < dom_size d1" using p False c1 live_less by auto
  define lst where "lst = lk_last (links_of d1) p"
  have l: "get_at (dt_last d1) p = Some lst" using node_reads(5) [OF c1(3) p1(2)] by (simp add: lst_def)
  have lr: "lst \<noteq> NIL \<Longrightarrow> lst < dom_size d1"
    using last_live [OF c1(1), of p] p1(1) live_less by (auto simp: lst_def)
  define m where "m \<longleftrightarrow> lst \<noteq> NIL \<and> dt_flags d1 ! lst AND FLAG_TEXT \<noteq> 0 \<and>
    fst (dt_spans d1 ! lst) + snd (dt_spans d1 ! lst) = fst sp \<and> snd (dt_spans d1 ! lst) + snd sp \<le> 65535"
  define d2 where "d2 = d1\<lparr>dt_spans := (dt_spans d1)[lst := (fst (dt_spans d1 ! lst), snd (dt_spans d1 ! lst) + snd sp)]\<rparr>"
  have e: "push_text p txt d = (if m then Some d2 else map_option snd (push_slot p TAG_UNKNOWN FLAG_TEXT sp d1))"
    using False put l lr dims_lengths(7,9) [OF c1(3)]
    by (cases "lst = NIL") (simp_all add: push_text_def m_def d2_def Let_def)
  show ?thesis
  proof (cases m)
    case True
    have "dom_core d2 = dom_core d1" "marks d2 = marks d1" by (simp_all add: d2_def dom_core_def marks_def)
    then show ?thesis using True e core_inv [OF _ c1(1), of d2] special_marks [of d2 d1] s1 c1(2)
      by (simp add: dom_ok_def)
  next
    case m: False
    have "FLAG_TEXT \<noteq> 0" "p \<in> insert NIL (live d1)" using p1(1) by (simp_all add: FLAG_TEXT_def)
    from push_slot_inv [OF c1(1) this(2,1), of TAG_UNKNOWN sp] show ?thesis
    proof (elim disjE exE conjE)
      fix d' assume d': "push_slot p TAG_UNKNOWN FLAG_TEXT sp d1 = Some (None, d')" "dom_inv d' K" "live d' = live d1"
      then show ?thesis using m e special_marks [OF push_slot_marks [OF d'(1)]] s1 c1(2) by (simp add: dom_ok_def)
    next
      fix i d' assume a: "push_slot p TAG_UNKNOWN FLAG_TEXT sp d1 = Some (Some i, d')" "i \<notin> live d1"
        "live d' = insert i (live d1)" "dom_inv d' (K(i := [], p := K p @ [i]))"
      then show ?thesis using m e special_marks [OF push_slot_marks [OF a(1)]] s1 c1(2) by (auto simp: dom_ok_def)
    qed
  qed
qed

section \<open>Removal\<close>

lemma retain_used_filter:
  "(\<And>x. x \<in> set xs \<Longrightarrow> x < length (dt_flags d)) \<Longrightarrow> retain_used d xs = Some (filter (\<lambda>x. dt_flags d ! x \<noteq> 0) xs)"
  by (induction xs) (simp_all add: still_used_def)

lemma retain_opt_filter:
  "(\<And>x. y = Some x \<Longrightarrow> x < length (dt_flags d)) \<Longrightarrow>
   retain_opt d y = Some (case y of None \<Rightarrow> None | Some x \<Rightarrow> if dt_flags d ! x \<noteq> 0 then Some x else None)"
  by (cases y) (simp_all add: retain_opt_def still_used_def)

lemma live_flags: "dom_inv d K \<Longrightarrow> i < dom_size d \<Longrightarrow> dt_flags d ! i \<noteq> 0 \<longleftrightarrow> i \<in> live d"
  using dom_invD(7,8) [of d K i] by (auto simp: live_def)

lemma valid_live: "dom_inv d K \<Longrightarrow> is_valid d x = Some True \<Longrightarrow> ni_index x \<in> live d"
  using dims_lengths(7,8) [OF dom_invD(1), of d K] live_flags [of d K "ni_index x"]
  by (auto simp: is_valid_def dom_size_def split: if_splits)

lemma valid_total: "dom_inv d K \<Longrightarrow> \<exists>b. is_valid d x = Some b"
  using dims_lengths(7,8) [OF dom_invD(1), of d K] by (auto simp: is_valid_def dom_size_def)

lemma remove_node_ok:
  assumes ok: "dom_ok d K" and v: "is_valid d x = Some True"
  shows "\<exists>d' p. remove_node x d = Some (True, d') \<and> p \<in> insert NIL (live d) \<and> ni_index x \<in> set (K p) \<and>
    dom_ok d' (K(p := remove1 (ni_index x) (K p))) \<and> ordered d' (K(p := remove1 (ni_index x) (K p))) \<and>
    live d' = live d - {y. (ni_index x, y) \<in> below d K}"
proof -
  have inv: "dom_inv d K" "special d \<subseteq> live d" using ok by (simp_all add: dom_ok_def)
  obtain d1 d2 p where r: "dom_unlink (ni_index x) d = Some d1" "remove_loop (ni_index x) False (ni_index x) d1 = Some d2"
    "p \<in> insert NIL (live d)" "ni_index x \<in> set (K p)" "dom_inv d2 (K(p := remove1 (ni_index x) (K p)))"
    "live d2 = live d - {y. (ni_index x, y) \<in> below d K}" "dom_size d2 = dom_size d" "marks d2 = marks d"
    using remove_loop_inv [OF inv(1) valid_live [OF inv(1) v]] unfolding marks_def by metis
  define K' where "K' = K(p := remove1 (ni_index x) (K p))"
  note i2 = r(5) [folded K'_def]
  have len: "length (dt_flags d2) = dom_size d" using dims_lengths(7) [OF dom_invD(1) [OF i2]] r(7) by simp
  have sp: "\<And>y. y \<in> special d2 \<Longrightarrow> y < length (dt_flags d2)"
    using special_marks [OF r(8)] inv(2) live_less len by auto
  let ?keep = "filter (\<lambda>x. dt_flags d2 ! x \<noteq> 0)"
  let ?opt = "\<lambda>y. case y of None \<Rightarrow> None | Some x \<Rightarrow> if dt_flags d2 ! x \<noteq> 0 then Some x else None"
  have ret: "retain_used d2 (dt_scripts d2) = Some (?keep (dt_scripts d2))" "retain_used d2 (dt_forms d2) = Some (?keep (dt_forms d2))"
    "retain_used d2 (dt_inputs d2) = Some (?keep (dt_inputs d2))" "retain_opt d2 (dt_title d2) = Some (?opt (dt_title d2))"
    "retain_opt d2 (dt_meta_desc d2) = Some (?opt (dt_meta_desc d2))"
    by (intro retain_used_filter retain_opt_filter sp; auto simp: special_def)+
  define d3 where "d3 = d2\<lparr>dt_scripts := ?keep (dt_scripts d2), dt_forms := ?keep (dt_forms d2),
    dt_inputs := ?keep (dt_inputs d2), dt_title := ?opt (dt_title d2), dt_meta_desc := ?opt (dt_meta_desc d2)\<rparr>"
  have c3: "dom_core d3 = dom_core d2" by (simp add: d3_def dom_core_def)
  note i3 = core_inv [OF c3 i2]
  have "special d3 \<subseteq> live d3"
  proof
    fix y assume y: "y \<in> special d3"
    then have "y \<in> special d2" "dt_flags d2 ! y \<noteq> 0" by (auto simp: d3_def special_def split: option.splits if_splits)
    then show "y \<in> live d3" using sp [of y] live_flags [OF i2, of y] len r(7) i3(2) by simp
  qed
  moreover obtain a b where o: "compute_orders d3 = Some (d3\<lparr>dt_pre := a, dt_post := b\<rparr>)" "ordered (d3\<lparr>dt_pre := a, dt_post := b\<rparr>) K'"
    using compute_orders_spec [OF i3(1)] by blast
  moreover have "remove_node x d = Some (True, d3\<lparr>dt_pre := a, dt_post := b\<rparr>)"
    unfolding remove_node_def using o(1) by (simp only: v r(1,2) ret bind.bind_lunit not_True_eq_False if_False d3_def [symmetric])
  moreover have "special (d3\<lparr>dt_pre := a, dt_post := b\<rparr>) = special d3" by (simp add: special_def)
  ultimately show ?thesis using r(3,4,6) i3(1,2)
    by (intro exI [of _ "d3\<lparr>dt_pre := a, dt_post := b\<rparr>"] exI [of _ p]) (simp add: dom_ok_def flip: K'_def)
qed


lemma attach_ok:
  assumes ok: "dom_ok d K"
  shows "\<exists>d'. attach_name_tables tn an d = Some d' \<and> dom_ok d' K \<and> ordered d' K \<and> live d' = live d"
proof -
  define d1 where "d1 = d\<lparr>dt_id_index := sort_key fst (dt_id_index d), dt_tag_names := tn, dt_attr_names := an\<rparr>"
  have "dom_core d1 = dom_core d" "special d1 = special d" by (simp_all add: d1_def dom_core_def special_def)
  then have d1: "dom_inv d1 K" "live d1 = live d" "special d1 \<subseteq> live d"
    using core_inv [of d1 d K] ok by (auto simp: dom_ok_def)
  obtain a b where o: "compute_orders d1 = Some (d1\<lparr>dt_pre := a, dt_post := b\<rparr>)" "ordered (d1\<lparr>dt_pre := a, dt_post := b\<rparr>) K"
    using compute_orders_spec [OF d1(1)] by blast
  moreover have "special (d1\<lparr>dt_pre := a, dt_post := b\<rparr>) = special d1" by (simp add: special_def)
  ultimately show ?thesis using d1
    by (intro exI [of _ "d1\<lparr>dt_pre := a, dt_post := b\<rparr>"]) (simp add: attach_name_tables_def dom_ok_def flip: d1_def)
qed

section \<open>Documents that arise\<close>

inductive dom_reach :: "(string \<Rightarrow> nat) \<Rightarrow> dom_tree \<Rightarrow> bool" for hash where
  empty: "dom_reach hash dom_new"
| element: "dom_reach hash d \<Longrightarrow> p \<in> insert NIL (live d) \<Longrightarrow> open_element hash p tag as d = Some (r, d') \<Longrightarrow> dom_reach hash d'"
| chars: "dom_reach hash d \<Longrightarrow> p \<in> insert NIL (live d) \<Longrightarrow> push_text p t d = Some d' \<Longrightarrow> dom_reach hash d'"
| remove: "dom_reach hash d \<Longrightarrow> remove_node x d = Some (b, d') \<Longrightarrow> dom_reach hash d'"
| attach: "dom_reach hash d \<Longrightarrow> attach_name_tables tn an d = Some d' \<Longrightarrow> dom_reach hash d'"

lemma remove_node_invalid: "is_valid d x = Some False \<Longrightarrow> remove_node x d = Some (False, d)"
  by (simp add: remove_node_def)

lemma dom_reach_ok: "dom_reach hash d \<Longrightarrow> \<exists>K. dom_ok d K"
proof (induction rule: dom_reach.induct)
  case empty
  have "special dom_new \<subseteq> live dom_new" by (simp add: dom_new_def special_def)
  then show ?case using dom_new_inv by (auto simp: dom_ok_def)
next
  case (element d p tag as r d')
  then show ?case using open_element_ok [of d _ p hash tag as] by fastforce
next
  case (chars d p t d')
  then show ?case using push_text_ok [of d _ p t] by fastforce
next
  case (remove d x b d')
  then obtain K where ok: "dom_ok d K" by blast
  moreover obtain v where "is_valid d x = Some v" using valid_total [of d K x] ok by (auto simp: dom_ok_def)
  ultimately show ?case using remove_node_ok [OF ok, of x] remove_node_invalid [of d x] remove.hyps(2) by (cases v) fastforce+
next
  case (attach d tn an d')
  then show ?case using attach_ok [of d _ tn an] by fastforce
qed

text \<open>The relation of parent and child as a client sees it, through \<open>children\<close>.\<close>

definition child_rel :: "dom_tree \<Rightarrow> (nat \<times> nat) set" where
  "child_rel d = {(p, c). p \<in> insert NIL (live d) \<and> (\<exists>cs. dom_children d p = Some cs \<and> c \<in> set cs)}"

lemma child_rel_edges: "dom_inv d K \<Longrightarrow> child_rel d = edges K (insert NIL (live d))"
  using children_list(1) by (fastforce simp: child_rel_def edges_def)

lemma below_child_rel: "dom_inv d K \<Longrightarrow> below d K = (child_rel d)\<^sup>*"
  by (simp add: below_def child_rel_edges)

section \<open>Properties\<close>

text \<open>
  C24: In every document built and pruned in any order, with parents that are nodes of it, no operation panics
  and every loop along the links ends; each node is the child of exactly one parent, and the parent links and
  sibling links agree with the lists of children.
\<close>

theorem dom_tree_forest:
  assumes "dom_reach hash d"
  shows "(\<forall>p\<in>insert NIL (live d). \<exists>cs. dom_children d p = Some cs \<and> distinct cs \<and> set cs \<subseteq> live d \<and>
      dom_last_child d p = Some (last (NIL # cs)) \<and> (\<forall>c\<in>set cs. get_at (dt_parents d) c = Some p)) \<and>
    (\<forall>c\<in>live d. \<exists>!p. (p, c) \<in> child_rel d) \<and> acyclic (child_rel d) \<and>
    (\<forall>p\<in>insert NIL (live d). open_element hash p tag as d \<noteq> None \<and> push_text p t d \<noteq> None) \<and>
    remove_node x d \<noteq> None \<and> attach_name_tables tn an d \<noteq> None"
proof -
  obtain K where ok: "dom_ok d K" using dom_reach_ok [OF assms] by blast
  then have inv: "dom_inv d K" by (simp add: dom_ok_def)
  note D = dom_invD [OF inv]
  note f = dom_kid_forest [OF inv]
  have kids: "\<exists>cs. dom_children d p = Some cs \<and> distinct cs \<and> set cs \<subseteq> live d \<and>
      dom_last_child d p = Some (last (NIL # cs)) \<and> (\<forall>c\<in>set cs. get_at (dt_parents d) c = Some p)"
    if p: "p \<in> insert NIL (live d)" for p
  proof -
    have k: "kids_ok (links_of d) p (K p)" using D(4) p by (rule forestD)
    have "dom_last_child d p = Some (lk_last (links_of d) p)"
      using tail_reads [OF D(1), of p] p live_less by (auto simp: dom_last_child_def)
    moreover have "get_at (dt_parents d) c = Some p" if c: "c \<in> set (K p)" for c
      using node_reads(1) [OF D(1), of c] forest_parent [OF D(4) p c] D(5) [OF p] c live_less by auto
    ultimately show ?thesis using children_list(1) [OF inv p] k D(5) [OF p] by (simp add: kids_ok_def)
  qed
  have one: "\<exists>!p. (p, c) \<in> child_rel d" if c: "c \<in> live d" for c
  proof -
    obtain p where "p \<in> insert NIL (live d)" "c \<in> set (K p)" using D(6) [OF c] by blast
    then have "(p, c) \<in> child_rel d" by (simp add: child_rel_edges [OF inv] edges_def)
    then show ?thesis using one_parent [OF f] by (intro ex1I [of _ p]) (simp_all add: child_rel_edges [OF inv])
  qed
  have opens: "open_element hash p tag as d \<noteq> None \<and> push_text p t d \<noteq> None" if "p \<in> insert NIL (live d)" for p
    using open_element_ok [OF ok that, of hash tag as] push_text_ok [OF ok that, of t] by fastforce
  obtain v where "is_valid d x = Some v" using valid_total [OF inv] by blast
  then have rem: "remove_node x d \<noteq> None"
    using remove_node_ok [OF ok, of x] remove_node_invalid [of d x] by (cases v) auto
  have att: "attach_name_tables tn an d \<noteq> None" using attach_ok [OF ok, of tn an] by auto
  have "acyclic (child_rel d)" using f by (simp add: child_rel_edges [OF inv] kid_forest_def)
  then show ?thesis using rem att by (intro conjI ballI kids one opens [THEN conjunct1] opens [THEN conjunct2])
qed


text \<open>
  C25: Removing a valid node takes away exactly the node and everything below it. The lists of children that
  remain lose the node and nothing else, the special nodes that survive are live, and an identifier that is
  not valid, because its slot was freed or reused, changes nothing.
\<close>

theorem remove_node_subtree:
  assumes "dom_reach hash d"
  shows "case is_valid d x of
      None \<Rightarrow> False
    | Some False \<Rightarrow> remove_node x d = Some (False, d)
    | Some True \<Rightarrow> \<exists>d'. remove_node x d = Some (True, d') \<and>
        live d' = live d - {y. (ni_index x, y) \<in> (child_rel d)\<^sup>*} \<and> special d' \<subseteq> live d' \<and>
        (\<forall>q\<in>insert NIL (live d'). dom_children d' q = map_option (remove1 (ni_index x)) (dom_children d q))"
proof -
  obtain K where ok: "dom_ok d K" using dom_reach_ok [OF assms] by blast
  then have inv: "dom_inv d K" by (simp add: dom_ok_def)
  obtain v where v: "is_valid d x = Some v" using valid_total [OF inv] by blast
  show ?thesis
  proof (cases v)
    case False
    then show ?thesis using v remove_node_invalid by simp
  next
    case True
    then have "is_valid d x = Some True" using v by simp
    from remove_node_ok [OF ok this] obtain d' p where r: "remove_node x d = Some (True, d')" "p \<in> insert NIL (live d)"
      "ni_index x \<in> set (K p)" "dom_ok d' (K(p := remove1 (ni_index x) (K p)))"
      "live d' = live d - {y. (ni_index x, y) \<in> below d K}" by blast
    have inv': "dom_inv d' (K(p := remove1 (ni_index x) (K p)))" "special d' \<subseteq> live d'" using r(4) by (simp_all add: dom_ok_def)
    have "dom_children d' q = map_option (remove1 (ni_index x)) (dom_children d q)" if q: "q \<in> insert NIL (live d')" for q
    proof -
      have q0: "q \<in> insert NIL (live d)" using q r(5) by auto
      have "ni_index x \<notin> set (K q)" if "q \<noteq> p"
        using forest_disjoint [OF dom_invD(4) [OF inv] r(2) q0 r(3)] that by blast
      then have "(K(p := remove1 (ni_index x) (K p))) q = remove1 (ni_index x) (K q)" by (simp add: remove1_idem)
      then show ?thesis using children_list(1) [OF inv' (1) q] children_list(1) [OF inv q0] by simp
    qed
    then show ?thesis using v True r(1,5) inv'(2) below_child_rel [OF inv] by simp
  qed
qed

text \<open>
  C26: Once the numbering is made, at the end of parsing or after a removal, \<open>is_descendant\<close> answers every
  question about two nodes of the document by its two comparisons exactly as the parent and child relation does.
\<close>

theorem is_descendant_exact:
  assumes "dom_reach hash d0" and "attach_name_tables tn an d0 = Some d \<or> remove_node y d0 = Some (True, d)"
    and "x \<in> live d" and "r \<in> live d"
  shows "is_descendant d x r = Some ((r, x) \<in> (child_rel d)\<^sup>*)"
proof -
  obtain K where ok: "dom_ok d0 K" using dom_reach_ok [OF assms(1)] by blast
  obtain K' where d: "dom_inv d K'" "ordered d K'"
  proof (cases "attach_name_tables tn an d0 = Some d")
    case True
    then show ?thesis using attach_ok [OF ok, of tn an] that by (auto simp: dom_ok_def)
  next
    case False
    then have rem: "remove_node y d0 = Some (True, d)" using assms(2) by simp
    obtain v where v: "is_valid d0 y = Some v" using valid_total [of d0 K y] ok by (auto simp: dom_ok_def)
    have v
    proof (rule ccontr)
      assume "\<not> v"
      then show False using remove_node_invalid [of d0 y] v rem by simp
    qed
    then have "is_valid d0 y = Some True" using v by simp
    from remove_node_ok [OF ok this] obtain d' p where "remove_node y d0 = Some (True, d')"
      "dom_ok d' (K(p := remove1 (ni_index y) (K p)))" "ordered d' (K(p := remove1 (ni_index y) (K p)))" by blast
    then show ?thesis using rem that by (auto simp: dom_ok_def)
  qed
  show ?thesis using is_descendant_spec [OF d assms(3,4)] below_child_rel [OF d(1)] by simp
qed

lemma one_element: "\<exists>d. open_element (\<lambda>_. 0) NIL 29 [] dom_new = Some (Some 0, d)"
  by (simp add: open_element_def push_slot_def dom_alloc_slot_def dom_new_def MAX_NODES_def grow_slot_def reset_slot_def
      link_child_def dom_tail_def dom_set_head_def dom_set_tail_def note_special_def INPUT_TAGS_def TAG_SCRIPT_def
      TAG_FORM_def TAG_TITLE_def TAG_META_def)

lemma one_element_doc:
  obtains d where "dom_reach (\<lambda>_. 0) d" "live d = {0}"
proof -
  have ok: "dom_ok dom_new (\<lambda>_. [])" "live dom_new = {}"
    using dom_new_inv by (simp_all add: dom_ok_def special_def dom_new_def live_def dom_size_def)
  obtain d where d: "open_element (\<lambda>_. 0) NIL 29 [] dom_new = Some (Some 0, d)" using one_element by blast
  then have "live d = {0}" using open_element_ok [OF ok(1), of NIL "\<lambda>_. 0" 29 "[]"] by (auto simp: ok(2))
  moreover have "dom_reach (\<lambda>_. 0) d" using dom_reach.element [OF dom_reach.empty _ d] by simp
  ultimately show ?thesis using that by blast
qed

theorem dom_tree_forest_witness:
  "\<exists>d. live d = {0} \<and> (\<exists>!p. (p, 0) \<in> child_rel d) \<and> acyclic (child_rel d) \<and> push_text 0 ''hi'' d \<noteq> None"
proof -
  obtain d where d: "dom_reach (\<lambda>_. 0) d" "live d = {0}" by (rule one_element_doc)
  then show ?thesis using dom_tree_forest [OF d(1), where t = "''hi''"] by (intro exI [of _ d]) auto
qed

theorem remove_node_subtree_witness:
  "\<exists>d d' g. live d = {0} \<and> remove_node \<lparr>ni_index = 0, ni_generation = g\<rparr> d = Some (True, d') \<and> live d' = {}"
proof -
  obtain d where d: "dom_reach (\<lambda>_. 0) d" "live d = {0}" by (rule one_element_doc)
  obtain K where "dom_inv d K" using dom_reach_ok [OF d(1)] by (auto simp: dom_ok_def)
  then have "is_valid d \<lparr>ni_index = 0, ni_generation = dt_gens d ! 0\<rparr> = Some True"
    using dom_invD(7) [of d K 0] dims_lengths(7,8) [OF dom_invD(1), of d K] live_less [of 0 d] d(2)
    by (simp add: is_valid_def dom_size_def)
  then obtain d' where "remove_node \<lparr>ni_index = 0, ni_generation = dt_gens d ! 0\<rparr> d = Some (True, d')" "live d' = {}"
    using remove_node_subtree [OF d(1), of "\<lparr>ni_index = 0, ni_generation = dt_gens d ! 0\<rparr>"] d(2) by auto
  then show ?thesis using d(2) by blast
qed

theorem is_descendant_exact_witness: "\<exists>d. live d = {0} \<and> is_descendant d 0 0 = Some True"
proof -
  obtain d where d: "dom_reach (\<lambda>_. 0) d" "live d = {0}" by (rule one_element_doc)
  obtain K where "dom_ok d K" using dom_reach_ok [OF d(1)] by blast
  then obtain d' where "attach_name_tables [] [] d = Some d'" "live d' = {0}" using attach_ok [of d K "[]" "[]"] d(2) by auto
  then show ?thesis using is_descendant_exact [OF d(1), of "[]" "[]" d' _ 0 0] by auto
qed

end
