(* ===== verification/Page_Builder.thy ===== *)
theory Page_Builder
  imports Page_Dom
begin

text \<open>
  From the events of the tokenizer to the document: the interners that number unknown tag and attribute names,
  the stack of open elements and the document part of the collector, \<open>crates/parser-pipeline/src/dom.rs\<close> and
  \<open>collector.rs\<close>. The tokenizer itself is third-party code; its events are arbitrary.
\<close>

section \<open>Names\<close>

definition TAGS :: "(string \<times> nat) list" where
  "TAGS =
     [(''a'', 1), (''abbr'', 2), (''address'', 3), (''area'', 4), (''article'', 5), (''aside'', 6),
      (''audio'', 7), (''b'', 8), (''base'', 9), (''bdi'', 10), (''bdo'', 11), (''blockquote'', 12),
      (''body'', 13), (''br'', 14), (''button'', 15), (''canvas'', 16), (''caption'', 17),
      (''cite'', 18), (''code'', 19), (''col'', 20), (''colgroup'', 21), (''data'', 22),
      (''datalist'', 23), (''dd'', 24), (''del'', 25), (''details'', 26), (''dfn'', 27),
      (''dialog'', 28), (''div'', 29), (''dl'', 30), (''dt'', 31), (''em'', 32), (''embed'', 33),
      (''fieldset'', 34), (''figcaption'', 35), (''figure'', 36), (''footer'', 37), (''form'', 38),
      (''h1'', 39), (''h2'', 40), (''h3'', 41), (''h4'', 42), (''h5'', 43), (''h6'', 44),
      (''head'', 45), (''header'', 46), (''hgroup'', 47), (''hr'', 48), (''html'', 49), (''i'', 50),
      (''iframe'', 51), (''img'', 52), (''input'', 53), (''ins'', 54), (''kbd'', 55), (''label'', 56),
      (''legend'', 57), (''li'', 58), (''link'', 59), (''main'', 60), (''map'', 61), (''mark'', 62),
      (''menu'', 63), (''meta'', 64), (''meter'', 65), (''nav'', 66), (''noscript'', 67),
      (''object'', 68), (''ol'', 69), (''optgroup'', 70), (''option'', 71), (''output'', 72),
      (''p'', 73), (''param'', 74), (''picture'', 75), (''pre'', 76), (''progress'', 77), (''q'', 78),
      (''rp'', 79), (''rt'', 80), (''ruby'', 81), (''s'', 82), (''samp'', 83), (''script'', 84),
      (''search'', 85), (''section'', 86), (''select'', 87), (''slot'', 88), (''small'', 89),
      (''source'', 90), (''span'', 91), (''strong'', 92), (''style'', 93), (''sub'', 94),
      (''summary'', 95), (''sup'', 96), (''table'', 97), (''tbody'', 98), (''td'', 99),
      (''template'', 100), (''textarea'', 101), (''tfoot'', 102), (''th'', 103), (''thead'', 104),
      (''time'', 105), (''title'', 106), (''tr'', 108), (''track'', 107), (''u'', 109), (''ul'', 110),
      (''var'', 111), (''video'', 112), (''wbr'', 113)]"

definition ATTR_NAMES :: "(string \<times> nat) list" where
  "ATTR_NAMES =
     [(''accept'', 1), (''action'', 2), (''alt'', 3), (''async'', 4), (''charset'', 5),
      (''checked'', 6), (''class'', 7), (''cols'', 8), (''content'', 9), (''defer'', 10), (''dir'', 11),
      (''disabled'', 12), (''for'', 13), (''headers'', 14), (''height'', 15), (''href'', 16),
      (''id'', 17), (''lang'', 18), (''loading'', 19), (''max'', 20), (''maxlength'', 21),
      (''media'', 22), (''method'', 23), (''min'', 24), (''multiple'', 25), (''name'', 26),
      (''pattern'', 27), (''placeholder'', 28), (''property'', 29), (''rel'', 30), (''required'', 31),
      (''rows'', 32), (''sandbox'', 33), (''scope'', 34), (''selected'', 35), (''shape'', 36),
      (''size'', 37), (''sizes'', 38), (''span'', 39), (''src'', 40), (''srcdoc'', 41),
      (''srclang'', 42), (''srcset'', 43), (''start'', 44), (''step'', 45), (''style'', 46),
      (''tabindex'', 47), (''target'', 48), (''title'', 49), (''type'', 50), (''usemap'', 51),
      (''value'', 52), (''width'', 53), (''wrap'', 54), (''role'', 55), (''aria-hidden'', 56),
      (''aria-label'', 57), (''crossorigin'', 58), (''integrity'', 59), (''referrerpolicy'', 60),
      (''nomodule'', 61), (''kind'', 62), (''label'', 63), (''open'', 64), (''datetime'', 65),
      (''download'', 66), (''hidden'', 67)]"

definition DYNAMIC_TAG_BASE :: nat where "DYNAMIC_TAG_BASE = 200"
definition DYNAMIC_ATTR_BASE :: nat where "DYNAMIC_ATTR_BASE = 100"
definition ATTR_UNKNOWN :: nat where "ATTR_UNKNOWN = 65535"
definition TAG_CAP :: nat where "TAG_CAP = 500"
definition ATTR_CAP :: nat where "ATTR_CAP = 200"

definition invert :: "(string \<times> nat) list \<Rightarrow> nat \<Rightarrow> string option list" where
  "invert table cap = fold (\<lambda>(name, i) v. v[i := Some name]) table (replicate cap None)"

definition static_tag_name :: "nat \<Rightarrow> string option" where
  "static_tag_name tag = (if tag = TAG_UNKNOWN \<or> DYNAMIC_TAG_BASE \<le> tag then None else invert TAGS DYNAMIC_TAG_BASE ! tag)"

definition static_attr_name :: "nat \<Rightarrow> string option" where
  "static_attr_name i = (if i = ATTR_UNKNOWN \<or> DYNAMIC_ATTR_BASE \<le> i then None else invert ATTR_NAMES DYNAMIC_ATTR_BASE ! i)"

definition push_name :: "(string \<times> nat) list \<Rightarrow> nat \<Rightarrow> string \<Rightarrow> nat \<times> string option" where
  "push_name table unknown name =
     (case map_of table name of Some i \<Rightarrow> (i, None) | None \<Rightarrow> (unknown, Some name))"

text \<open>The map of an interner as the list of its entries, in the order of insertion.\<close>

record interner =
  in_dynamic :: "(string \<times> nat) list"
  in_next :: nat

definition interner_new :: "nat \<Rightarrow> interner" where
  "interner_new base = \<lparr>in_dynamic = [], in_next = base\<rparr>"

definition intern :: "nat \<Rightarrow> nat \<Rightarrow> nat \<Rightarrow> string \<Rightarrow> interner \<Rightarrow> nat \<times> interner" where
  "intern base cap unknown name t =
     (case map_of (in_dynamic t) name of
        Some i \<Rightarrow> (i, t)
      | None \<Rightarrow>
          if in_next t < base + cap
          then (in_next t, \<lparr>in_dynamic = in_dynamic t @ [(name, in_next t)], in_next = in_next t + 1\<rparr>)
          else (unknown, t))"

text \<open>The entries come out of the map in any order.\<close>

definition name_table :: "(string \<times> nat) list \<Rightarrow> string list" where
  "name_table entries = map snd (sort_key fst (map (\<lambda>(k, i). (i, k)) entries))"

definition resolve_name ::
  "nat \<Rightarrow> nat \<Rightarrow> nat \<Rightarrow> nat \<Rightarrow> string option \<Rightarrow> interner \<Rightarrow> nat option \<times> interner" where
  "resolve_name base cap unknown i dyn t =
     (if i \<noteq> unknown then (Some i, t)
      else case dyn of None \<Rightarrow> (None, t) | Some name \<Rightarrow> (case intern base cap unknown name t of (i, t) \<Rightarrow> (Some i, t)))"

definition tag_name :: "dom_tree \<Rightarrow> nat \<Rightarrow> string option" where
  "tag_name d tag =
     (case static_tag_name tag of
        Some n \<Rightarrow> Some n
      | None \<Rightarrow>
          let j = (tag + 65536 - DYNAMIC_TAG_BASE) mod 65536
          in if j < length (dt_tag_names d) then Some (dt_tag_names d ! j) else None)"

definition reverse_attr_name :: "nat \<Rightarrow> string list \<Rightarrow> string option" where
  "reverse_attr_name name dynamic =
     (if DYNAMIC_ATTR_BASE \<le> name
      then if name = ATTR_UNKNOWN then None
           else if name - DYNAMIC_ATTR_BASE < length dynamic then Some (dynamic ! (name - DYNAMIC_ATTR_BASE)) else None
      else invert ATTR_NAMES DYNAMIC_ATTR_BASE ! name)"

text \<open>The attributes with a known name, in the order of the page.\<close>

definition attrs_of :: "dom_tree \<Rightarrow> nat \<Rightarrow> (string \<times> string) list option" where
  "attrs_of d i = do {
     start \<leftarrow> get_at (dt_attr_start d) i;
     cnt \<leftarrow> get_at (dt_attr_count d) i;
     if length (dt_attrs d) < start + cnt then None
     else Some (List.map_filter
       (\<lambda>a. map_option (\<lambda>n. (n, take (snd (at_value a)) (drop (fst (at_value a)) (dt_pool d))))
          (reverse_attr_name (at_name a) (dt_attr_names d)))
       (take cnt (drop start (dt_attrs d))))
   }"

definition script_attr :: "dom_tree \<Rightarrow> nat \<Rightarrow> string \<Rightarrow> string option option" where
  "script_attr d i name =
     (if length (dt_scripts d) \<le> i then Some None
      else case map_of ATTR_NAMES name of None \<Rightarrow> Some None | Some name_id \<Rightarrow> dom_attr d (dt_scripts d ! i) name_id)"

definition last_script_node :: "dom_tree \<Rightarrow> nat option" where
  "last_script_node d = (if dt_scripts d = [] then None else Some (last (dt_scripts d)))"

definition node_id_of :: "dom_tree \<Rightarrow> nat \<Rightarrow> node_id option" where
  "node_id_of d i = map_option (\<lambda>g. \<lparr>ni_index = i, ni_generation = g\<rparr>) (get_at (dt_gens d) i)"

section \<open>The stack of open elements\<close>

type_synonym open_stack = "(nat \<times> bool) list"

text \<open>The top of the stack is the head of the list.\<close>

definition open_push :: "nat \<Rightarrow> bool \<Rightarrow> open_stack \<Rightarrow> open_stack" where
  "open_push node m st = (if length st < 512 then (node, m) # st else st)"

fun find_open :: "dom_tree \<Rightarrow> nat \<Rightarrow> open_stack \<Rightarrow> nat \<Rightarrow> nat option option" where
  "find_open d tag [] k = Some None"
| "find_open d tag ((node, m) # st) k =
     (case get_at (dt_tags d) node of None \<Rightarrow> None
      | Some t \<Rightarrow> if t = tag then Some (Some k) else find_open d tag st (k + 1))"

definition open_close :: "dom_tree \<Rightarrow> nat \<Rightarrow> open_stack \<Rightarrow> open_stack option" where
  "open_close d tag st =
     map_option (\<lambda>r. case r of None \<Rightarrow> st | Some k \<Rightarrow> drop (k + 1) st) (find_open d tag st 0)"

definition sibling_closes :: "nat \<Rightarrow> nat \<Rightarrow> bool" where
  "sibling_closes opening tp \<longleftrightarrow>
     opening = 73 \<and> tp = 73 \<or> opening = 58 \<and> tp = 58 \<or>
     opening \<in> {31, 24} \<and> tp \<in> {31, 24} \<or> opening \<in> {103, 99} \<and> tp \<in> {103, 99} \<or>
     opening = 108 \<and> tp \<in> {99, 103, 108} \<or>
     opening \<in> {104, 98, 102} \<and> tp \<in> {104, 98, 102, 99, 103, 108} \<or>
     opening = 71 \<and> tp = 71"

fun imply_close :: "dom_tree \<Rightarrow> nat \<Rightarrow> open_stack \<Rightarrow> open_stack option" where
  "imply_close d opening [] = Some []"
| "imply_close d opening ((node, m) # st) =
     (case get_at (dt_tags d) node of None \<Rightarrow> None
      | Some t \<Rightarrow> if sibling_closes opening t then imply_close d opening st else Some ((node, m) # st))"

definition is_void_tag :: "nat \<Rightarrow> bool" where
  "is_void_tag tag \<longleftrightarrow> tag \<in> {4, 9, 14, 20, 33, 48, 52, 53, 59, 64, 74, 90, 107, 113}"

definition is_target_tag :: "nat \<Rightarrow> bool" where
  "is_target_tag t \<longleftrightarrow> t \<in> {49, 45, 13, 106, 84, 93, 59, 64, 67, 38, 53, 87, 71, 101, 15, 56, 1, 51, 100}"

section \<open>Building the document\<close>

datatype page_event =
    DomOpen nat "string option" "(nat \<times> string option \<times> string) list"
  | DomText string
  | DomClose nat "string option"

record builder =
  pb_dom :: dom_tree
  pb_open :: open_stack
  pb_skip :: "bool list"
  pb_tags :: interner
  pb_attrs :: interner

definition builder_new :: builder where
  "builder_new = \<lparr>pb_dom = dom_new, pb_open = [], pb_skip = [], pb_tags = interner_new DYNAMIC_TAG_BASE,
     pb_attrs = interner_new DYNAMIC_ATTR_BASE\<rparr>"

definition ATTR_CLASS :: nat where "ATTR_CLASS = 7"

text \<open>The loop over the attributes: whether the element is kept, whether it has an id or a class, and its attributes.\<close>

fun scan_attrs :: "(nat \<times> string option \<times> string) list \<Rightarrow> bool \<Rightarrow> bool \<Rightarrow> (nat \<times> string) list \<Rightarrow> interner \<Rightarrow>
    bool \<times> bool \<times> (nat \<times> string) list \<times> interner" where
  "scan_attrs [] marker idc refs t = (marker, idc, refs, t)"
| "scan_attrs ((name, dyn, v) # as) marker idc refs t =
     (case resolve_name DYNAMIC_ATTR_BASE ATTR_CAP ATTR_UNKNOWN name dyn t of (r, t) \<Rightarrow>
        let name_id = (case r of Some i \<Rightarrow> i | None \<Rightarrow> ATTR_UNKNOWN);
            hit = (name_id = ATTR_ID \<or> name_id = ATTR_CLASS);
            data = (\<not> marker \<and> (case dyn of Some n \<Rightarrow> prefix ''data-'' n | None \<Rightarrow> False))
        in scan_attrs as (marker \<or> hit \<or> data) (idc \<or> hit) (refs @ [(name_id, v)]) t)"

definition apply_open ::
  "(string \<Rightarrow> nat) \<Rightarrow> nat \<Rightarrow> string option \<Rightarrow> (nat \<times> string option \<times> string) list \<Rightarrow> builder \<Rightarrow> builder option" where
  "apply_open hash tag dyn as b =
     (case resolve_name DYNAMIC_TAG_BASE TAG_CAP TAG_UNKNOWN tag dyn (pb_tags b) of (r, tt) \<Rightarrow>
        let tag_id = (case r of Some i \<Rightarrow> i | None \<Rightarrow> TAG_UNKNOWN); void = is_void_tag tag_id
        in case scan_attrs as (is_target_tag tag_id) False [] (pb_attrs b) of (marker, idc, refs, at) \<Rightarrow>
          let b = b\<lparr>pb_tags := tt, pb_attrs := at\<rparr>
          in if \<not> marker then Some (if void then b else b\<lparr>pb_skip := True # pb_skip b\<rparr>)
             else do {
               st \<leftarrow> imply_close (pb_dom b) tag_id (pb_open b);
               let parent = (case st of [] \<Rightarrow> NIL | (n, _) # _ \<Rightarrow> n);
               (node, d) \<leftarrow> open_element hash parent tag_id refs (pb_dom b);
               let st = (case node of Some n \<Rightarrow> if void then st else open_push n idc st | None \<Rightarrow> st);
               Some (b\<lparr>pb_dom := d, pb_open := st, pb_skip := (if void then pb_skip b else False # pb_skip b)\<rparr>)
             })"

definition apply_text :: "string \<Rightarrow> builder \<Rightarrow> builder option" where
  "apply_text s b =
     (case pb_open b of
        [] \<Rightarrow> Some b
      | (tp, idc) # _ \<Rightarrow>
          (case get_at (dt_tags (pb_dom b)) tp of
             None \<Rightarrow> None
           | Some t \<Rightarrow>
               if t = TAG_SCRIPT then Some b
               else if t \<in> {93, 15, 56, 1} then map_option (\<lambda>d. b\<lparr>pb_dom := d\<rparr>) (push_text tp s (pb_dom b))
               else if idc then map_option (\<lambda>d. b\<lparr>pb_dom := d\<rparr>) (push_text tp (truncate_str s 128) (pb_dom b))
               else Some b))"

definition apply_close :: "nat \<Rightarrow> string option \<Rightarrow> builder \<Rightarrow> builder option" where
  "apply_close tag dyn b =
     (case resolve_name DYNAMIC_TAG_BASE TAG_CAP TAG_UNKNOWN tag dyn (pb_tags b) of
        (None, tt) \<Rightarrow> Some (b\<lparr>pb_tags := tt\<rparr>)
      | (Some tag_id, tt) \<Rightarrow>
          let b = b\<lparr>pb_tags := tt\<rparr>; skipped = (case pb_skip b of s # _ \<Rightarrow> s | [] \<Rightarrow> False); b = b\<lparr>pb_skip := tl (pb_skip b)\<rparr>
          in if skipped then Some b
             else map_option (\<lambda>st. b\<lparr>pb_open := st\<rparr>) (open_close (pb_dom b) tag_id (pb_open b)))"

fun apply_event :: "(string \<Rightarrow> nat) \<Rightarrow> page_event \<Rightarrow> builder \<Rightarrow> builder option" where
  "apply_event hash (DomOpen tag dyn as) b = apply_open hash tag dyn as b"
| "apply_event hash (DomText s) b = apply_text s b"
| "apply_event hash (DomClose tag dyn) b = apply_close tag dyn b"

fun build :: "(string \<Rightarrow> nat) \<Rightarrow> page_event list \<Rightarrow> builder \<Rightarrow> builder option" where
  "build hash [] b = Some b"
| "build hash (e # es) b = Option.bind (apply_event hash e b) (build hash es)"

definition into_page :: "builder \<Rightarrow> dom_tree option" where
  "into_page b = attach_name_tables (name_table (in_dynamic (pb_tags b))) (name_table (in_dynamic (pb_attrs b))) (pb_dom b)"


section \<open>Building is safe\<close>












section \<open>Names come back\<close>

lemma invert_fold:
  "distinct (map snd table) \<Longrightarrow> (n, i) \<in> set table \<Longrightarrow> i < length v \<Longrightarrow>
   fold (\<lambda>(name, i) v. v[i := Some name]) table v ! i = Some n"
proof (induction table rule: rev_induct)
  case (snoc x xs)
  have len: "length (fold (\<lambda>(name, i) v. v[i := Some name]) ys v) = length v" for ys :: "('a \<times> nat) list"
    by (induction ys arbitrary: v) (auto split: prod.split)
  obtain a b where x: "x = (a, b)" by fastforce
  have d: "distinct (map snd xs)" "b \<notin> snd ` set xs" using snoc.prems(1) by (simp_all add: x)
  show ?case
  proof (cases "(n, i) \<in> set xs")
    case True
    then have "b \<noteq> i" using d(2) by force
    then show ?thesis using snoc.IH [OF d(1) True snoc.prems(3)] by (simp add: x)
  next
    case False
    then show ?thesis using snoc.prems(2,3) len [of xs] by (simp add: x)
  qed
qed simp

lemma invert_inverts:
  "distinct (map snd table) \<Longrightarrow> map_of table n = Some i \<Longrightarrow> i < cap \<Longrightarrow> invert table cap ! i = Some n"
  unfolding invert_def by (rule invert_fold) (auto dest: map_of_SomeD)

lemma TAGS_ids: "distinct (map snd TAGS)" "\<forall>i \<in> snd ` set TAGS. i < 200"
  by (simp_all add: TAGS_def)

lemma static_tag: "map_of TAGS n = Some i \<Longrightarrow> i < 200 \<and> i \<noteq> TAG_UNKNOWN \<and> static_tag_name i = Some n"
  using TAGS_ids(2) invert_inverts [OF TAGS_ids(1), of n i 200] map_of_SomeD [of TAGS n i]
  by (force simp: static_tag_name_def DYNAMIC_TAG_BASE_def TAG_UNKNOWN_def)

text \<open>The invariant of an interner: its names are distinct and numbered from the base in order of insertion.\<close>

definition interner_ok :: "nat \<Rightarrow> nat \<Rightarrow> interner \<Rightarrow> bool" where
  "interner_ok base cap t \<longleftrightarrow> map snd (in_dynamic t) = [base..<in_next t] \<and> distinct (map fst (in_dynamic t)) \<and>
     base \<le> in_next t \<and> in_next t \<le> base + cap"

lemma interner_new_ok: "interner_ok base cap (interner_new base)"
  by (simp add: interner_ok_def interner_new_def)

lemma intern_ok: "interner_ok base cap t \<Longrightarrow> intern base cap u n t = (i, t') \<Longrightarrow> interner_ok base cap t'"
  by (auto simp: interner_ok_def intern_def map_of_eq_None_iff split: option.splits if_splits)

lemma resolve_ok: "interner_ok base cap t \<Longrightarrow> resolve_name base cap u i dyn t = (r, t') \<Longrightarrow> interner_ok base cap t'"
  by (auto simp: resolve_name_def intern_ok split: if_splits option.splits prod.splits)

lemma name_table_entries:
  assumes ok: "interner_ok base cap t" and es: "mset es = mset (in_dynamic t)"
  shows "name_table es = map fst (in_dynamic t)"
proof -
  define sw where "sw = (\<lambda>(k :: string, i :: nat). (i, k))"
  have sw: "fst (sw x) = snd x" "snd (sw x) = fst x" for x by (simp_all add: sw_def split_def)
  let ?xs = "sort_key fst (map sw es)" and ?ys = "map sw (in_dynamic t)"
  have m: "mset ?xs = mset ?ys" using es by simp
  have keys: "map fst ?ys = [base..<in_next t]" using ok by (simp add: interner_ok_def comp_def sw cong: map_cong)
  have d: "distinct (map fst ?xs)"
    using m keys by (metis distinct_upt mset_eq_imp_distinct_iff mset_map)
  have "?xs = ?ys"
  proof (rule map_sorted_distinct_set_unique [where f = fst])
    show "set ?xs = set ?ys" using m by (rule mset_eq_setD)
    then show "inj_on fst (set ?xs \<union> set ?ys)" using d by (simp add: distinct_map del: set_sort)
    show "sorted (map fst ?xs)" by (rule sorted_sort_key)
    show "sorted (map fst ?ys)" "distinct (map fst ?ys)" unfolding keys by simp_all
  qed (fact d)
  then show ?thesis by (simp add: name_table_def sw comp_def flip: sw_def)
qed

definition names_ok :: "builder \<Rightarrow> bool" where
  "names_ok b \<longleftrightarrow> interner_ok DYNAMIC_TAG_BASE TAG_CAP (pb_tags b)"

lemma apply_event_names: "names_ok b \<Longrightarrow> apply_event hash e b = Some b' \<Longrightarrow> names_ok b'"
  by (cases e)
    (auto simp: names_ok_def apply_open_def apply_text_def apply_close_def Let_def intro: resolve_ok
      split: prod.splits option.splits if_splits list.splits Option.bind_splits)

lemma build_names: "names_ok b \<Longrightarrow> build hash es b = Some b' \<Longrightarrow> names_ok b'"
  by (induction es arbitrary: b) (auto split: Option.bind_splits dest: apply_event_names)

lemma compute_orders_tables: "compute_orders d = Some d' \<Longrightarrow> dt_tag_names d' = dt_tag_names d"
  by (auto simp: compute_orders_def Let_def split: Option.bind_splits prod.splits)

text \<open>
  C30: a tag name survives the numbering. Whatever name an element of the page has, written out or already looked up
  in the static table by the tokenizer's thread, if it resolves to an id that the page already knows, then the page
  gives that very name back for that id; the entries of the map of names may come out of it in any order.
\<close>

theorem names_roundtrip:
  assumes b: "build hash es builder_new = Some b"
    and page: "mset entries = mset (in_dynamic (pb_tags b))"
      "attach_name_tables (name_table entries) attrs (pb_dom b) = Some d"
    and i: "push_name TAGS TAG_UNKNOWN name = (tag, dyn)"
      "resolve_name DYNAMIC_TAG_BASE TAG_CAP TAG_UNKNOWN tag dyn (pb_tags b) = (Some i, pb_tags b)" "i \<noteq> TAG_UNKNOWN"
  shows "tag_name d i = Some name"
proof (cases "map_of TAGS name")
  case (Some j)
  then show ?thesis using static_tag [OF Some] i by (auto simp: push_name_def resolve_name_def tag_name_def)
next
  case None
  have "names_ok builder_new" by (simp add: names_ok_def builder_new_def interner_new_ok)
  then have ok: "interner_ok DYNAMIC_TAG_BASE TAG_CAP (pb_tags b)" using build_names b by (auto simp: names_ok_def)
  define t where "t = pb_tags b"
  have tn: "dt_tag_names d = map fst (in_dynamic t)"
    using compute_orders_tables page(2) name_table_entries [OF ok page(1)] by (fastforce simp: attach_name_tables_def t_def)
  have "map_of (in_dynamic t) name = Some i"
    using i None by (auto simp: push_name_def resolve_name_def intern_def t_def interner.splits split: option.splits if_splits dest!: arg_cong [where f = in_next])
  then have mem: "(name, i) \<in> set (in_dynamic t)" by (rule map_of_SomeD)
  then obtain k where k: "k < length (in_dynamic t)" "in_dynamic t ! k = (name, i)" by (auto simp: in_set_conv_nth)
  have s: "map snd (in_dynamic t) = [200..<in_next t]" "in_next t \<le> 700"
    using ok by (simp_all add: interner_ok_def t_def DYNAMIC_TAG_BASE_def TAG_CAP_def)
  then have len: "length (in_dynamic t) = in_next t - 200" by (metis length_map length_upt)
  have "snd (in_dynamic t ! k) = [200..<in_next t] ! k" using k(1) s(1) by (metis nth_map)
  then have "i = 200 + k" using k len by simp
  moreover have "k < 500" using k(1) len s(2) by simp
  ultimately show ?thesis using k tn
    by (simp add: tag_name_def static_tag_name_def DYNAMIC_TAG_BASE_def)
qed

lemma resolve_custom:
  "resolve_name DYNAMIC_TAG_BASE TAG_CAP TAG_UNKNOWN TAG_UNKNOWN (Some n) (interner_new DYNAMIC_TAG_BASE) =
     (Some 200, \<lparr>in_dynamic = [(n, 200)], in_next = 201\<rparr>)"
  "resolve_name DYNAMIC_TAG_BASE TAG_CAP TAG_UNKNOWN TAG_UNKNOWN (Some n) \<lparr>in_dynamic = [(n, 200)], in_next = 201\<rparr> =
     (Some 200, \<lparr>in_dynamic = [(n, 200)], in_next = 201\<rparr>)"
  by (simp_all add: resolve_name_def intern_def interner_new_def DYNAMIC_TAG_BASE_def TAG_CAP_def)

lemma one_custom_tag:
  "build hash [DomOpen TAG_UNKNOWN (Some n) [], DomClose TAG_UNKNOWN (Some n)] builder_new =
     Some (builder_new\<lparr>pb_tags := \<lparr>in_dynamic = [(n, 200)], in_next = 201\<rparr>\<rparr>)"
proof -
  have "\<not> is_target_tag 200" "\<not> is_void_tag 200" by (simp_all add: is_target_tag_def is_void_tag_def)
  then have "apply_open hash TAG_UNKNOWN (Some n) [] builder_new =
      Some (builder_new\<lparr>pb_tags := \<lparr>in_dynamic = [(n, 200)], in_next = 201\<rparr>, pb_skip := [True]\<rparr>)"
    by (simp add: apply_open_def builder_new_def resolve_custom)
  moreover have "apply_close TAG_UNKNOWN (Some n)
      (builder_new\<lparr>pb_tags := \<lparr>in_dynamic = [(n, 200)], in_next = 201\<rparr>, pb_skip := [True]\<rparr>) =
      Some (builder_new\<lparr>pb_tags := \<lparr>in_dynamic = [(n, 200)], in_next = 201\<rparr>\<rparr>)"
    by (simp add: apply_close_def builder_new_def resolve_custom)
  ultimately show ?thesis by simp
qed

lemma card_unknown: "map_of TAGS ''x-card'' = None"
  unfolding map_of_eq_None_iff TAGS_def by simp

theorem names_roundtrip_witness:
  "\<exists>b d. build (\<lambda>_. 0) [DomOpen TAG_UNKNOWN (Some ''x-card'') [], DomClose TAG_UNKNOWN (Some ''x-card'')] builder_new = Some b \<and>
     into_page b = Some d \<and> tag_name d 200 = Some ''x-card''"
proof -
  define b where "b = builder_new\<lparr>pb_tags := \<lparr>in_dynamic = [(''x-card'', 200)], in_next = 201\<rparr>\<rparr>"
  have build: "build (\<lambda>_. 0) [DomOpen TAG_UNKNOWN (Some ''x-card'') [], DomClose TAG_UNKNOWN (Some ''x-card'')] builder_new = Some b"
    unfolding b_def by (rule one_custom_tag)
  have "dom_reach (\<lambda>_. 0) (pb_dom b)" by (simp add: b_def builder_new_def dom_reach.empty)
  then obtain K where "dom_ok (pb_dom b) K" using dom_reach_ok by blast
  from attach_ok [OF this] obtain d where d: "into_page b = Some d" unfolding into_page_def by blast
  have "tag_name d 200 = Some ''x-card''"
  proof (rule names_roundtrip [OF build])
    show "mset (in_dynamic (pb_tags b)) = mset (in_dynamic (pb_tags b))" by simp
    show "attach_name_tables (name_table (in_dynamic (pb_tags b))) (name_table (in_dynamic (pb_attrs b))) (pb_dom b) = Some d"
      using d by (simp add: into_page_def)
    show "push_name TAGS TAG_UNKNOWN ''x-card'' = (TAG_UNKNOWN, Some ''x-card'')"
      by (simp add: push_name_def card_unknown)
    show "resolve_name DYNAMIC_TAG_BASE TAG_CAP TAG_UNKNOWN TAG_UNKNOWN (Some ''x-card'') (pb_tags b) = (Some 200, pb_tags b)"
      by (simp add: b_def resolve_custom)
  qed (simp add: TAG_UNKNOWN_def)
  then show ?thesis using build d by blast
qed

end
