(* ===== verification/Spec2Isabelle.thy ===== *)
theory Spec2Isabelle
  imports Math_Util Calendar Encoding Url Rng Checksum Blake2b Pow_Pool Cookie_Jar Http_Date Guard Proxy
    Budget Timer Solver Answer_Cache Query Time_Zone Page_Builder
begin

text \<open>
  A verification library for the Rust workspace under \<open>src/crates\<close>: a client that fetches pages, passes
  the proof-of-work challenges in front of them, and runs the scripts of the page in a simulated browser. This
  theory imports the whole library. The theories are independent of each other except where the code is.

  \<^bold>\<open>How the program hangs together.\<close> \<open>core-utils\<close> is the base: integers, text, URLs, calendars, time zones,
  generators, checksums and hashes. \<open>net-client\<close> sends requests: it asks \<open>fetch.rs\<close> whether a URL may be
  fetched at all, \<open>robots.rs\<close> whether the site allows it, and takes the cookies and the proxy of the
  request from \<open>session-state\<close>. The bytes of a page go through a tokenizer into \<open>parser-pipeline\<close>, which builds
  the document. A challenge found on the page goes to \<open>challenge-solver\<close>: decoded, validated and solved by a
  parallel search over eight-lane SHA-256, or by Argon2 on BLAKE2b. The document and the scripts go to
  \<open>runtime-exec\<close>, where timers, selectors and caches serve the JavaScript engine.

  \<^bold>\<open>Conventions.\<close> A Rust struct is a record, an enum a datatype, a method a function that returns the changed
  state. A panic (an index out of range, a checked overflow, a failed assertion) is \<^const>\<open>None\<close>, and so is a loop
  that does not end (\<open>partial_function\<close>); that neither happens is always a theorem and never an assumption. An
  \<open>Err\<close> is a value of an error datatype in a sum. Words of the code are words here wherever they may wrap;
  counters and positions with a proven bound are natural numbers. Text is a list of bytes. Atomics and channels are
  step relations in which every access is a step.

  \<^bold>\<open>Foundations.\<close> \<open>Prelude\<close>: types and lemmas on words and lists. \<open>Text\<close>, \<open>Std_Text\<close>: the string methods of the
  Rust standard library that the source uses, and the insertion-ordered map of the \<open>indexmap\<close> crate by its
  documented behaviour. \<open>Sibling_Links\<close>: lists of siblings kept by five links per node, with one lemma for each
  way of linking. \<open>Ip_Addr\<close>: addresses of \<open>core::net\<close>.

  \<^bold>\<open>core-utils.\<close>
  \<^item> \<open>Rng\<close> (\<open>rng.rs\<close>): SplitMix64, xoshiro256** and the salted identities. The locale \<open>bounded_source\<close> is the
    contract of a bounded draw; both generators interpret it, and the shuffle of \<open>Math_Util\<close> is proved over it.
  \<^item> \<open>Math_Util\<close>, \<open>Calendar\<close> (\<open>math.rs\<close>): decimal printing without division, dividers by reciprocal, UTF-8
    boundaries; civil dates in both directions.
  \<^item> \<open>Encoding\<close>, \<open>Url\<close> (\<open>encoding.rs\<close>, \<open>url.rs\<close>): percent, form and hexadecimal codecs, LEB128, the split of an
    authority and the joining of references.
  \<^item> \<open>Checksum\<close>, \<open>Blake2b\<close>, \<open>Sha256\<close>, \<open>Sha_Stream\<close> (\<open>crypto.rs\<close>): Adler-32 and CRC-32 against their definitions,
    BLAKE2b against RFC 7693 and the long hash of RFC 9106, the SHA-NI block function against FIPS 180-4 over
    the lane semantics of the intrinsics.
  \<^item> \<open>Zone_Tables\<close>, \<open>Time_Zone\<close> (\<open>tz.rs\<close>): every table row by row; look-up of zones, offsets with the one-entry
    cache, labels. Any sequence of calls answers as without a cache.

  \<^bold>\<open>net-client and session-state.\<close>
  \<^item> \<open>Cookies\<close>, \<open>Cookie_Jar\<close>, \<open>Http_Date\<close> (\<open>session.rs\<close>): the jar with its index by name. The invariant of the
    index, look-ups as look-ups in the map, the header of RFC 6265 (section 5.4) as a specification over the set
    of cookies, the scope of what a response can store, and dates.
  \<^item> \<open>Robots\<close> (\<open>robots.rs\<close>, \<open>blocklist.rs\<close>): the verdict against the longest-match rule of RFC 9309; blocked
    hosts are the listed ones and their subdomains.
  \<^item> \<open>Guard\<close> (\<open>fetch.rs\<close>): what the URL guard lets through, for every number notation of an IPv4 host.
  \<^item> \<open>Proxy\<close> (\<open>proxy.rs\<close>): parser, errors, printers and their round trip.

  \<^bold>\<open>challenge-solver.\<close>
  \<^item> \<open>Pow_Scan\<close> (\<open>scan.rs\<close>, \<open>pow.rs\<close>, \<open>hmac.rs\<close>, \<open>chain.rs\<close>): the decimal counters, the framed tail of the message,
    the eight-lane rounds and the scalar rest. \<open>Pow_Digest\<close> says what is computed for one nonce. \<open>Pow_Batch\<close> has
    the locale \<open>batch_lanes\<close>, the contract of the trait \<open>BatchCtx\<close>; the three contexts interpret it, and each
    search finds the least nonce that is hard enough.
  \<^item> \<open>Pow_Pool\<close> (\<open>width_solve_until\<close>): dispatcher, workers, channels and the shared flags \<open>found\<close>, \<open>stop\<close> and
    \<open>done\<close> as a step relation, with \<open>abort\<close> raised at any time. Invariants by rule induction give soundness and
    completeness; a measure on states gives that it returns.
  \<^item> \<open>Solver\<close> (\<open>lib.rs\<close>, \<open>decode.rs\<close>, \<open>anubis.rs\<close>): validation, envelope decoder, the scan for the challenge object.
  \<^item> \<open>Answer_Cache\<close> (\<open>cache.rs\<close>): the ring as a sequential map, and its loads and stores as separate steps.

  \<^bold>\<open>parser-pipeline.\<close>
  \<^item> \<open>Dom_Tree\<close> (\<open>dom.rs\<close>): the tree in parallel vectors. \<open>Dom_Forest\<close> relates it to the function from a node to the
    list of its children, \<open>Dom_Walks\<close> and \<open>Dom_Remove\<close> show that its loops end and what they do, \<open>Page_Dom\<close> that
    every reachable document is a forest, that a removal takes exactly a subtree and that the numbering decides
    descent.
  \<^item> \<open>Page_Builder\<close> (\<open>dom.rs\<close>, \<open>collector.rs\<close>): names, the stack of open elements, and the fold over the events of
    the tokenizer, for all sequences of events.

  \<^bold>\<open>runtime-exec.\<close>
  \<^item> \<open>Budget\<close> (\<open>cache.rs\<close>): the two counters of the cache budget under every interleaving of reservations.
  \<^item> \<open>Timer\<close> (\<open>timer.rs\<close>): the queue of timers and frames, its caps, identifiers and order.
  \<^item> \<open>Query\<close> (\<open>query.rs\<close>): selectors parsed and matched over a view of the document.

  \<^bold>\<open>What the lemmas show.\<close> For each component: an invariant that every operation keeps; what each operation
  returns on every branch, errors included; that no slice, index or checked operation fails; and, where the
  code implements a published algorithm or an optimised loop, its equality with a short definition of that
  algorithm. The numbered statements are the main results; the lemmas before them carry their proofs.

  \<^bold>\<open>Assumptions.\<close> They are hypotheses of the theorems, each with an instance in the witness after it:
  \<open>soft_ok\<close> (the block function of the \<open>sha2\<close> crate is the compression function), \<open>finds_first\<close> (a substring
  search returns the leftmost match), bounded hash values. Clock readings, floating-point conversions, hashes of
  identifiers and the view of the document in \<open>Query\<close> are arguments. A relaxed load may return any value.

  \<^bold>\<open>Bounds and fuel.\<close> No definition takes fuel. Loops are structural, or have a termination proof by a measure
  (positions left in a text, nonces left in a range), or are partial functions whose result is proved to
  exist (walks along links, removal, numbering, the walk up the parents in \<open>Query\<close>).

  \<^bold>\<open>Not modelled.\<close> \<open>payload-gen\<close> (canvas, fonts, input traces): floating-point synthesis with no contract in exact
  arithmetic; likewise the floating-point draws of \<open>rng.rs\<close> and \<open>math.rs\<close>. The host objects of \<open>runtime-exec\<close>
  (\<open>webidl.rs\<close>, \<open>intl.rs\<close>, \<open>worker.rs\<close>, \<open>canvas2d.rs\<close>, \<open>netapi.rs\<close>, \<open>observers.rs\<close> and the smaller ones): calls into
  the QuickJS engine, whose semantics is not in the source. \<open>pipeline.rs\<close> and \<open>detector.rs\<close>: callbacks of a
  third-party tokenizer and multi-pattern searches of a third-party crate. \<open>supervisor\<close>: asynchronous
  orchestration over \<open>tokio\<close> and \<open>axum\<close>. The tables of device profiles, and sending and streaming in
  \<open>fetch.rs\<close>, which are calls into the HTTP client.
\<close>

end
